(* ===== verification/Prelude.thy ===== *)
theory Prelude
  imports Main "HOL-Library.Monad_Syntax" "HOL-Library.Multiset"
begin

text \<open>
  Shared vocabulary of the development: C pointers, a block memory with
  \<^verbatim>\<open>malloc\<close> and \<^verbatim>\<open>free\<close>, and checked \<^verbatim>\<open>int\<close> arithmetic.

  Every partial operation returns an \<^typ>\<open>'a option\<close>. The value \<^const>\<open>None\<close>
  stands for undefined behaviour of C: a NULL dereference, a use after free, a
  double free, an index out of range, a division by zero or a signed overflow.
  An error return of the library (\<^verbatim>\<open>return -1\<close>) is an ordinary value.
\<close>

named_theorems mem_simps \<open>reads and writes of the block memory\<close>

section \<open>Pointers and memory\<close>

datatype ptr = Null | Ptr nat

text \<open>
  A memory holds objects of one C type. Each \<^verbatim>\<open>malloc\<close> takes a new block number,
  so a block that was freed is never handed out again. The field \<open>fails\<close> is the
  behaviour of the allocator: \<open>fails n\<close> says that the call that would
  give block \<open>n\<close> returns NULL. Every pattern of successes and failures is some
  function \<open>fails\<close>.
\<close>

record 'a mem =
  cells :: "nat \<Rightarrow> 'a option"
  nextblock :: nat
  fails :: "nat \<Rightarrow> bool"

definition empty_mem :: "(nat \<Rightarrow> bool) \<Rightarrow> 'a mem" where
  "empty_mem f = \<lparr>cells = (\<lambda>_. None), nextblock = 0, fails = f\<rparr>"

text \<open>
  \<open>malloc v m\<close> allocates an object. The callers of the library store every field
  before they read it, so the first contents are given with the allocation.
\<close>

definition malloc :: "'a \<Rightarrow> 'a mem \<Rightarrow> ptr \<times> 'a mem" where
  "malloc v m =
     (if fails m (nextblock m) then (Null, m\<lparr>nextblock := Suc (nextblock m)\<rparr>)
      else (Ptr (nextblock m),
            m\<lparr>cells := (cells m)(nextblock m \<mapsto> v), nextblock := Suc (nextblock m)\<rparr>))"

fun load :: "'a mem \<Rightarrow> ptr \<Rightarrow> 'a option" where
  "load m Null = None"
| "load m (Ptr a) = cells m a"

fun store :: "'a mem \<Rightarrow> ptr \<Rightarrow> 'a \<Rightarrow> 'a mem option" where
  "store m Null v = None"
| "store m (Ptr a) v =
     (if cells m a = None then None else Some (m\<lparr>cells := (cells m)(a \<mapsto> v)\<rparr>))"

text \<open>\<^verbatim>\<open>free(NULL)\<close> does nothing; freeing a block twice is undefined.\<close>

fun mem_free :: "'a mem \<Rightarrow> ptr \<Rightarrow> 'a mem option" where
  "mem_free m Null = Some m"
| "mem_free m (Ptr a) =
     (if cells m a = None then None else Some (m\<lparr>cells := (cells m)(a := None)\<rparr>))"

text \<open>No block at or above \<open>nextblock\<close> is in use.\<close>

definition mem_wf :: "'a mem \<Rightarrow> bool" where
  "mem_wf m \<longleftrightarrow> (\<forall>a. nextblock m \<le> a \<longrightarrow> cells m a = None)"

text \<open>The next \<open>n\<close> allocations succeed.\<close>

definition alloc_ok :: "nat \<Rightarrow> 'a mem \<Rightarrow> bool" where
  "alloc_ok n m \<longleftrightarrow> (\<forall>k<n. \<not> fails m (nextblock m + k))"

section \<open>The C type int\<close>

definition INT_MAX :: int where "INT_MAX = 2147483647"
definition INT_MIN :: int where "INT_MIN = - 2147483648"

text \<open>The result of signed arithmetic: undefined when it leaves the range of \<^verbatim>\<open>int\<close>.\<close>

definition c_int :: "int \<Rightarrow> int option" where
  "c_int x = (if INT_MIN \<le> x \<and> x \<le> INT_MAX then Some x else None)"

text \<open>The C remainder takes the sign of the dividend.\<close>

definition c_rem :: "int \<Rightarrow> int \<Rightarrow> int option" where
  "c_rem a b = (if b = 0 then None else Some (sgn a * (\<bar>a\<bar> mod \<bar>b\<bar>)))"

text \<open>An array access with a C index.\<close>

definition c_nth :: "'a list \<Rightarrow> int \<Rightarrow> 'a option" where
  "c_nth xs i = (if 0 \<le> i \<and> i < int (length xs) then Some (xs ! nat i) else None)"

definition c_upd :: "'a list \<Rightarrow> int \<Rightarrow> 'a \<Rightarrow> 'a list option" where
  "c_upd xs i v = (if 0 \<le> i \<and> i < int (length xs) then Some (xs[nat i := v]) else None)"

section \<open>Lemmas\<close>

lemma ptr_exhaust_eq: "p \<noteq> Null \<longleftrightarrow> (\<exists>a. p = Ptr a)"
  by (cases p) auto

lemma mem_wf_empty [simp]: "mem_wf (empty_mem f)"
  by (simp add: mem_wf_def empty_mem_def)

lemma load_empty [simp]: "load (empty_mem f) = (\<lambda>_. None)" "fails (empty_mem f) = f"
proof -
  show "load (empty_mem f) = (\<lambda>_. None)"
  proof
    fix p show "load (empty_mem f) p = None" by (cases p) (auto simp: empty_mem_def)
  qed
qed (simp add: empty_mem_def)

lemma malloc_fail [mem_simps]:
  "fails m (nextblock m) \<Longrightarrow> malloc v m = (Null, m\<lparr>nextblock := Suc (nextblock m)\<rparr>)"
  by (simp add: malloc_def)

lemma malloc_succeed [mem_simps]:
  "\<not> fails m (nextblock m) \<Longrightarrow>
   malloc v m = (Ptr (nextblock m),
     m\<lparr>cells := (cells m)(nextblock m \<mapsto> v), nextblock := Suc (nextblock m)\<rparr>)"
  by (simp add: malloc_def)

lemma mem_wf_fresh: "mem_wf m \<Longrightarrow> cells m (nextblock m) = None"
  by (simp add: mem_wf_def)

lemma mem_wf_used_less: "mem_wf m \<Longrightarrow> cells m a = Some v \<Longrightarrow> a < nextblock m"
  by (metis leI mem_wf_def option.distinct(1))

lemma mem_wf_malloc: "mem_wf m \<Longrightarrow> malloc v m = (p, m') \<Longrightarrow> mem_wf m'"
  by (auto simp: mem_wf_def malloc_def split: if_splits)

lemma mem_wf_store: "mem_wf m \<Longrightarrow> store m p v = Some m' \<Longrightarrow> mem_wf m'"
  by (cases p) (auto simp: mem_wf_def split: if_splits)

lemma mem_wf_free: "mem_wf m \<Longrightarrow> mem_free m p = Some m' \<Longrightarrow> mem_wf m'"
  by (cases p) (auto simp: mem_wf_def split: if_splits)

lemma store_live:
  assumes "load m p = Some v0"
  shows "\<exists>m'. store m p v = Some m' \<and> load m' = (load m)(p := Some v) \<and> nextblock m' = nextblock m \<and>
    fails m' = fails m \<and> (mem_wf m \<longrightarrow> mem_wf m')"
proof -
  obtain a where p: "p = Ptr a" "cells m a = Some v0"
    using assms by (cases p) auto
  have "load (m\<lparr>cells := (cells m)(a \<mapsto> v)\<rparr>) = (load m)(p := Some v)"
  proof
    fix q show "load (m\<lparr>cells := (cells m)(a \<mapsto> v)\<rparr>) q = ((load m)(p := Some v)) q"
      using p by (cases q) auto
  qed
  with p show ?thesis
    by (auto simp: mem_wf_def)
qed

lemma free_live:
  assumes "load m p = Some v0"
  shows "\<exists>m'. mem_free m p = Some m' \<and> load m' = (load m)(p := None) \<and> nextblock m' = nextblock m \<and>
    fails m' = fails m \<and> (mem_wf m \<longrightarrow> mem_wf m')"
proof -
  obtain a where p: "p = Ptr a" "cells m a = Some v0"
    using assms by (cases p) auto
  have "load (m\<lparr>cells := (cells m)(a := None)\<rparr>) = (load m)(p := None)"
  proof
    fix q show "load (m\<lparr>cells := (cells m)(a := None)\<rparr>) q = ((load m)(p := None)) q"
      using p by (cases q) auto
  qed
  with p show ?thesis
    by (auto simp: mem_wf_def)
qed

lemma malloc_live:
  assumes "\<not> fails m (nextblock m)" and "mem_wf m"
  shows "\<exists>p m'. malloc v m = (p, m') \<and> p \<noteq> Null \<and> load m p = None \<and> load m' = (load m)(p := Some v) \<and>
    fails m' = fails m \<and> mem_wf m'"
proof -
  let ?m = "m\<lparr>cells := (cells m)(nextblock m \<mapsto> v), nextblock := Suc (nextblock m)\<rparr>"
  have "load ?m = (load m)(Ptr (nextblock m) := Some v)"
  proof
    fix q show "load ?m q = ((load m)(Ptr (nextblock m) := Some v)) q"
      by (cases q) auto
  qed
  with assms show ?thesis
    by (auto simp: mem_wf_def malloc_def)
qed

lemma map_load_other: "p \<notin> set ps \<Longrightarrow> map (g(p := v)) ps = map g ps"
  by (induction ps) auto

lemma load_live_less: "mem_wf m \<Longrightarrow> load m p = Some v \<Longrightarrow> p \<in> Ptr ` {..<nextblock m}"
  by (cases p) (auto intro: mem_wf_used_less)

lemma finite_live: "mem_wf m \<Longrightarrow> finite (dom (load m))"
  by (rule finite_subset [of _ "Ptr ` {..<nextblock m}"]) (auto dest: load_live_less)

lemma alloc_ok_Suc: "alloc_ok (Suc n) m \<Longrightarrow> \<not> fails m (nextblock m)"
  by (auto simp: alloc_ok_def)

lemma alloc_ok_next:
  assumes "alloc_ok (Suc n) m" and "nextblock m' = Suc (nextblock m)" and "fails m' = fails m"
  shows "alloc_ok n m'"
proof -
  have "\<not> fails m (nextblock m + Suc k)" if "k < n" for k
    using assms(1) that unfolding alloc_ok_def by blast
  with assms(2,3) show ?thesis by (simp add: alloc_ok_def)
qed

lemma alloc_ok_mono: "alloc_ok n m \<Longrightarrow> k \<le> n \<Longrightarrow> alloc_ok k m"
  by (auto simp: alloc_ok_def)

lemma c_int_Some: "INT_MIN \<le> x \<Longrightarrow> x \<le> INT_MAX \<Longrightarrow> c_int x = Some x"
  by (simp add: c_int_def)

lemma c_int_pred [simp]: "0 \<le> x \<Longrightarrow> x \<le> INT_MAX \<Longrightarrow> c_int (x - 1) = Some (x - 1)"
  by (simp add: c_int_def INT_MIN_def)

lemma c_rem_nonneg: "0 \<le> a \<Longrightarrow> 0 < b \<Longrightarrow> c_rem a b = Some (a mod b)"
  by (cases "a = 0") (auto simp: c_rem_def)

lemma c_nth_nat [simp]: "i < length xs \<Longrightarrow> c_nth xs (int i) = Some (xs ! i)"
  by (simp add: c_nth_def)

lemma c_upd_nat [simp]: "i < length xs \<Longrightarrow> c_upd xs (int i) v = Some (xs[i := v])"
  by (simp add: c_upd_def)

lemma bind_eq_Some: "Option.bind x f = Some y \<longleftrightarrow> (\<exists>z. x = Some z \<and> f z = Some y)"
  by (cases x) auto

lemma concat_upd:
  "i < length bs \<Longrightarrow> concat (bs[i := ys]) = concat (take i bs) @ ys @ concat (drop (Suc i) bs)"
  by (simp add: upd_conv_take_nth_drop)

lemma concat_nth_split:
  "i < length bs \<Longrightarrow> concat bs = concat (take i bs) @ bs ! i @ concat (drop (Suc i) bs)"
  by (metis concat_append concat.simps(2) id_take_nth_drop)

lemma length_nth_le_concat: "i < length bs \<Longrightarrow> length (bs ! i) \<le> length (concat bs)"
  using arg_cong [OF concat_nth_split, of i bs length] by simp

lemma mset_concat_upd_Cons:
  "i < length bs \<Longrightarrow> mset (concat (bs[i := x # bs ! i])) = add_mset x (mset (concat bs))"
  using concat_nth_split [of i bs] by (simp add: concat_upd)

lemma mset_concat_upd_del:
  "i < length bs \<Longrightarrow> bs ! i = xs @ x # ys \<Longrightarrow>
   mset (concat bs) = add_mset x (mset (concat (bs[i := xs @ ys])))"
  using concat_nth_split [of i bs] by (simp add: concat_upd)

lemma map_eqI: "(\<And>k x. f k = Some x \<longleftrightarrow> g k = Some x) \<Longrightarrow> f = (g :: 'a \<rightharpoonup> 'b)"
  by (rule ext) (metis not_Some_eq)

lemma distinct_map_mset_eq: "mset xs = mset ys \<Longrightarrow> distinct (map f xs) \<longleftrightarrow> distinct (map f ys)"
  by (metis mset_eq_imp_distinct_iff mset_map)

lemma distinct_concat_nth_disjoint:
  "distinct (concat xss) \<Longrightarrow> i < length xss \<Longrightarrow> j < length xss \<Longrightarrow> i \<noteq> j \<Longrightarrow>
   set (xss ! i) \<inter> set (xss ! j) = {}"
proof (induction xss arbitrary: i j)
  case (Cons xs xss)
  have "set (xss ! k) \<inter> set xs = {}" if "k < length xss" for k
    using Cons.prems(1) nth_mem [OF that] by auto
  with Cons show ?case
    by (cases i; cases j) (auto simp: Int_commute)
qed simp

section \<open>Comparison callbacks\<close>

text \<open>
  The contract of a \<^verbatim>\<open>compare\<close> callback: the sign of its result is the order of the keys of
  its arguments.
\<close>

locale comparator =
  fixes cmp :: "'d \<Rightarrow> 'd \<Rightarrow> int" and key :: "'d \<Rightarrow> 'k :: linorder"
  assumes cmp_less: "cmp a b < 0 \<longleftrightarrow> key a < key b"
    and cmp_greater: "cmp a b > 0 \<longleftrightarrow> key b < key a"

end
