(* ===== verification/Linked_List.thy ===== *)
theory Linked_List
  imports Prelude
begin

text \<open>
  The singly linked list of \<^verbatim>\<open>lib/_structs/list.c\<close> and \<^verbatim>\<open>list.h\<close>, with the
  stack (\<^verbatim>\<open>stack.c\<close>) and the queue (\<^verbatim>\<open>queue.c\<close>) that are thin layers over it.

  A list header is the record \<open>List\<close> and lives in the caller; the elements are
  blocks of an \<open>ListElmt mem\<close>. The predicate \<open>list_rep m l ns\<close> says
  that the header \<open>l\<close> owns the chain of (block, data) pairs \<open>ns\<close>. A call
  through the function pointer \<open>destroy\<close> is recorded as the pair of the code
  address and the argument.
\<close>

section \<open>Data\<close>

record 'd ListElmt =
  e_data :: 'd
  e_next :: ptr

record List =
  l_size :: int
  l_match :: ptr
  l_destroy :: ptr
  l_head :: ptr
  l_tail :: ptr

type_synonym 'd lmem = "'d ListElmt mem"
type_synonym 'd call = "nat \<times> 'd"

section \<open>Operations of list.c\<close>

text \<open>\<^verbatim>\<open>list_init\<close> leaves the field \<^verbatim>\<open>match\<close> as it was.\<close>

definition list_init :: "List \<Rightarrow> ptr \<Rightarrow> List" where
  "list_init l destroy =
     l\<lparr>l_size := 0, l_destroy := destroy, l_head := Null, l_tail := Null\<rparr>"

text \<open>The result of \<^verbatim>\<open>memset(list, 0, sizeof(List))\<close>.\<close>

definition list_zero :: List where
  "list_zero = \<lparr>l_size = 0, l_match = Null, l_destroy = Null, l_head = Null, l_tail = Null\<rparr>"

definition list_ins_next ::
  "'d lmem \<Rightarrow> List \<Rightarrow> ptr \<Rightarrow> 'd \<Rightarrow> (int \<times> List \<times> 'd lmem) option" where
  "list_ins_next m l element d =
     (case malloc \<lparr>e_data = d, e_next = Null\<rparr> m of
        (Null, m1) \<Rightarrow> Some (-1, l, m1)
      | (new_element, m1) \<Rightarrow>
          if element = Null then do {
            let l1 = (if l_size l = 0 then l\<lparr>l_tail := new_element\<rparr> else l);
            m2 \<leftarrow> store m1 new_element \<lparr>e_data = d, e_next = l_head l\<rparr>;
            sz \<leftarrow> c_int (l_size l + 1);
            Some (0, l1\<lparr>l_head := new_element, l_size := sz\<rparr>, m2)
          } else do {
            e \<leftarrow> load m1 element;
            let l1 = (if e_next e = Null then l\<lparr>l_tail := new_element\<rparr> else l);
            m2 \<leftarrow> store m1 new_element \<lparr>e_data = d, e_next = e_next e\<rparr>;
            m3 \<leftarrow> store m2 element (e\<lparr>e_next := new_element\<rparr>);
            sz \<leftarrow> c_int (l_size l + 1);
            Some (0, l1\<lparr>l_size := sz\<rparr>, m3)
          })"

text \<open>
  The second component is what the call stores through its \<^verbatim>\<open>void **data\<close>
  argument, \<^const>\<open>None\<close> when it stores nothing.
\<close>

definition list_rem_next ::
  "'d lmem \<Rightarrow> List \<Rightarrow> ptr \<Rightarrow> (int \<times> 'd option \<times> List \<times> 'd lmem) option" where
  "list_rem_next m l element =
     (if l_size l = 0 then Some (-1, None, l, m)
      else if element = Null then do {
        h \<leftarrow> load m (l_head l);
        let l1 = l\<lparr>l_head := e_next h\<rparr>;
        let l2 = (if l_size l = 1 then l1\<lparr>l_tail := Null\<rparr> else l1);
        m1 \<leftarrow> mem_free m (l_head l);
        sz \<leftarrow> c_int (l_size l - 1);
        Some (0, Some (e_data h), l2\<lparr>l_size := sz\<rparr>, m1)
      } else do {
        e \<leftarrow> load m element;
        if e_next e = Null then Some (-1, None, l, m)
        else do {
          old \<leftarrow> load m (e_next e);
          m1 \<leftarrow> store m element (e\<lparr>e_next := e_next old\<rparr>);
          let l1 = (if e_next old = Null then l\<lparr>l_tail := element\<rparr> else l);
          m2 \<leftarrow> mem_free m1 (e_next e);
          sz \<leftarrow> c_int (l_size l - 1);
          Some (0, Some (e_data old), l1\<lparr>l_size := sz\<rparr>, m2)
        }
      })"

text \<open>The loop of \<^verbatim>\<open>list_destroy\<close>; \<open>calls\<close> collects the calls of \<^verbatim>\<open>destroy\<close>.\<close>

partial_function (option) list_destroy_loop ::
  "'d lmem \<Rightarrow> List \<Rightarrow> 'd call list \<Rightarrow> (List \<times> 'd lmem \<times> 'd call list) option" where
  "list_destroy_loop m l calls =
     (if l_size l > 0 then
        Option.bind (list_rem_next m l Null) (\<lambda>(ret, out, l1, m1).
          list_destroy_loop m1 l1
            (case (ret = 0, out, l_destroy l1) of
               (True, Some d, Ptr f) \<Rightarrow> calls @ [(f, d)]
             | _ \<Rightarrow> calls))
      else Some (l, m, calls))"

definition list_destroy :: "'d lmem \<Rightarrow> List \<Rightarrow> (List \<times> 'd lmem \<times> 'd call list) option" where
  "list_destroy m l = do {
     (l1, m1, calls) \<leftarrow> list_destroy_loop m l [];
     Some (list_zero, m1, calls)
   }"

definition list_is_head :: "List \<Rightarrow> ptr \<Rightarrow> int" where
  "list_is_head l element = (if element = l_head l then 1 else 0)"

definition list_is_tail :: "'d lmem \<Rightarrow> ptr \<Rightarrow> int option" where
  "list_is_tail m element = map_option (\<lambda>e. if e_next e = Null then 1 else 0) (load m element)"

section \<open>stack.c and queue.c\<close>

definition stack_push :: "'d lmem \<Rightarrow> List \<Rightarrow> 'd \<Rightarrow> (int \<times> List \<times> 'd lmem) option" where
  "stack_push m s d = list_ins_next m s Null d"

definition stack_pop :: "'d lmem \<Rightarrow> List \<Rightarrow> (int \<times> 'd option \<times> List \<times> 'd lmem) option" where
  "stack_pop m s = list_rem_next m s Null"

text \<open>\<^verbatim>\<open>stack_peek\<close>: outer \<^const>\<open>None\<close> is undefined behaviour, inner \<^const>\<open>None\<close> is NULL.\<close>

definition stack_peek :: "'d lmem \<Rightarrow> List \<Rightarrow> 'd option option" where
  "stack_peek m s =
     (if l_head s = Null then Some None else map_option (Some \<circ> e_data) (load m (l_head s)))"

definition queue_enqueue :: "'d lmem \<Rightarrow> List \<Rightarrow> 'd \<Rightarrow> (int \<times> List \<times> 'd lmem) option" where
  "queue_enqueue m q d = list_ins_next m q (l_tail q) d"

definition queue_dequeue :: "'d lmem \<Rightarrow> List \<Rightarrow> (int \<times> 'd option \<times> List \<times> 'd lmem) option" where
  "queue_dequeue m q = list_rem_next m q Null"

definition queue_peek :: "'d lmem \<Rightarrow> List \<Rightarrow> 'd option option" where
  "queue_peek m q =
     (if l_head q = Null then Some None else map_option (Some \<circ> e_data) (load m (l_head q)))"

section \<open>Representation\<close>

text \<open>\<open>lseg m p ns q\<close>: following \<^verbatim>\<open>next\<close> from \<open>p\<close> visits \<open>ns\<close> and arrives at \<open>q\<close>.\<close>

fun lseg :: "'d lmem \<Rightarrow> ptr \<Rightarrow> (nat \<times> 'd) list \<Rightarrow> ptr \<Rightarrow> bool" where
  "lseg m p [] q = (p = q)"
| "lseg m p ((a, d) # ns) q =
     (p = Ptr a \<and>
      (case cells m a of None \<Rightarrow> False | Some e \<Rightarrow> e_data e = d \<and> lseg m (e_next e) ns q))"

definition last_ptr :: "(nat \<times> 'd) list \<Rightarrow> ptr" where
  "last_ptr ns = (if ns = [] then Null else Ptr (fst (last ns)))"

definition list_rep :: "'d lmem \<Rightarrow> List \<Rightarrow> (nat \<times> 'd) list \<Rightarrow> bool" where
  "list_rep m l ns \<longleftrightarrow>
     lseg m (l_head l) ns Null \<and> distinct (map fst ns) \<and>
     l_tail l = last_ptr ns \<and> l_size l = int (length ns)"

text \<open>Two memories hold the same objects at every block of \<open>A\<close>.\<close>

definition same_on :: "nat set \<Rightarrow> 'a mem \<Rightarrow> 'a mem \<Rightarrow> bool" where
  "same_on A m m' \<longleftrightarrow> (\<forall>a\<in>A. cells m' a = cells m a)"

section \<open>Lemmas on chains\<close>

lemma lseg_append: "lseg m p (xs @ ys) q \<longleftrightarrow> (\<exists>r. lseg m p xs r \<and> lseg m r ys q)"
  by (induction xs arbitrary: p) (force split: option.splits)+

lemma lseg_frame:
  "lseg m p ns q \<Longrightarrow> \<forall>a\<in>fst ` set ns. cells m' a = cells m a \<Longrightarrow> lseg m' p ns q"
  by (induction ns arbitrary: p) (fastforce split: option.splits)+

lemma lseg_nextblock [simp]: "lseg (m\<lparr>nextblock := k\<rparr>) p ns q = lseg m p ns q"
  by (induction ns arbitrary: p) (auto split: option.splits)

lemma lseg_upd [simp]:
  "a \<notin> fst ` set ns \<Longrightarrow> lseg (m\<lparr>cells := (cells m)(a := v)\<rparr>) p ns q = lseg m p ns q"
  by (induction ns arbitrary: p) (auto split: option.splits)

lemma lseg_upd2 [simp]:
  "a \<notin> fst ` set ns \<Longrightarrow> b \<notin> fst ` set ns \<Longrightarrow>
   lseg (m\<lparr>cells := (cells m)(a := v, b := w)\<rparr>) p ns q = lseg m p ns q"
  by (induction ns arbitrary: p) (auto split: option.splits)

lemma lseg_cells: "lseg m p ns q \<Longrightarrow> a \<in> fst ` set ns \<Longrightarrow> cells m a \<noteq> None"
proof (induction ns arbitrary: p)
  case (Cons x ns)
  then show ?case by (cases x) (auto split: option.splits)
qed simp

lemma lseg_Null [simp]: "lseg m Null ns q \<longleftrightarrow> ns = [] \<and> q = Null"
  by (cases ns) auto

lemma list_rep_Nil: "list_rep m l [] \<longleftrightarrow> l_head l = Null \<and> l_tail l = Null \<and> l_size l = 0"
  by (auto simp: list_rep_def last_ptr_def)

lemma list_rep_head_Null: "list_rep m l ns \<Longrightarrow> l_head l = Null \<longleftrightarrow> ns = []"
  by (cases ns) (auto simp: list_rep_def)

lemma list_rep_frame:
  "list_rep m l ns \<Longrightarrow> same_on (fst ` set ns) m m' \<Longrightarrow> list_rep m' l ns"
  by (auto simp: list_rep_def same_on_def intro: lseg_frame)

lemma list_rep_used:
  "list_rep m l ns \<Longrightarrow> a \<in> fst ` set ns \<Longrightarrow> cells m a \<noteq> None"
  by (metis list_rep_def lseg_cells)

lemma list_rep_fresh:
  "list_rep m l ns \<Longrightarrow> mem_wf m \<Longrightarrow> nextblock m \<notin> fst ` set ns"
  using list_rep_used mem_wf_fresh by blast

lemma last_ptr_snoc [simp]: "last_ptr (xs @ [x]) = Ptr (fst x)"
  by (simp add: last_ptr_def)

lemma last_ptr_single [simp]: "last_ptr [x] = Ptr (fst x)"
  by (simp add: last_ptr_def)

lemma last_ptr_append [simp]: "ys \<noteq> [] \<Longrightarrow> last_ptr (xs @ ys) = last_ptr ys"
  by (simp add: last_ptr_def)

lemma last_ptr_Cons [simp]: "ys \<noteq> [] \<Longrightarrow> last_ptr (y # ys) = last_ptr ys"
  by (simp add: last_ptr_def)

section \<open>Insertion\<close>

text \<open>What a successful insertion leaves: the new chain, a well-formed memory, and every other block.\<close>

definition ins_result ::
  "'d lmem \<Rightarrow> List \<Rightarrow> (nat \<times> 'd) list \<Rightarrow> (nat \<times> 'd) list \<Rightarrow> List \<times> 'd lmem \<Rightarrow> bool" where
  "ins_result m l ns ns' = (\<lambda>(l', m').
     list_rep m' l' ns' \<and> mem_wf m' \<and> nextblock m' = Suc (nextblock m) \<and> fails m' = fails m \<and>
     l_destroy l' = l_destroy l \<and> same_on (- insert (nextblock m) (fst ` set ns)) m m')"

lemma list_ins_next_fail:
  assumes "fails m (nextblock m)"
  shows "list_ins_next m l element d = Some (-1, l, m\<lparr>nextblock := Suc (nextblock m)\<rparr>)"
  using assms by (simp add: list_ins_next_def mem_simps)

lemma list_ins_next_head:
  assumes rep: "list_rep m l ns" and wf: "mem_wf m"
    and ok: "\<not> fails m (nextblock m)" and room: "int (length ns) < INT_MAX"
  shows "\<exists>l' m'. list_ins_next m l Null d = Some (0, l', m') \<and>
     ins_result m l ns ((nextblock m, d) # ns) (l', m')"
proof -
  let ?a = "nextblock m"
  let ?m = "m\<lparr>cells := (cells m)(?a \<mapsto> \<lparr>e_data = d, e_next = l_head l\<rparr>), nextblock := Suc ?a\<rparr>"
  let ?l = "(if ns = [] then l\<lparr>l_tail := Ptr ?a\<rparr> else l)\<lparr>l_head := Ptr ?a, l_size := l_size l + 1\<rparr>"
  have fresh: "?a \<notin> fst ` set ns"
    using list_rep_fresh [OF rep wf] .
  have sz: "c_int (int (length ns) + 1) = Some (int (length ns) + 1)"
    using room by (simp add: c_int_def INT_MIN_def)
  have run: "list_ins_next m l Null d = Some (0, ?l, ?m)"
    using rep ok sz by (auto simp: list_ins_next_def mem_simps list_rep_def fun_upd_twist)
  have "lseg ?m (l_head l) ns Null"
    using rep fresh by (simp add: list_rep_def)
  then have "list_rep ?m ?l ((?a, d) # ns)"
    using rep fresh by (auto simp: list_rep_def last_ptr_def)
  moreover have "mem_wf ?m"
    using wf by (auto simp: mem_wf_def)
  ultimately show ?thesis
    using run by (auto simp: ins_result_def same_on_def)
qed

lemma lseg_middle:
  "lseg m p (xs @ (a, e) # ys) q \<longleftrightarrow>
   lseg m p xs (Ptr a) \<and> (\<exists>c. cells m a = Some c \<and> e_data c = e \<and> lseg m (e_next c) ys q)"
  by (auto simp: lseg_append split: option.splits)

lemma lseg_next_Null: "lseg m (e_next c) ys Null \<Longrightarrow> e_next c = Null \<longleftrightarrow> ys = []"
  by (cases ys) auto

lemma list_ins_next_after:
  assumes rep: "list_rep m l (xs @ (a, e) # ys)" and wf: "mem_wf m"
    and ok: "\<not> fails m (nextblock m)" and room: "int (length (xs @ (a, e) # ys)) < INT_MAX"
  shows "\<exists>l' m'. list_ins_next m l (Ptr a) d = Some (0, l', m') \<and>
     ins_result m l (xs @ (a, e) # ys) (xs @ (a, e) # (nextblock m, d) # ys) (l', m')"
proof -
  let ?b = "nextblock m"
  obtain c where pre: "lseg m (l_head l) xs (Ptr a)" and c: "cells m a = Some c" "e_data c = e"
    and post: "lseg m (e_next c) ys Null"
    using rep by (auto simp: list_rep_def lseg_middle)
  let ?m = "m\<lparr>cells := (cells m)(?b \<mapsto> \<lparr>e_data = d, e_next = e_next c\<rparr>,
                                 a \<mapsto> c\<lparr>e_next := Ptr ?b\<rparr>), nextblock := Suc ?b\<rparr>"
  let ?l = "(if ys = [] then l\<lparr>l_tail := Ptr ?b\<rparr> else l)\<lparr>l_size := l_size l + 1\<rparr>"
  have fresh: "?b \<notin> fst ` set (xs @ (a, e) # ys)"
    using list_rep_fresh [OF rep wf] .
  have dist: "distinct (map fst (xs @ (a, e) # ys))"
    using rep by (simp add: list_rep_def)
  have sz: "c_int (l_size l + 1) = Some (l_size l + 1)"
    using rep room by (simp add: c_int_def INT_MIN_def list_rep_def)
  have run: "list_ins_next m l (Ptr a) d = Some (0, ?l, ?m)"
    using rep ok sz c fresh lseg_next_Null [OF post]
    by (auto simp: list_ins_next_def mem_simps fun_upd_twist)
  have "lseg ?m (l_head l) xs (Ptr a)" and "lseg ?m (e_next c) ys Null"
    using pre post dist fresh by (simp_all add: image_Un)
  then have "lseg ?m (l_head l) (xs @ (a, e) # (?b, d) # ys) Null"
    using c fresh by (simp add: lseg_middle)
  then have "list_rep ?m ?l (xs @ (a, e) # (?b, d) # ys)"
    using rep fresh by (auto simp: list_rep_def)
  moreover have "mem_wf ?m"
    using wf mem_wf_used_less [OF wf c(1)] by (auto simp: mem_wf_def)
  ultimately show ?thesis
    using run by (auto simp: ins_result_def same_on_def)
qed

lemma list_ins_next_rep:
  assumes "list_rep m l (xs @ ys)" and "mem_wf m" and "\<not> fails m (nextblock m)"
    and "int (length (xs @ ys)) < INT_MAX"
  shows "\<exists>l' m'. list_ins_next m l (last_ptr xs) d = Some (0, l', m') \<and>
     ins_result m l (xs @ ys) (xs @ (nextblock m, d) # ys) (l', m')"
proof (cases xs rule: rev_cases)
  case Nil
  then show ?thesis
    using list_ins_next_head [of m l ys d] assms by (simp add: last_ptr_def)
next
  case (snoc xs' x)
  then show ?thesis
    using list_ins_next_after [of m l xs' "fst x" "snd x" ys d] assms by simp
qed

section \<open>Removal\<close>

definition rem_result ::
  "'d lmem \<Rightarrow> List \<Rightarrow> (nat \<times> 'd) list \<Rightarrow> (nat \<times> 'd) list \<Rightarrow> nat \<Rightarrow> List \<times> 'd lmem \<Rightarrow> bool" where
  "rem_result m l ns ns' old = (\<lambda>(l', m').
     list_rep m' l' ns' \<and> mem_wf m' \<and> nextblock m' = nextblock m \<and> fails m' = fails m \<and>
     l_destroy l' = l_destroy l \<and> cells m' old = None \<and> same_on (- fst ` set ns) m m')"

lemma list_rem_next_empty:
  assumes "list_rep m l []"
  shows "list_rem_next m l element = Some (-1, None, l, m)"
  using assms by (simp add: list_rem_next_def list_rep_Nil)

lemma list_rem_next_head:
  assumes rep: "list_rep m l ((a, d) # ns)" and wf: "mem_wf m"
    and room: "int (length ((a, d) # ns)) \<le> INT_MAX"
  shows "\<exists>l' m'. list_rem_next m l Null = Some (0, Some d, l', m') \<and>
     rem_result m l ((a, d) # ns) ns a (l', m')"
proof -
  obtain c where h: "l_head l = Ptr a" and c: "cells m a = Some c" "e_data c = d"
    and post: "lseg m (e_next c) ns Null"
    using rep by (auto simp: list_rep_def split: option.splits)
  let ?m = "m\<lparr>cells := (cells m)(a := None)\<rparr>"
  let ?l = "(if ns = [] then l\<lparr>l_tail := Null\<rparr> else l)\<lparr>l_head := e_next c, l_size := l_size l - 1\<rparr>"
  have sz: "c_int (l_size l - 1) = Some (l_size l - 1)" "l_size l = 1 \<longleftrightarrow> ns = []" "l_size l \<noteq> 0"
    using rep room by (auto simp: list_rep_def c_int_def INT_MIN_def)
  have run: "list_rem_next m l Null = Some (0, Some d, ?l, ?m)"
    using h c sz by (auto simp: list_rem_next_def)
  have "lseg ?m (e_next c) ns Null"
    using post rep by (simp add: list_rep_def)
  then have "list_rep ?m ?l ns"
    using rep by (auto simp: list_rep_def last_ptr_def)
  moreover have "mem_wf ?m"
    using wf by (auto simp: mem_wf_def)
  ultimately show ?thesis
    using run by (auto simp: rem_result_def same_on_def)
qed

lemma list_rem_next_after:
  assumes rep: "list_rep m l (xs @ (a, e) # (b, d) # ys)" and wf: "mem_wf m"
    and room: "int (length (xs @ (a, e) # (b, d) # ys)) \<le> INT_MAX"
  shows "\<exists>l' m'. list_rem_next m l (Ptr a) = Some (0, Some d, l', m') \<and>
     rem_result m l (xs @ (a, e) # (b, d) # ys) (xs @ (a, e) # ys) b (l', m')"
proof -
  obtain c o' where pre: "lseg m (l_head l) xs (Ptr a)" and c: "cells m a = Some c" "e_data c = e"
    and o: "e_next c = Ptr b" "cells m b = Some o'" "e_data o' = d"
    and post: "lseg m (e_next o') ys Null"
    using rep by (auto simp: list_rep_def lseg_middle split: option.splits)
  let ?m = "m\<lparr>cells := (cells m)(a \<mapsto> c\<lparr>e_next := e_next o'\<rparr>, b := None)\<rparr>"
  let ?l = "(if ys = [] then l\<lparr>l_tail := Ptr a\<rparr> else l)\<lparr>l_size := l_size l - 1\<rparr>"
  have dist: "distinct (map fst (xs @ (a, e) # (b, d) # ys))"
    using rep by (simp add: list_rep_def)
  have sz: "c_int (l_size l - 1) = Some (l_size l - 1)" "l_size l \<noteq> 0"
    using rep room by (auto simp: list_rep_def c_int_def INT_MIN_def)
  have run: "list_rem_next m l (Ptr a) = Some (0, Some d, ?l, ?m)"
    using c o sz dist lseg_next_Null [OF post] by (auto simp: list_rem_next_def)
  have "lseg ?m (l_head l) xs (Ptr a)" and "lseg ?m (e_next o') ys Null"
    using pre post dist by simp_all
  then have "lseg ?m (l_head l) (xs @ (a, e) # ys) Null"
    using c dist by (auto simp: lseg_middle)
  then have "list_rep ?m ?l (xs @ (a, e) # ys)"
    using rep by (auto simp: list_rep_def last_ptr_def)
  moreover have "mem_wf ?m"
    using wf c o by (auto simp: mem_wf_def)
  ultimately show ?thesis
    using run by (auto simp: rem_result_def same_on_def)
qed

lemma list_rem_next_rep:
  assumes "list_rep m l (xs @ (b, d) # ys)" and "mem_wf m"
    and "int (length (xs @ (b, d) # ys)) \<le> INT_MAX"
  shows "\<exists>l' m'. list_rem_next m l (last_ptr xs) = Some (0, Some d, l', m') \<and>
     rem_result m l (xs @ (b, d) # ys) (xs @ ys) b (l', m')"
proof (cases xs rule: rev_cases)
  case Nil
  then show ?thesis
    using list_rem_next_head [of m l b d ys] assms by (simp add: last_ptr_def)
next
  case (snoc xs' x)
  then show ?thesis
    using list_rem_next_after [of m l xs' "fst x" "snd x" b d ys] assms by simp
qed

lemma list_rem_next_at_tail:
  assumes rep: "list_rep m l (xs @ [(a, e)])"
  shows "list_rem_next m l (Ptr a) = Some (-1, None, l, m)"
proof -
  obtain c where "cells m a = Some c" "e_next c = Null"
    using rep by (auto simp: list_rep_def lseg_middle)
  then show ?thesis
    using rep by (simp add: list_rem_next_def list_rep_def)
qed

section \<open>Destruction\<close>

definition destroy_calls :: "List \<Rightarrow> (nat \<times> 'd) list \<Rightarrow> 'd call list" where
  "destroy_calls l ns = (case l_destroy l of Null \<Rightarrow> [] | Ptr f \<Rightarrow> map (\<lambda>n. (f, snd n)) ns)"

lemma list_destroy_loop_rep:
  assumes "list_rep m l ns" and "mem_wf m" and "int (length ns) \<le> INT_MAX"
  shows "\<exists>l' m'. list_destroy_loop m l calls = Some (l', m', calls @ destroy_calls l ns) \<and>
     mem_wf m' \<and> nextblock m' = nextblock m \<and> fails m' = fails m \<and>
     (\<forall>a\<in>fst ` set ns. cells m' a = None) \<and> same_on (- fst ` set ns) m m'"
  using assms
proof (induction ns arbitrary: m l calls)
  case Nil
  then show ?case
    by (auto simp: list_destroy_loop.simps list_rep_Nil destroy_calls_def same_on_def split: ptr.split)
next
  case (Cons n ns)
  obtain a d where n: "n = (a, d)" by (cases n)
  obtain l1 m1 where run: "list_rem_next m l Null = Some (0, Some d, l1, m1)"
    and res: "rem_result m l ((a, d) # ns) ns a (l1, m1)"
    using list_rem_next_head [OF Cons.prems [unfolded n]] by blast
  let ?calls = "calls @ destroy_calls l [(a, d)]"
  have l1: "list_rep m1 l1 ns" "mem_wf m1" "l_destroy l1 = l_destroy l"
    using res by (simp_all add: rem_result_def)
  have pos: "l_size l > 0"
    using Cons.prems(1) by (simp add: list_rep_def)
  have step: "list_destroy_loop m l calls = list_destroy_loop m1 l1 ?calls"
    using pos run l1(3)
    by (subst list_destroy_loop.simps) (simp add: destroy_calls_def split: ptr.split)
  obtain l' m' where rest:
      "list_destroy_loop m1 l1 ?calls = Some (l', m', ?calls @ destroy_calls l1 ns)"
      "mem_wf m'" "nextblock m' = nextblock m1" "fails m' = fails m1"
      "\<forall>a\<in>fst ` set ns. cells m' a = None" "same_on (- fst ` set ns) m1 m'"
    using Cons.IH [OF l1(1,2), of ?calls] Cons.prems(3) by auto
  have "?calls @ destroy_calls l1 ns = calls @ destroy_calls l (n # ns)"
    using l1(3) n by (simp add: destroy_calls_def split: ptr.split)
  moreover have "cells m' a = None" and "same_on (- fst ` set (n # ns)) m m'"
    using rest(6) res Cons.prems(1) n by (auto simp: same_on_def rem_result_def list_rep_def)
  ultimately show ?case
    using step rest res n by (auto simp: rem_result_def)
qed

lemma list_destroy_rep:
  assumes "list_rep m l ns" and "mem_wf m" and "int (length ns) \<le> INT_MAX"
  shows "\<exists>m'. list_destroy m l = Some (list_zero, m', destroy_calls l ns) \<and>
     mem_wf m' \<and> nextblock m' = nextblock m \<and> fails m' = fails m \<and>
     (\<forall>a\<in>fst ` set ns. cells m' a = None) \<and> same_on (- fst ` set ns) m m'"
  using list_destroy_loop_rep [OF assms, of "[]"] by (auto simp: list_destroy_def)

section \<open>The stack and the queue as abstract types\<close>

text \<open>
  \<open>room n\<close> says that \<open>n\<close> more insertions succeed: the allocator serves them and
  the element count stays in the range of \<^verbatim>\<open>int\<close>.
\<close>

definition seq_rep :: "List \<times> 'd lmem \<Rightarrow> 'd list \<Rightarrow> bool" where
  "seq_rep s xs \<longleftrightarrow>
     (\<exists>ns. list_rep (snd s) (fst s) ns \<and> mem_wf (snd s) \<and> map snd ns = xs \<and>
           int (length ns) \<le> INT_MAX)"

definition room :: "nat \<Rightarrow> List \<times> 'd lmem \<Rightarrow> bool" where
  "room n s \<longleftrightarrow> alloc_ok n (snd s) \<and> l_size (fst s) + int n \<le> INT_MAX"

text \<open>The contract of a container that hands out one end of a sequence.\<close>

locale container =
  fixes insert_op :: "'s \<Rightarrow> 'd \<Rightarrow> (int \<times> 's) option"
    and remove_op :: "'s \<Rightarrow> (int \<times> 'd option \<times> 's) option"
    and rep :: "'s \<Rightarrow> 'd list \<Rightarrow> bool"
    and cap :: "nat \<Rightarrow> 's \<Rightarrow> bool"
    and put :: "'d \<Rightarrow> 'd list \<Rightarrow> 'd list"
  assumes insert_ok:
      "rep s xs \<Longrightarrow> cap (Suc n) s \<Longrightarrow>
       \<exists>s'. insert_op s d = Some (0, s') \<and> rep s' (put d xs) \<and> cap n s'"
    and remove_Cons: "rep s (x # xs) \<Longrightarrow> \<exists>s'. remove_op s = Some (0, Some x, s') \<and> rep s' xs"
    and remove_Nil: "rep s [] \<Longrightarrow> remove_op s = Some (-1, None, s)"

text \<open>Insert a sequence of items; remove until the container reports that it is empty.\<close>

fun insert_all :: "('s \<Rightarrow> 'd \<Rightarrow> (int \<times> 's) option) \<Rightarrow> 's \<Rightarrow> 'd list \<Rightarrow> 's option" where
  "insert_all ins s [] = Some s"
| "insert_all ins s (d # ds) =
     (case ins s d of Some (ret, s') \<Rightarrow> (if ret = 0 then insert_all ins s' ds else None) | None \<Rightarrow> None)"

partial_function (option) remove_all ::
  "('s \<Rightarrow> (int \<times> 'd option \<times> 's) option) \<Rightarrow> 's \<Rightarrow> 'd list \<Rightarrow> 'd list option" where
  "remove_all rem s acc =
     Option.bind (rem s) (\<lambda>(ret, out, s').
       if ret = 0 then remove_all rem s' (acc @ (case out of None \<Rightarrow> [] | Some d \<Rightarrow> [d]))
       else Some acc)"

context container
begin

lemma insert_all_rep:
  "rep s xs \<Longrightarrow> cap (length ds) s \<Longrightarrow>
   \<exists>s'. insert_all insert_op s ds = Some s' \<and> rep s' (fold put ds xs)"
proof (induction ds arbitrary: s xs)
  case (Cons d ds)
  then obtain s' where "insert_op s d = Some (0, s')" "rep s' (put d xs)" "cap (length ds) s'"
    using insert_ok [of s xs "length ds" d] by auto
  then show ?case
    using Cons.IH [of s' "put d xs"] by simp
qed simp

lemma remove_all_rep: "rep s xs \<Longrightarrow> remove_all remove_op s acc = Some (acc @ xs)"
proof (induction xs arbitrary: s acc)
  case Nil
  then show ?case using remove_Nil by (subst remove_all.simps) simp
next
  case (Cons x xs)
  then obtain s' where "remove_op s = Some (0, Some x, s')" "rep s' xs"
    using remove_Cons by blast
  then show ?case
    using Cons.IH [of s' "acc @ [x]"] by (subst remove_all.simps) simp
qed

lemma drain:
  assumes "rep s xs" and "cap (length ds) s"
  shows "\<exists>s'. insert_all insert_op s ds = Some s' \<and>
              remove_all remove_op s' [] = Some (fold put ds xs)"
  using insert_all_rep [OF assms] remove_all_rep [where acc = "[]"] by fastforce

end

lemma ins_result_seq:
  assumes "list_rep m l ns" and "ins_result m l ns ns' (l', m')" and "room (Suc n) (l, m)"
    and "length ns' = Suc (length ns)"
  shows "seq_rep (l', m') (map snd ns') \<and> room n (l', m')"
proof -
  have sz: "l_size l = int (length ns)" "l_size l' = int (length ns')" "int (length ns') \<le> INT_MAX"
    using assms by (auto simp: list_rep_def ins_result_def room_def)
  have "alloc_ok n m'"
    using assms(2,3) alloc_ok_next [of n m m'] by (simp add: room_def ins_result_def)
  with sz assms show ?thesis
    by (auto simp: seq_rep_def room_def ins_result_def)
qed

lemma stack_push_ok:
  assumes "seq_rep s xs" and "room (Suc n) s"
  shows "\<exists>s'. stack_push (snd s) (fst s) d = Some (0, s') \<and> seq_rep s' (d # xs) \<and> room n s'"
proof -
  obtain ns where ns: "list_rep (snd s) (fst s) ns" "mem_wf (snd s)" "map snd ns = xs"
    using assms by (auto simp: seq_rep_def)
  have ok: "\<not> fails (snd s) (nextblock (snd s))" and sz: "int (length ns) < INT_MAX"
    using assms ns by (auto simp: room_def list_rep_def dest: alloc_ok_Suc)
  obtain l' m' where
      run: "list_ins_next (snd s) (fst s) Null d = Some (0, l', m')" and
      res: "ins_result (snd s) (fst s) ns ((nextblock (snd s), d) # ns) (l', m')"
    using list_ins_next_head [OF ns(1,2) ok sz] by blast
  show ?thesis
    using run ins_result_seq [OF ns(1) res, of n] ns(3) assms(2) by (simp add: stack_push_def)
qed

lemma queue_enqueue_ok:
  assumes "seq_rep s xs" and "room (Suc n) s"
  shows "\<exists>s'. queue_enqueue (snd s) (fst s) d = Some (0, s') \<and> seq_rep s' (xs @ [d]) \<and> room n s'"
proof -
  obtain ns where ns: "list_rep (snd s) (fst s) ns" "mem_wf (snd s)" "map snd ns = xs"
    using assms by (auto simp: seq_rep_def)
  have ok: "\<not> fails (snd s) (nextblock (snd s))" and sz: "int (length ns) < INT_MAX"
    using assms ns by (auto simp: room_def list_rep_def dest: alloc_ok_Suc)
  obtain l' m' where
      run: "list_ins_next (snd s) (fst s) (l_tail (fst s)) d = Some (0, l', m')" and
      res: "ins_result (snd s) (fst s) ns (ns @ [(nextblock (snd s), d)]) (l', m')"
    using list_ins_next_rep [of "snd s" "fst s" ns "[]" d] ns ok sz by (auto simp: list_rep_def)
  show ?thesis
    using run ins_result_seq [OF ns(1) res, of n] ns(3) assms(2) by (simp add: queue_enqueue_def)
qed

lemma list_rem_head_seq:
  assumes "seq_rep s (x # xs)"
  shows "\<exists>s'. list_rem_next (snd s) (fst s) Null = Some (0, Some x, s') \<and> seq_rep s' xs"
proof -
  obtain a ns where ns: "list_rep (snd s) (fst s) ((a, x) # ns)" "mem_wf (snd s)" "map snd ns = xs"
      "int (length ((a, x) # ns)) \<le> INT_MAX"
    using assms by (auto simp: seq_rep_def)
  then show ?thesis
    using list_rem_next_head [OF ns(1,2,4)] by (fastforce simp: seq_rep_def rem_result_def)
qed

lemma list_rem_empty_seq:
  "seq_rep s [] \<Longrightarrow> list_rem_next (snd s) (fst s) Null = Some (-1, None, s)"
  by (auto simp: seq_rep_def list_rem_next_empty)

interpretation stk: container "\<lambda>s. stack_push (snd s) (fst s)" "\<lambda>s. stack_pop (snd s) (fst s)"
  seq_rep room "(#)"
  by unfold_locales
    (auto simp: stack_pop_def intro: stack_push_ok list_rem_head_seq list_rem_empty_seq
          simp del: split_paired_Ex)

interpretation que: container "\<lambda>s. queue_enqueue (snd s) (fst s)" "\<lambda>s. queue_dequeue (snd s) (fst s)"
  seq_rep room "\<lambda>d xs. xs @ [d]"
  by unfold_locales
    (auto simp: queue_dequeue_def intro: queue_enqueue_ok list_rem_head_seq list_rem_empty_seq
          simp del: split_paired_Ex)

lemma fold_snoc: "fold (\<lambda>d xs. xs @ [d]) ds xs = xs @ ds"
  by (induction ds arbitrary: xs) auto

lemma fold_Cons: "fold (#) ds xs = rev ds @ xs"
  by (induction ds arbitrary: xs) auto

lemma seq_rep_init: "seq_rep (list_init l f, empty_mem al) []"
  by (auto simp: seq_rep_def list_rep_Nil list_init_def INT_MAX_def)

section \<open>Properties\<close>

text \<open>
  C3: \<^verbatim>\<open>list_ins_next\<close> puts the new element right after the given one (or in front, when the
  element is NULL), keeps every other element in order, keeps the list well formed (chain, tail
  pointer, element count) and changes no block outside the list.
\<close>

theorem list_ins_next_inserts:
  assumes "list_rep m l (xs @ ys)" and "mem_wf m" and "\<not> fails m (nextblock m)"
    and "int (length (xs @ ys)) < INT_MAX"
  shows "\<exists>l' m'. list_ins_next m l (last_ptr xs) d = Some (0, l', m') \<and>
           list_rep m' l' (xs @ (nextblock m, d) # ys) \<and> mem_wf m' \<and>
           same_on (- insert (nextblock m) (fst ` set (xs @ ys))) m m'"
  using list_ins_next_rep [OF assms, of d] by (auto simp: ins_result_def)

text \<open>A concrete list of two elements, used by the witnesses.\<close>

definition ex_mem :: "nat lmem" where
  "ex_mem = \<lparr>cells = [0 \<mapsto> \<lparr>e_data = 5, e_next = Ptr 1\<rparr>, 1 \<mapsto> \<lparr>e_data = 6, e_next = Null\<rparr>],
     nextblock = 2, fails = (\<lambda>_. False)\<rparr>"

definition ex_list :: List where
  "ex_list = \<lparr>l_size = 2, l_match = Null, l_destroy = Ptr 99, l_head = Ptr 0, l_tail = Ptr 1\<rparr>"

lemma ex_list_rep: "list_rep ex_mem ex_list [(0, 5), (1, 6)]" and ex_mem_wf: "mem_wf ex_mem"
  by (auto simp: list_rep_def ex_mem_def ex_list_def last_ptr_def mem_wf_def)

theorem list_ins_next_inserts_witness:
  "list_rep ex_mem ex_list ([(0, 5)] @ [(1, 6)]) \<and>
   (\<exists>l' m'. list_ins_next ex_mem ex_list (Ptr 0) 7 = Some (0, l', m') \<and>
      list_rep m' l' [(0, 5), (2, 7), (1, 6)])"
  using list_ins_next_inserts [of ex_mem ex_list "[(0, 5)]" "[(1, 6)]" 7] ex_list_rep ex_mem_wf
  by (fastforce simp: ex_mem_def INT_MAX_def last_ptr_def)

text \<open>
  C5: \<^verbatim>\<open>list_rem_next\<close> removes the element after the given one (the first one, when the
  element is NULL), returns its data, frees exactly its block and keeps the list well formed.
\<close>

theorem list_rem_next_removes:
  assumes "list_rep m l (xs @ (b, d) # ys)" and "mem_wf m"
    and "int (length (xs @ (b, d) # ys)) \<le> INT_MAX"
  shows "\<exists>l' m'. list_rem_next m l (last_ptr xs) = Some (0, Some d, l', m') \<and>
           list_rep m' l' (xs @ ys) \<and> mem_wf m' \<and> cells m' b = None \<and>
           same_on (- fst ` set (xs @ (b, d) # ys)) m m'"
  using list_rem_next_rep [OF assms] by (auto simp: rem_result_def)

theorem list_rem_next_removes_witness:
  "\<exists>l' m'. list_rem_next ex_mem ex_list (Ptr 0) = Some (0, Some 6, l', m') \<and>
     list_rep m' l' [(0, 5)] \<and> cells m' 1 = None"
  using list_rem_next_removes [of ex_mem ex_list "[(0, 5)]" 1 6 "[]"] ex_list_rep ex_mem_wf
  by (fastforce simp: INT_MAX_def last_ptr_def)

text \<open>
  the error returns of the two operations leave the list as it was: an insertion when the
  allocator fails, and a removal from the empty list or after the last element.
\<close>

theorem list_errors_keep_list:
  "(fails m (nextblock m) \<longrightarrow>
      list_ins_next m l element d = Some (-1, l, m\<lparr>nextblock := Suc (nextblock m)\<rparr>)) \<and>
   (list_rep m l [] \<longrightarrow> list_rem_next m l element = Some (-1, None, l, m)) \<and>
   (list_rep m l (xs @ [(a, e)]) \<longrightarrow> list_rem_next m l (Ptr a) = Some (-1, None, l, m))"
  by (simp add: list_ins_next_fail list_rem_next_empty list_rem_next_at_tail)

theorem list_errors_keep_list_witness:
  "list_rem_next ex_mem ex_list (Ptr 1) = Some (-1, None, ex_list, ex_mem)"
  using list_errors_keep_list [of ex_mem ex_list Null 0 "[(0, 5)]" 1 6] ex_list_rep by simp

text \<open>
  \<^verbatim>\<open>list_destroy\<close> returns, frees every element of the list and nothing else, and calls
  the destructor once on the data of each element, in list order.
\<close>

theorem list_destroy_frees_all:
  assumes "list_rep m l ns" and "mem_wf m" and "int (length ns) \<le> INT_MAX"
  shows "\<exists>m'. list_destroy m l = Some (list_zero, m', destroy_calls l ns) \<and>
           (\<forall>a\<in>fst ` set ns. cells m' a = None) \<and> same_on (- fst ` set ns) m m'"
  using list_destroy_rep [OF assms] by blast

theorem list_destroy_frees_all_witness:
  "\<exists>m'. list_destroy ex_mem ex_list = Some (list_zero, m', [(99, 5), (99, 6)]) \<and>
     cells m' 0 = None \<and> cells m' 1 = None"
  using list_destroy_frees_all [OF ex_list_rep ex_mem_wf]
  by (auto simp: INT_MAX_def destroy_calls_def ex_list_def)

text \<open>
  C24: the queue is first-in first-out and the stack last-in first-out: storing a sequence and
  removing until the container reports empty yields the old contents and the new items in the
  order of the container.
\<close>

theorem queue_fifo_stack_lifo:
  assumes "seq_rep s xs" and "room (length ds) s"
  shows "(\<exists>s'. insert_all (\<lambda>s. queue_enqueue (snd s) (fst s)) s ds = Some s' \<and>
            remove_all (\<lambda>s. queue_dequeue (snd s) (fst s)) s' [] = Some (xs @ ds)) \<and>
         (\<exists>s'. insert_all (\<lambda>s. stack_push (snd s) (fst s)) s ds = Some s' \<and>
            remove_all (\<lambda>s. stack_pop (snd s) (fst s)) s' [] = Some (rev ds @ xs))"
  using que.drain [OF assms] stk.drain [OF assms] by (simp add: fold_snoc fold_Cons)

theorem queue_fifo_stack_lifo_witness:
  "(\<exists>s'. insert_all (\<lambda>s. queue_enqueue (snd s) (fst s)) (ex_list, ex_mem) [7, 8] = Some s' \<and>
      remove_all (\<lambda>s. queue_dequeue (snd s) (fst s)) s' [] = Some [5, 6, 7, 8]) \<and>
   (\<exists>s'. insert_all (\<lambda>s. stack_push (snd s) (fst s)) (ex_list, ex_mem) [7, 8] = Some s' \<and>
      remove_all (\<lambda>s. stack_pop (snd s) (fst s)) s' [] = Some [8, 7, 5, 6])"
proof -
  have "seq_rep (ex_list, ex_mem) [5, 6]"
    unfolding seq_rep_def using ex_list_rep ex_mem_wf by (fastforce simp: INT_MAX_def)
  moreover have "room (length [7, 8 :: nat]) (ex_list, ex_mem)"
    by (simp add: room_def alloc_ok_def ex_mem_def ex_list_def INT_MAX_def)
  ultimately show ?thesis
    using queue_fifo_stack_lifo [of "(ex_list, ex_mem)" "[5, 6]" "[7, 8]"] by simp
qed

end
