(* ===== verification/Chained_Hash.thy ===== *)
theory Chained_Hash
  imports Linked_List
begin

text \<open>
  The chained hash table of \<^verbatim>\<open>lib/_structs/chtbl.c\<close> (the copy under \<^verbatim>\<open>lib/app/bns\<close> is
  the same file). The buckets are an array of list headers; the elements of all the buckets live
  in one element memory. The first group of operations stores plain data, the
  \<^verbatim>\<open>_kv\<close> group stores key/value pairs and hashes the key.
\<close>

section \<open>Data\<close>

text \<open>A key and a value; \<open>None\<close> is a value pointer that was never assigned.\<close>

record SweetListKv =
  kv_key :: string
  kv_value :: "string option"

text \<open>
  A function pointer that the table calls is a HOL function; \<^const>\<open>None\<close> is NULL. The
  pointer \<open>table\<close> to the bucket array is the array itself.
\<close>

record ('k, 'd) CHTbl =
  ht_buckets :: int
  ht_h :: "('k \<Rightarrow> int) option"
  ht_match :: "('d \<Rightarrow> 'd \<Rightarrow> int) option"
  ht_destroy :: ptr
  ht_size :: int
  ht_table :: "List list"

section \<open>Operations\<close>

text \<open>
  \<^verbatim>\<open>chtbl_init\<close>. \<open>alloc\<close> is the outcome of the \<^verbatim>\<open>malloc\<close> of the bucket array:
  the unspecified first contents of each header, or \<^const>\<open>None\<close> for NULL. The type of the keys
  is the type of the data for \<^verbatim>\<open>chtbl_init\<close> and \<^verbatim>\<open>char *\<close> for
  \<^verbatim>\<open>chtbl_init_kv\<close>; the two functions have the same statements.
\<close>

definition chtbl_init ::
  "(nat \<Rightarrow> List) option \<Rightarrow> ('k, 'd) CHTbl \<Rightarrow> int \<Rightarrow> ('k \<Rightarrow> int) \<Rightarrow> ('d \<Rightarrow> 'd \<Rightarrow> int) \<Rightarrow> ptr
   \<Rightarrow> int \<times> ('k, 'd) CHTbl" where
  "chtbl_init alloc t buckets h match destroy =
     (case alloc of
        None \<Rightarrow> (-1, t\<lparr>ht_table := []\<rparr>)
      | Some arr \<Rightarrow>
          (0, t\<lparr>ht_buckets := buckets,
                ht_table := map (\<lambda>i. list_init (arr i) destroy) [0..<nat buckets],
                ht_h := Some h, ht_match := Some match, ht_destroy := destroy, ht_size := 0\<rparr>))"

definition chtbl_init_kv ::
  "(nat \<Rightarrow> List) option \<Rightarrow> (string, SweetListKv) CHTbl \<Rightarrow> int \<Rightarrow> (string \<Rightarrow> int)
   \<Rightarrow> (SweetListKv \<Rightarrow> SweetListKv \<Rightarrow> int) \<Rightarrow> ptr \<Rightarrow> int \<times> (string, SweetListKv) CHTbl" where
  "chtbl_init_kv alloc t buckets h match destroy =
     (case alloc of
        None \<Rightarrow> (-1, t\<lparr>ht_table := []\<rparr>)
      | Some arr \<Rightarrow>
          (0, t\<lparr>ht_buckets := buckets,
                ht_table := map (\<lambda>i. list_init (arr i) destroy) [0..<nat buckets],
                ht_h := Some h, ht_match := Some match, ht_destroy := destroy, ht_size := 0\<rparr>))"

text \<open>The walk over one bucket, shared by the lookups: \<open>Some None\<close> is the end of the chain.\<close>

partial_function (option) chain_find ::
  "('d \<Rightarrow> 'd \<Rightarrow> int) \<Rightarrow> 'd lmem \<Rightarrow> 'd \<Rightarrow> ptr \<Rightarrow> 'd option option" where
  "chain_find match m d element =
     (if element = Null then Some None
      else Option.bind (load m element) (\<lambda>e.
        if match d (e_data e) \<noteq> 0 then Some (Some (e_data e))
        else chain_find match m d (e_next e)))"

text \<open>The loop of the removals: the element before the match, and whether there is a match.\<close>

partial_function (option) chain_find_prev ::
  "('d \<Rightarrow> 'd \<Rightarrow> int) \<Rightarrow> 'd lmem \<Rightarrow> 'd \<Rightarrow> ptr \<Rightarrow> ptr \<Rightarrow> ptr option option" where
  "chain_find_prev match m d prev element =
     (if element = Null then Some None
      else Option.bind (load m element) (\<lambda>e.
        if match d (e_data e) \<noteq> 0 then Some (Some prev)
        else chain_find_prev match m d element (e_next e)))"

definition chtbl_lookup ::
  "'d lmem \<Rightarrow> ('d, 'd) CHTbl \<Rightarrow> 'd \<Rightarrow> (int \<times> 'd) option" where
  "chtbl_lookup m t d = do {
     h \<leftarrow> ht_h t;
     bucket \<leftarrow> c_rem (h d) (ht_buckets t);
     l \<leftarrow> c_nth (ht_table t) bucket;
     match \<leftarrow> ht_match t;
     r \<leftarrow> chain_find match m d (l_head l);
     Some (case r of Some x \<Rightarrow> (0, x) | None \<Rightarrow> (-1, d))
   }"

definition chtbl_insert ::
  "'d lmem \<Rightarrow> ('d, 'd) CHTbl \<Rightarrow> 'd \<Rightarrow> (int \<times> ('d, 'd) CHTbl \<times> 'd lmem) option" where
  "chtbl_insert m t d = do {
     (found, _) \<leftarrow> chtbl_lookup m t d;
     if found = 0 then Some (1, t, m)
     else do {
       h \<leftarrow> ht_h t;
       bucket \<leftarrow> c_rem (h d) (ht_buckets t);
       l \<leftarrow> c_nth (ht_table t) bucket;
       (retval, l1, m1) \<leftarrow> list_ins_next m l Null d;
       tab \<leftarrow> c_upd (ht_table t) bucket l1;
       let t1 = t\<lparr>ht_table := tab\<rparr>;
       if retval = 0 then do {
         sz \<leftarrow> c_int (ht_size t + 1);
         Some (retval, t1\<lparr>ht_size := sz\<rparr>, m1)
       } else Some (retval, t1, m1)
     }
   }"

text \<open>The second component of a removal is the new value of \<^verbatim>\<open>*data\<close>.\<close>

definition chtbl_remove ::
  "'d lmem \<Rightarrow> ('d, 'd) CHTbl \<Rightarrow> 'd \<Rightarrow> (int \<times> 'd \<times> ('d, 'd) CHTbl \<times> 'd lmem) option" where
  "chtbl_remove m t d = do {
     h \<leftarrow> ht_h t;
     bucket \<leftarrow> c_rem (h d) (ht_buckets t);
     l \<leftarrow> c_nth (ht_table t) bucket;
     match \<leftarrow> ht_match t;
     r \<leftarrow> chain_find_prev match m d Null (l_head l);
     (case r of
        None \<Rightarrow> Some (-1, d, t, m)
      | Some prev \<Rightarrow> do {
          (ret, out, l1, m1) \<leftarrow> list_rem_next m l prev;
          tab \<leftarrow> c_upd (ht_table t) bucket l1;
          let t1 = t\<lparr>ht_table := tab\<rparr>;
          let d1 = (case out of None \<Rightarrow> d | Some x \<Rightarrow> x);
          if ret = 0 then do {
            sz \<leftarrow> c_int (ht_size t - 1);
            Some (0, d1, t1\<lparr>ht_size := sz\<rparr>, m1)
          } else Some (-1, d1, t1, m1)
        })
   }"

type_synonym kvtbl = "(string, SweetListKv) CHTbl"

definition chtbl_lookup_kv ::
  "SweetListKv lmem \<Rightarrow> kvtbl \<Rightarrow> SweetListKv \<Rightarrow> (int \<times> SweetListKv) option" where
  "chtbl_lookup_kv m t d = do {
     h \<leftarrow> ht_h t;
     bucket \<leftarrow> c_rem (h (kv_key d)) (ht_buckets t);
     l \<leftarrow> c_nth (ht_table t) bucket;
     match \<leftarrow> ht_match t;
     r \<leftarrow> chain_find match m d (l_head l);
     Some (case r of Some x \<Rightarrow> (0, x) | None \<Rightarrow> (-1, d))
   }"

text \<open>\<^verbatim>\<open>chtbl_find_kv\<close> returns the stored pair, or its own argument when there is none.\<close>

definition chtbl_find_kv ::
  "SweetListKv lmem \<Rightarrow> kvtbl \<Rightarrow> SweetListKv \<Rightarrow> SweetListKv option" where
  "chtbl_find_kv m t d = do {
     h \<leftarrow> ht_h t;
     bucket \<leftarrow> c_rem (h (kv_key d)) (ht_buckets t);
     l \<leftarrow> c_nth (ht_table t) bucket;
     match \<leftarrow> ht_match t;
     r \<leftarrow> chain_find match m d (l_head l);
     Some (case r of Some x \<Rightarrow> x | None \<Rightarrow> d)
   }"

definition chtbl_insert_kv ::
  "SweetListKv lmem \<Rightarrow> kvtbl \<Rightarrow> SweetListKv \<Rightarrow> (int \<times> kvtbl \<times> SweetListKv lmem) option" where
  "chtbl_insert_kv m t d = do {
     (found, _) \<leftarrow> chtbl_lookup_kv m t d;
     if found = 0 then Some (1, t, m)
     else do {
       h \<leftarrow> ht_h t;
       bucket \<leftarrow> c_rem (h (kv_key d)) (ht_buckets t);
       l \<leftarrow> c_nth (ht_table t) bucket;
       (retval, l1, m1) \<leftarrow> list_ins_next m l Null d;
       tab \<leftarrow> c_upd (ht_table t) bucket l1;
       let t1 = t\<lparr>ht_table := tab\<rparr>;
       if retval = 0 then do {
         sz \<leftarrow> c_int (ht_size t + 1);
         Some (retval, t1\<lparr>ht_size := sz\<rparr>, m1)
       } else Some (retval, t1, m1)
     }
   }"

definition chtbl_remove_kv ::
  "SweetListKv lmem \<Rightarrow> kvtbl \<Rightarrow> SweetListKv
   \<Rightarrow> (int \<times> SweetListKv \<times> kvtbl \<times> SweetListKv lmem) option" where
  "chtbl_remove_kv m t d = do {
     h \<leftarrow> ht_h t;
     bucket \<leftarrow> c_rem (h (kv_key d)) (ht_buckets t);
     l \<leftarrow> c_nth (ht_table t) bucket;
     match \<leftarrow> ht_match t;
     r \<leftarrow> chain_find_prev match m d Null (l_head l);
     (case r of
        None \<Rightarrow> Some (-1, d, t, m)
      | Some prev \<Rightarrow> do {
          (ret, out, l1, m1) \<leftarrow> list_rem_next m l prev;
          tab \<leftarrow> c_upd (ht_table t) bucket l1;
          let t1 = t\<lparr>ht_table := tab\<rparr>;
          let d1 = (case out of None \<Rightarrow> d | Some x \<Rightarrow> x);
          if ret = 0 then do {
            sz \<leftarrow> c_int (ht_size t - 1);
            Some (0, d1, t1\<lparr>ht_size := sz\<rparr>, m1)
          } else Some (-1, d1, t1, m1)
        })
   }"

text \<open>\<^verbatim>\<open>chtbl_destroy\<close>: every bucket in index order, then \<^verbatim>\<open>memset\<close>.\<close>

fun destroy_buckets ::
  "'d lmem \<Rightarrow> List list \<Rightarrow> 'd call list \<Rightarrow> ('d lmem \<times> 'd call list) option" where
  "destroy_buckets m [] calls = Some (m, calls)"
| "destroy_buckets m (l # ls) calls = do {
     (_, m1, c) \<leftarrow> list_destroy m l;
     destroy_buckets m1 ls (calls @ c)
   }"

definition chtbl_zero :: "('k, 'd) CHTbl" where
  "chtbl_zero = \<lparr>ht_buckets = 0, ht_h = None, ht_match = None, ht_destroy = Null,
                 ht_size = 0, ht_table = []\<rparr>"

definition chtbl_destroy ::
  "'d lmem \<Rightarrow> ('k, 'd) CHTbl \<Rightarrow> (('k, 'd) CHTbl \<times> 'd lmem \<times> 'd call list) option" where
  "chtbl_destroy m t =
     (if ht_buckets t \<le> int (length (ht_table t)) then do {
        (m1, calls) \<leftarrow> destroy_buckets m (take (nat (ht_buckets t)) (ht_table t)) [];
        Some (chtbl_zero, m1, calls)
      } else None)"

section \<open>The walks over a bucket\<close>

lemma chain_find_unfold [simp]:
  "chain_find match m d Null = Some None"
  "chain_find match m d (Ptr a) = Option.bind (cells m a) (\<lambda>e.
     if match d (e_data e) \<noteq> 0 then Some (Some (e_data e)) else chain_find match m d (e_next e))"
  by (simp_all add: chain_find.simps)

lemma chain_find_prev_unfold [simp]:
  "chain_find_prev match m d prev Null = Some None"
  "chain_find_prev match m d prev (Ptr a) = Option.bind (cells m a) (\<lambda>e.
     if match d (e_data e) \<noteq> 0 then Some (Some prev)
     else chain_find_prev match m d (Ptr a) (e_next e))"
  by (simp_all add: chain_find_prev.simps)

lemma chain_find_lseg:
  "lseg m p ns Null \<Longrightarrow>
   chain_find match m d p = Some (find (\<lambda>x. match d x \<noteq> 0) (map snd ns))"
proof (induction ns arbitrary: p)
  case Nil
  then show ?case by simp
next
  case (Cons n ns)
  then show ?case
    by (cases n) (auto split: option.splits)
qed

lemma chain_find_prev_none:
  "lseg m p ns Null \<Longrightarrow> \<forall>n\<in>set ns. match d (snd n) = 0 \<Longrightarrow>
   chain_find_prev match m d prev p = Some None"
proof (induction ns arbitrary: p prev)
  case Nil
  then show ?case by simp
next
  case (Cons n ns)
  then show ?case
    by (cases n) (auto split: option.splits)
qed

lemma chain_find_prev_some:
  "lseg m p (xs @ n # ys) Null \<Longrightarrow> \<forall>n\<in>set xs. match d (snd n) = 0 \<Longrightarrow> match d (snd n) \<noteq> 0 \<Longrightarrow>
   chain_find_prev match m d prev p = Some (Some (if xs = [] then prev else last_ptr xs))"
proof (induction xs arbitrary: p prev)
  case Nil
  then show ?case
    by (cases n) (auto split: option.splits)
next
  case (Cons x xs)
  then show ?case
    by (cases x) (auto split: option.splits)
qed

section \<open>The two groups of operations as one\<close>

text \<open>
  The operations on plain data and on pairs differ only in what is hashed. For the proofs both
  are instances of the following, where \<open>kf\<close> projects the hashed part.
\<close>

definition tbl_bucket :: "('d \<Rightarrow> 'k) \<Rightarrow> ('k, 'd) CHTbl \<Rightarrow> 'd \<Rightarrow> (int \<times> List) option" where
  "tbl_bucket kf t d = do {
     h \<leftarrow> ht_h t;
     bucket \<leftarrow> c_rem (h (kf d)) (ht_buckets t);
     l \<leftarrow> c_nth (ht_table t) bucket;
     Some (bucket, l)
   }"

definition tbl_find :: "('d \<Rightarrow> 'k) \<Rightarrow> 'd lmem \<Rightarrow> ('k, 'd) CHTbl \<Rightarrow> 'd \<Rightarrow> 'd option option" where
  "tbl_find kf m t d = do {
     (bucket, l) \<leftarrow> tbl_bucket kf t d;
     match \<leftarrow> ht_match t;
     chain_find match m d (l_head l)
   }"

definition tbl_insert ::
  "('d \<Rightarrow> 'k) \<Rightarrow> 'd lmem \<Rightarrow> ('k, 'd) CHTbl \<Rightarrow> 'd \<Rightarrow> (int \<times> ('k, 'd) CHTbl \<times> 'd lmem) option" where
  "tbl_insert kf m t d = do {
     r \<leftarrow> tbl_find kf m t d;
     if r \<noteq> None then Some (1, t, m)
     else do {
       (bucket, l) \<leftarrow> tbl_bucket kf t d;
       (retval, l1, m1) \<leftarrow> list_ins_next m l Null d;
       tab \<leftarrow> c_upd (ht_table t) bucket l1;
       if retval = 0 then do {
         sz \<leftarrow> c_int (ht_size t + 1);
         Some (retval, t\<lparr>ht_table := tab, ht_size := sz\<rparr>, m1)
       } else Some (retval, t\<lparr>ht_table := tab\<rparr>, m1)
     }
   }"

definition tbl_remove ::
  "('d \<Rightarrow> 'k) \<Rightarrow> 'd lmem \<Rightarrow> ('k, 'd) CHTbl \<Rightarrow> 'd
   \<Rightarrow> (int \<times> 'd \<times> ('k, 'd) CHTbl \<times> 'd lmem) option" where
  "tbl_remove kf m t d = do {
     (bucket, l) \<leftarrow> tbl_bucket kf t d;
     match \<leftarrow> ht_match t;
     r \<leftarrow> chain_find_prev match m d Null (l_head l);
     (case r of
        None \<Rightarrow> Some (-1, d, t, m)
      | Some prev \<Rightarrow> do {
          (ret, out, l1, m1) \<leftarrow> list_rem_next m l prev;
          tab \<leftarrow> c_upd (ht_table t) bucket l1;
          let d1 = (case out of None \<Rightarrow> d | Some x \<Rightarrow> x);
          if ret = 0 then do {
            sz \<leftarrow> c_int (ht_size t - 1);
            Some (0, d1, t\<lparr>ht_table := tab, ht_size := sz\<rparr>, m1)
          } else Some (-1, d1, t\<lparr>ht_table := tab\<rparr>, m1)
        })
   }"

definition found :: "'d \<Rightarrow> 'd option \<Rightarrow> int \<times> 'd" where
  "found d r = (case r of Some x \<Rightarrow> (0, x) | None \<Rightarrow> (-1, d))"

lemma lookup_tbl:
  "chtbl_lookup m t d = map_option (found d) (tbl_find id m t d)"
  "chtbl_lookup_kv m' t' d' = map_option (found d') (tbl_find kv_key m' t' d')"
  "chtbl_find_kv m' t' d' = map_option (snd \<circ> found d') (tbl_find kv_key m' t' d')"
  by (simp_all add: chtbl_lookup_def chtbl_lookup_kv_def chtbl_find_kv_def tbl_find_def tbl_bucket_def
      found_def fun_eq_iff map_option_case Let_def split: bind_splits option.splits)

lemma insert_tbl:
  "chtbl_insert m t d = tbl_insert id m t d"
  "chtbl_insert_kv m' t' d' = tbl_insert kv_key m' t' d'"
  by (simp_all add: chtbl_insert_def chtbl_insert_kv_def tbl_insert_def lookup_tbl tbl_bucket_def
      found_def Let_def split: bind_splits option.splits if_splits)

lemma remove_tbl:
  "chtbl_remove m t d = tbl_remove id m t d"
  "chtbl_remove_kv m' t' d' = tbl_remove kv_key m' t' d'"
  by (simp_all add: chtbl_remove_def chtbl_remove_kv_def tbl_remove_def tbl_bucket_def Let_def
      split: bind_splits option.splits)

section \<open>The table as a finite map\<close>

text \<open>
  What the table needs of its two callbacks, where \<open>key\<close> is the part of an item that
  identifies it: the hash is not negative, \<^verbatim>\<open>match\<close> compares the keys, and items
  with equal keys hash alike.
\<close>

locale hash_callbacks =
  fixes kf :: "'d \<Rightarrow> 'k" and h :: "'k \<Rightarrow> int" and match :: "'d \<Rightarrow> 'd \<Rightarrow> int" and key :: "'d \<Rightarrow> 'q"
  assumes h_nonneg: "0 \<le> h (kf d)"
    and match_key: "match a b \<noteq> 0 \<longleftrightarrow> key a = key b"
    and h_key: "key a = key b \<Longrightarrow> h (kf a) = h (kf b)"

text \<open>\<open>bs\<close> holds the chain of each bucket.\<close>

definition tbl_rep ::
  "('d \<Rightarrow> 'k) \<Rightarrow> ('k \<Rightarrow> int) \<Rightarrow> ('d \<Rightarrow> 'd \<Rightarrow> int) \<Rightarrow> ('d \<Rightarrow> 'q)
   \<Rightarrow> 'd lmem \<Rightarrow> ('k, 'd) CHTbl \<Rightarrow> (nat \<times> 'd) list list \<Rightarrow> bool" where
  "tbl_rep kf h match key m t bs \<longleftrightarrow>
     ht_h t = Some h \<and> ht_match t = Some match \<and> mem_wf m \<and>
     length (ht_table t) = length bs \<and> ht_buckets t = int (length bs) \<and> 0 < length bs \<and>
     ht_size t = int (length (concat bs)) \<and> int (length (concat bs)) \<le> INT_MAX \<and>
     distinct (map fst (concat bs)) \<and> distinct (map (key \<circ> snd) (concat bs)) \<and>
     (\<forall>l\<in>set (ht_table t). l_destroy l = ht_destroy t) \<and>
     (\<forall>i<length bs. list_rep m (ht_table t ! i) (bs ! i) \<and>
        (\<forall>n\<in>set (bs ! i). h (kf (snd n)) mod int (length bs) = int i))"

lemma tbl_rep_bucketD:
  assumes "tbl_rep kf h match key m t bs" and "i < length bs"
  shows "list_rep m (ht_table t ! i) (bs ! i)"
    and "\<forall>n\<in>set (bs ! i). h (kf (snd n)) mod int (length bs) = int i"
  using assms by (simp_all add: tbl_rep_def)

lemma tbl_rep_fresh:
  assumes "tbl_rep kf h match key m t bs"
  shows "nextblock m \<notin> fst ` set (concat bs)"
proof
  assume "nextblock m \<in> fst ` set (concat bs)"
  then obtain i where "i < length bs" "nextblock m \<in> fst ` set (bs ! i)"
    by (auto simp: in_set_conv_nth) (metis fst_conv image_eqI nth_mem)
  then show False
    using list_rep_fresh [OF tbl_rep_bucketD(1) [OF assms]] assms by (simp add: tbl_rep_def)
qed

lemma tbl_rep_disjoint:
  assumes "tbl_rep kf h match key m t bs" and "i < length bs" and "j < length bs" and "i \<noteq> j"
  shows "fst ` set (bs ! i) \<inter> fst ` set (bs ! j) = {}"
  using assms distinct_concat_nth_disjoint [of "map (map fst) bs" i j]
  by (simp add: tbl_rep_def map_concat)

text \<open>Replacing the chain of one bucket keeps the other buckets.\<close>

lemma tbl_rep_upd:
  assumes rep: "tbl_rep kf h match key m t bs" and i: "i < length bs"
    and l': "list_rep m' l' ns'" "mem_wf m'" "same_on (- insert (nextblock m) (fst ` set (bs ! i))) m m'"
      "l_destroy l' = l_destroy (ht_table t ! i)"
    and bs': "bs' = bs[i := ns']"
    and ns': "\<forall>n\<in>set ns'. h (kf (snd n)) mod int (length bs) = int i"
    and dist: "distinct (map fst (concat bs'))" "distinct (map (key \<circ> snd) (concat bs'))"
    and sz: "sz = int (length (concat bs'))" "sz \<le> INT_MAX"
  shows "tbl_rep kf h match key m' (t\<lparr>ht_table := (ht_table t)[i := l'], ht_size := sz\<rparr>) bs'"
proof -
  have other: "list_rep m' (ht_table t ! j) (bs ! j)" if j: "j < length bs" "j \<noteq> i" for j
  proof (rule list_rep_frame)
    show "list_rep m (ht_table t ! j) (bs ! j)"
      using rep j by (simp add: tbl_rep_def)
    then have "nextblock m \<notin> fst ` set (bs ! j)"
      using rep by (intro list_rep_fresh) (auto simp: tbl_rep_def)
    then have "fst ` set (bs ! j) \<subseteq> - insert (nextblock m) (fst ` set (bs ! i))"
      using tbl_rep_disjoint [OF rep i j(1)] j(2) by blast
    then show "same_on (fst ` set (bs ! j)) m m'"
      using l'(3) by (auto simp: same_on_def)
  qed
  have "list_rep m' ((ht_table t)[i := l'] ! j) (bs' ! j) \<and>
        (\<forall>n\<in>set (bs' ! j). h (kf (snd n)) mod int (length bs) = int j)" if "j < length bs" for j
    using other [OF that] that tbl_rep_bucketD(2) [OF rep that] rep i l'(1) ns' unfolding bs'
    by (cases "j = i") (simp_all add: tbl_rep_def)
  moreover have "\<forall>l\<in>set ((ht_table t)[i := l']). l_destroy l = ht_destroy t"
    using rep l'(4) i set_update_subset_insert [of "ht_table t" i l'] by (auto simp: tbl_rep_def)
  ultimately show ?thesis
    using rep l'(2) dist sz i bs' by (simp add: tbl_rep_def)
qed

text \<open>The abstraction: the map from keys to the stored items.\<close>

definition tbl_map :: "('d \<Rightarrow> 'q) \<Rightarrow> (nat \<times> 'd) list list \<Rightarrow> 'q \<rightharpoonup> 'd" where
  "tbl_map key bs = map_of (map (\<lambda>n. (key (snd n), snd n)) (concat bs))"

lemma tbl_map_Some:
  assumes "distinct (map (key \<circ> snd) (concat bs))"
  shows "tbl_map key bs k = Some x \<longleftrightarrow> x \<in> snd ` set (concat bs) \<and> key x = k"
proof -
  have "distinct (map fst (map (\<lambda>n. (key (snd n), snd n)) (concat bs)))"
    using assms by (simp add: comp_def)
  then show ?thesis
    by (auto simp: tbl_map_def map_of_eq_Some_iff simp del: set_concat)
qed

lemma tbl_map_None:
  assumes "distinct (map (key \<circ> snd) (concat bs))"
  shows "tbl_map key bs k = None \<longleftrightarrow> (\<forall>x\<in>snd ` set (concat bs). key x \<noteq> k)"
  using tbl_map_Some [OF assms] by (metis not_Some_eq)

lemma tbl_map_remove:
  assumes d: "distinct (map (key \<circ> snd) (concat bs))" "distinct (map (key \<circ> snd) (concat bs'))"
    and S: "set (concat bs) = insert (a, x) (set (concat bs'))"
    and out: "\<forall>y\<in>snd ` set (concat bs'). key y \<noteq> key x"
  shows "tbl_map key bs' = (tbl_map key bs)(key x := None)"
proof (rule map_eqI)
  fix k y
  have "snd ` set (concat bs) = insert x (snd ` set (concat bs'))"
    using S by simp
  then have "tbl_map key bs k = Some y \<longleftrightarrow> (y = x \<or> y \<in> snd ` set (concat bs')) \<and> key y = k"
    by (simp only: tbl_map_Some [OF d(1)] insert_iff)
  then show "tbl_map key bs' k = Some y \<longleftrightarrow> ((tbl_map key bs)(key x := None)) k = Some y"
    using out by (auto simp only: tbl_map_Some [OF d(2)] fun_upd_apply split: if_splits)
qed

context hash_callbacks
begin

definition idx :: "(nat \<times> 'd) list list \<Rightarrow> 'd \<Rightarrow> nat" where
  "idx bs d = nat (h (kf d) mod int (length bs))"

lemma idx_less: "0 < length bs \<Longrightarrow> idx bs d < length bs"
  by (simp add: idx_def nat_less_iff)

lemma bucket:
  assumes "tbl_rep kf h match key m t bs"
  shows "tbl_bucket kf t d = Some (int (idx bs d), ht_table t ! idx bs d)"
    and "idx bs d < length bs" and "list_rep m (ht_table t ! idx bs d) (bs ! idx bs d)"
proof -
  show i: "idx bs d < length bs"
    using assms by (intro idx_less) (auto simp: tbl_rep_def)
  have pos: "0 < int (length bs)"
    using i by linarith
  then have "int (idx bs d) = h (kf d) mod int (length bs)"
    by (simp add: idx_def)
  then show "tbl_bucket kf t d = Some (int (idx bs d), ht_table t ! idx bs d)"
    using assms i c_rem_nonneg [OF h_nonneg pos, of d]
      c_nth_nat [of "idx bs d" "ht_table t"]
    by (auto simp: tbl_bucket_def tbl_rep_def)
  show "list_rep m (ht_table t ! idx bs d) (bs ! idx bs d)"
    using assms i by (simp add: tbl_rep_def)
qed

lemma in_bucket:
  assumes "tbl_rep kf h match key m t bs" and "x \<in> snd ` set (concat bs)" and "key x = key d"
  shows "x \<in> snd ` set (bs ! idx bs d)"
proof -
  obtain n where n: "n \<in> set (concat bs)" "snd n = x"
    using assms(2) by blast
  then obtain i where i: "i < length bs" "n \<in> set (bs ! i)"
    by (auto simp: in_set_conv_nth) blast
  then have "h (kf x) mod int (length bs) = int i"
    using assms(1) n by (auto simp: tbl_rep_def)
  then have "i = idx bs d"
    using h_key [OF assms(3)] by (simp add: idx_def)
  with i n show ?thesis by auto
qed

lemma bucket_subset:
  assumes "tbl_rep kf h match key m t bs"
  shows "snd ` set (bs ! idx bs d) \<subseteq> snd ` set (concat bs)"
  using nth_mem [OF bucket(2) [OF assms, of d]] by (intro image_mono) auto

lemma find_rep:
  assumes rep: "tbl_rep kf h match key m t bs"
  shows "tbl_find kf m t d = Some (tbl_map key bs (key d))"
proof -
  let ?b = "bs ! idx bs d"
  have dist: "distinct (map (key \<circ> snd) (concat bs))"
    using rep by (simp add: tbl_rep_def)
  note sub = bucket_subset [OF rep, of d]
  have "find (\<lambda>x. match d x \<noteq> 0) (map snd ?b) = tbl_map key bs (key d)" (is "?f = _")
  proof (cases ?f)
    case None
    then have "\<forall>x\<in>snd ` set ?b. key x \<noteq> key d"
      by (auto simp: find_None_iff match_key)
    then have "tbl_map key bs (key d) = None"
      using in_bucket [OF rep, of _ d] tbl_map_None [OF dist, of "key d"] by blast
    with None show ?thesis by simp
  next
    case (Some x)
    then have "x \<in> snd ` set ?b" and "key d = key x"
      by (auto simp: find_Some_iff match_key)
    then show ?thesis
      using Some sub tbl_map_Some [OF dist, of "key d" x] by auto
  qed
  moreover have "chain_find match m d (l_head (ht_table t ! idx bs d)) =
      Some (find (\<lambda>x. match d x \<noteq> 0) (map snd ?b))"
    using bucket(3) [OF rep, of d] by (intro chain_find_lseg) (simp add: list_rep_def)
  ultimately show ?thesis
    using bucket(1) [OF rep, of d] rep by (simp add: tbl_find_def tbl_rep_def)
qed

lemma insert_present:
  assumes "tbl_rep kf h match key m t bs" and "tbl_map key bs (key d) = Some x"
  shows "tbl_insert kf m t d = Some (1, t, m)"
  using assms by (simp add: tbl_insert_def find_rep)

lemma insert_fail:
  assumes rep: "tbl_rep kf h match key m t bs" and "tbl_map key bs (key d) = None"
    and "fails m (nextblock m)"
  shows "tbl_insert kf m t d = Some (-1, t, m\<lparr>nextblock := Suc (nextblock m)\<rparr>)"
  using assms bucket [OF rep, of d] find_rep [OF rep, of d]
  by (simp add: tbl_insert_def list_ins_next_fail c_upd_def tbl_rep_def)

lemma insert_new:
  assumes rep: "tbl_rep kf h match key m t bs" and new: "tbl_map key bs (key d) = None"
    and ok: "\<not> fails m (nextblock m)" and room: "ht_size t < INT_MAX"
  shows "\<exists>t' m' bs'. tbl_insert kf m t d = Some (0, t', m') \<and> tbl_rep kf h match key m' t' bs' \<and>
     tbl_map key bs' = (tbl_map key bs)(key d \<mapsto> d)"
proof -
  let ?i = "idx bs d" and ?a = "nextblock m"
  let ?bs = "bs[?i := (?a, d) # bs ! ?i]"
  note B = bucket [OF rep, of d]
  have wf: "mem_wf m" and dist: "distinct (map fst (concat bs))" "distinct (map (key \<circ> snd) (concat bs))"
    and sz: "ht_size t = int (length (concat bs))"
    using rep by (auto simp: tbl_rep_def)
  have "int (length (bs ! ?i)) < INT_MAX"
    using length_nth_le_concat [OF B(2)] room sz by linarith
  from list_ins_next_head [OF B(3) wf ok this, of d] obtain l' m' where
    run: "list_ins_next m (ht_table t ! ?i) Null d = Some (0, l', m')" and
    res: "ins_result m (ht_table t ! ?i) (bs ! ?i) ((?a, d) # bs ! ?i) (l', m')"
    by blast
  let ?t = "t\<lparr>ht_table := (ht_table t)[?i := l'], ht_size := ht_size t + 1\<rparr>"
  have ms: "mset (concat ?bs) = mset ((?a, d) # concat bs)"
    using mset_concat_upd_Cons [OF B(2)] by simp
  have d1: "distinct (map fst (concat ?bs))"
    using dist distinct_map_mset_eq [OF ms, of fst] tbl_rep_fresh [OF rep]
    by (simp del: set_concat)
  have d2: "distinct (map (key \<circ> snd) (concat ?bs))"
    using dist new distinct_map_mset_eq [OF ms, of "key \<circ> snd"] tbl_map_None [OF dist(2), of "key d"]
    by (auto simp del: set_concat)
  have len: "length (concat ?bs) = Suc (length (concat bs))"
    using arg_cong [OF ms, of size] by simp
  have "tbl_rep kf h match key m' ?t ?bs"
  proof (rule tbl_rep_upd [OF rep B(2) _ _ _ _ refl _ d1 d2])
    show "list_rep m' l' ((?a, d) # bs ! ?i)" "mem_wf m'"
      "same_on (- insert ?a (fst ` set (bs ! ?i))) m m'" "l_destroy l' = l_destroy (ht_table t ! ?i)"
      using res by (simp_all add: ins_result_def)
    show "\<forall>n\<in>set ((?a, d) # bs ! ?i). h (kf (snd n)) mod int (length bs) = int ?i"
      using rep B(2) by (auto simp: tbl_rep_def idx_def)
  qed (use sz room len in simp_all)
  moreover have "tbl_insert kf m t d = Some (0, ?t, m')"
    using B new run rep sz room c_upd_nat [of ?i "ht_table t"]
    unfolding tbl_insert_def find_rep [OF rep] by (simp add: tbl_rep_def c_int_def INT_MIN_def)
  moreover have "tbl_map key ?bs = (tbl_map key bs)(key d \<mapsto> d)"
    using new tbl_map_Some [OF d2] tbl_map_Some [OF dist(2)] tbl_map_None [OF dist(2), of "key d"]
      mset_eq_setD [OF ms]
    by (intro map_eqI) (auto simp del: set_concat)
  ultimately show ?thesis by blast
qed

lemma remove_absent:
  assumes rep: "tbl_rep kf h match key m t bs" and "tbl_map key bs (key d) = None"
  shows "tbl_remove kf m t d = Some (-1, d, t, m)"
proof -
  let ?b = "bs ! idx bs d"
  have dist: "distinct (map (key \<circ> snd) (concat bs))"
    using rep by (simp add: tbl_rep_def)
  have "\<forall>x\<in>snd ` set ?b. key x \<noteq> key d"
    using assms(2) tbl_map_None [OF dist] bucket_subset [OF rep, of d] by blast
  then have "\<forall>n\<in>set ?b. match d (snd n) = 0"
    using match_key by (metis image_eqI)
  then have "chain_find_prev match m d Null (l_head (ht_table t ! idx bs d)) = Some None"
    using bucket(3) [OF rep, of d] by (intro chain_find_prev_none) (auto simp: list_rep_def)
  then show ?thesis
    using bucket(1) [OF rep, of d] rep by (simp add: tbl_remove_def tbl_rep_def)
qed

text \<open>The bucket of a stored item, split at the item.\<close>

lemma bucket_split:
  assumes rep: "tbl_rep kf h match key m t bs" and "tbl_map key bs (key d) = Some x"
  obtains xs a ys where "bs ! idx bs d = xs @ (a, x) # ys" and "match d x \<noteq> 0"
    and "\<forall>n\<in>set xs. match d (snd n) = 0"
proof -
  have dist: "distinct (map (key \<circ> snd) (concat bs))"
    using rep by (simp add: tbl_rep_def)
  have x: "x \<in> snd ` set (concat bs)" "key x = key d"
    using assms(2) tbl_map_Some [OF dist] by auto
  then obtain a where "(a, x) \<in> set (bs ! idx bs d)"
    using in_bucket [OF rep x] by auto
  then obtain xs ys where split: "bs ! idx bs d = xs @ (a, x) # ys"
    by (meson split_list)
  have "distinct (map (key \<circ> snd) (bs ! idx bs d))"
    using dist by (subst (asm) concat_nth_split [OF bucket(2) [OF rep, of d]]) simp
  then have "\<forall>n\<in>set xs. match d (snd n) = 0"
    using split x(2) match_key by force
  with split x(2) show ?thesis
    using that match_key by metis
qed

lemma remove_present:
  assumes rep: "tbl_rep kf h match key m t bs" and pres: "tbl_map key bs (key d) = Some x"
  shows "\<exists>t' m' bs'. tbl_remove kf m t d = Some (0, x, t', m') \<and> tbl_rep kf h match key m' t' bs' \<and>
     tbl_map key bs' = (tbl_map key bs)(key d := None)"
proof -
  let ?i = "idx bs d" let ?l = "ht_table t ! idx bs d"
  note B = bucket [OF rep, of d]
  obtain xs a ys where split: "bs ! ?i = xs @ (a, x) # ys" and hit: "match d x \<noteq> 0"
    and miss: "\<forall>n\<in>set xs. match d (snd n) = 0"
    using bucket_split [OF rep pres] .
  let ?bs = "bs[?i := xs @ ys]"
  have wf: "mem_wf m" and dist: "distinct (map fst (concat bs))" "distinct (map (key \<circ> snd) (concat bs))"
    and sz: "ht_size t = int (length (concat bs))" "int (length (concat bs)) \<le> INT_MAX"
    using rep by (auto simp: tbl_rep_def)
  have "int (length (xs @ (a, x) # ys)) \<le> INT_MAX"
    using length_nth_le_concat [OF B(2)] sz split by simp
  from list_rem_next_rep [OF B(3) [unfolded split] wf this] obtain l' m' where
    run: "list_rem_next m ?l (last_ptr xs) = Some (0, Some x, l', m')" and
    res: "rem_result m ?l (xs @ (a, x) # ys) (xs @ ys) a (l', m')"
    by blast
  let ?t = "t\<lparr>ht_table := (ht_table t)[?i := l'], ht_size := ht_size t - 1\<rparr>"
  have ms: "mset (concat bs) = mset ((a, x) # concat ?bs)"
    using mset_concat_upd_del [OF B(2) split] by simp
  have d1: "distinct (map fst (concat ?bs))"
    using dist distinct_map_mset_eq [OF ms, of fst] by (simp del: set_concat)
  have d2: "distinct (map (key \<circ> snd) (concat ?bs))"
    and out: "\<forall>y\<in>snd ` set (concat ?bs). key y \<noteq> key x"
    using dist distinct_map_mset_eq [OF ms, of "key \<circ> snd"] by (force simp del: set_concat)+
  have len: "length (concat bs) = Suc (length (concat ?bs))"
    using arg_cong [OF ms, of size] by simp
  have "tbl_rep kf h match key m' ?t ?bs"
  proof (rule tbl_rep_upd [OF rep B(2) _ _ _ _ refl _ d1 d2])
    show "list_rep m' l' (xs @ ys)" "mem_wf m'" "l_destroy l' = l_destroy ?l"
      "same_on (- insert (nextblock m) (fst ` set (bs ! ?i))) m m'"
      using res split by (auto simp: rem_result_def same_on_def)
    show "\<forall>n\<in>set (xs @ ys). h (kf (snd n)) mod int (length bs) = int ?i"
      using tbl_rep_bucketD(2) [OF rep B(2)] split by auto
  qed (use sz len in simp_all)
  moreover have "chain_find_prev match m d Null (l_head ?l) = Some (Some (last_ptr xs))"
    using chain_find_prev_some [of m "l_head ?l" xs "(a, x)" ys match d Null] B(3) split hit miss
    by (simp add: list_rep_def last_ptr_def split: if_splits)
  then have "tbl_remove kf m t d = Some (0, x, ?t, m')"
    using B(1,2) run rep sz c_upd_nat [of ?i "ht_table t"]
    by (simp add: tbl_remove_def tbl_rep_def c_int_def INT_MIN_def)
  moreover have "tbl_map key ?bs = (tbl_map key bs)(key d := None)"
    using tbl_map_remove [OF dist(2) d2 _ out] mset_eq_setD [OF ms] hit match_key [of d x] by simp
  ultimately show ?thesis by blast
qed

end

section \<open>Initialisation and destruction\<close>

lemma chtbl_init_rep:
  assumes "0 < buckets" and "mem_wf m"
  shows "\<exists>t'. chtbl_init (Some arr) t buckets h match destroy = (0, t') \<and>
     tbl_rep kf h match key m t' (replicate (nat buckets) []) \<and> ht_destroy t' = destroy"
  using assms
  by (auto simp: chtbl_init_def tbl_rep_def list_rep_Nil list_init_def INT_MAX_def)

lemma tbl_map_init [simp]: "tbl_map key (replicate n []) = Map.empty"
  by (simp add: tbl_map_def)

lemma chtbl_init_kv_eq: "chtbl_init_kv = chtbl_init"
  by (intro ext) (simp add: chtbl_init_def chtbl_init_kv_def)

lemma destroy_buckets_rep:
  assumes "list_all2 (list_rep m) ls bs" and "mem_wf m" and "distinct (map fst (concat bs))"
    and "int (length (concat bs)) \<le> INT_MAX" and "\<forall>l\<in>set ls. l_destroy l = f"
  shows "\<exists>m'. destroy_buckets m ls calls =
       Some (m', calls @ (case f of Null \<Rightarrow> [] | Ptr g \<Rightarrow> map (\<lambda>n. (g, snd n)) (concat bs))) \<and>
     (\<forall>a\<in>fst ` set (concat bs). cells m' a = None) \<and> same_on (- fst ` set (concat bs)) m m'"
  using assms
proof (induction ls arbitrary: bs m calls)
  case Nil
  then show ?case by (auto simp: same_on_def split: ptr.split)
next
  case (Cons l ls bs0)
  then obtain b bs where bs: "bs0 = b # bs" and rep: "list_rep m l b" "list_all2 (list_rep m) ls bs"
    by (auto simp: list_all2_Cons1)
  note prems = Cons.prems [unfolded bs]
  have disj: "fst ` set b \<inter> fst ` set (concat bs) = {}"
    using prems(3) by (simp del: set_concat)
  have "int (length b) \<le> INT_MAX"
    using prems(4) by simp
  from list_destroy_rep [OF rep(1) prems(2) this] obtain m1 where
    m1: "list_destroy m l = Some (list_zero, m1, destroy_calls l b)" "mem_wf m1"
      "\<forall>a\<in>fst ` set b. cells m1 a = None" "same_on (- fst ` set b) m m1"
    by blast
  have "list_all2 (list_rep m1) ls bs"
    using rep(2)
  proof (rule list.rel_mono_strong)
    fix l b' assume b': "l \<in> set ls" "b' \<in> set bs" "list_rep m l b'"
    have "set b' \<subseteq> set (concat bs)"
      using b'(2) by auto
    then have "fst ` set b' \<subseteq> - fst ` set b"
      using disj by blast
    then show "list_rep m1 l b'"
      using m1(4) by (intro list_rep_frame [OF b'(3)]) (auto simp: same_on_def)
  qed
  with Cons.IH [of m1 bs "calls @ destroy_calls l b"] prems m1(2) obtain m2 where
    m2: "destroy_buckets m1 ls (calls @ destroy_calls l b) =
       Some (m2, (calls @ destroy_calls l b) @
             (case f of Null \<Rightarrow> [] | Ptr g \<Rightarrow> map (\<lambda>n. (g, snd n)) (concat bs)))"
      "\<forall>a\<in>fst ` set (concat bs). cells m2 a = None" "same_on (- fst ` set (concat bs)) m1 m2"
    by auto
  have "cells m2 a = None" if "a \<in> fst ` set b" for a
    using that m1(3) m2(3) disj unfolding same_on_def by (metis ComplI disjoint_iff)
  moreover have "same_on (- fst ` set (concat (b # bs))) m m2"
    using m1(4) m2(3) by (simp add: same_on_def image_Un del: set_concat)
  ultimately show ?case
    unfolding bs using m1(1) m2(1,2) prems(5) by (auto simp: destroy_calls_def split: ptr.splits)
qed

lemma chtbl_destroy_rep:
  assumes "tbl_rep kf h match key m t bs"
  shows "\<exists>m'. chtbl_destroy m t =
       Some (chtbl_zero, m', case ht_destroy t of Null \<Rightarrow> []
                             | Ptr g \<Rightarrow> map (\<lambda>n. (g, snd n)) (concat bs)) \<and>
     (\<forall>a\<in>fst ` set (concat bs). cells m' a = None) \<and> same_on (- fst ` set (concat bs)) m m'"
proof -
  have "list_all2 (list_rep m) (ht_table t) bs"
    using assms by (simp add: tbl_rep_def list_all2_conv_all_nth)
  then show ?thesis
    using destroy_buckets_rep [of m "ht_table t" bs "ht_destroy t" "[]"] assms
    by (auto simp: chtbl_destroy_def tbl_rep_def simp del: set_concat)
qed

section \<open>Properties\<close>

text \<open>
  C20: \<^verbatim>\<open>chtbl_insert\<close> implements the update of a finite map. A key that is present gives 1 and
  changes nothing; a new key is stored and gives 0; when the allocator fails the result is -1 and
  the contents stay the same.
\<close>

theorem chtbl_insert_refines_update:
  assumes cb: "hash_callbacks id h match key" and rep: "tbl_rep id h match key m t bs"
    and room: "ht_size t < INT_MAX"
  shows "\<exists>ret t' m' bs'. chtbl_insert m t d = Some (ret, t', m') \<and> tbl_rep id h match key m' t' bs' \<and>
     (if key d \<in> dom (tbl_map key bs) then ret = 1 \<and> t' = t \<and> m' = m \<and> bs' = bs
      else if fails m (nextblock m) then ret = -1 \<and> t' = t \<and> bs' = bs
      else ret = 0 \<and> tbl_map key bs' = (tbl_map key bs)(key d \<mapsto> d))"
proof (cases "tbl_map key bs (key d)")
  case (Some x)
  then show ?thesis
    using rep hash_callbacks.insert_present [OF cb rep Some] by (auto simp: insert_tbl)
next
  case None
  show ?thesis
  proof (cases "fails m (nextblock m)")
    case True
    have "tbl_rep id h match key (m\<lparr>nextblock := Suc (nextblock m)\<rparr>) t bs"
      using rep by (auto simp: tbl_rep_def mem_wf_def list_rep_def)
    then show ?thesis
      using None True hash_callbacks.insert_fail [OF cb rep None True]
      by (auto simp: insert_tbl domIff simp del: set_concat)
  next
    case False
    then show ?thesis
      using None hash_callbacks.insert_new [OF cb rep None False room]
      by (auto simp: insert_tbl domIff simp del: set_concat)
  qed
qed

text \<open>
  C22: \<^verbatim>\<open>chtbl_lookup\<close> returns the stored item of the key (0), or -1 and its argument;
  \<^verbatim>\<open>chtbl_remove\<close> hands back the stored item and deletes its key, or returns -1 and
  changes nothing.
\<close>

theorem chtbl_lookup_remove_refine_map:
  assumes cb: "hash_callbacks id h match key" and rep: "tbl_rep id h match key m t bs"
  shows "chtbl_lookup m t d =
       Some (case tbl_map key bs (key d) of Some x \<Rightarrow> (0, x) | None \<Rightarrow> (-1, d)) \<and>
    (case tbl_map key bs (key d) of
       None \<Rightarrow> chtbl_remove m t d = Some (-1, d, t, m)
     | Some x \<Rightarrow> \<exists>t' m' bs'. chtbl_remove m t d = Some (0, x, t', m') \<and>
         tbl_rep id h match key m' t' bs' \<and> tbl_map key bs' = (tbl_map key bs)(key d := None))"
  using hash_callbacks.find_rep [OF cb rep, of d] hash_callbacks.remove_absent [OF cb rep, of d]
    hash_callbacks.remove_present [OF cb rep, of d]
  by (auto simp: lookup_tbl remove_tbl found_def split: option.splits)

text \<open>
  \<^verbatim>\<open>chtbl_destroy\<close> frees exactly the elements of the table and calls the destructor
  once on each stored item.
\<close>

theorem chtbl_destroy_frees_all:
  assumes "tbl_rep kf h match key m t bs"
  shows "\<exists>m'. chtbl_destroy m t =
       Some (chtbl_zero, m', case ht_destroy t of Null \<Rightarrow> []
                             | Ptr g \<Rightarrow> map (\<lambda>n. (g, snd n)) (concat bs)) \<and>
     (\<forall>a\<in>fst ` set (concat bs). cells m' a = None) \<and> same_on (- fst ` set (concat bs)) m m'"
  using chtbl_destroy_rep [OF assms] .

text \<open>A table of three buckets that holds two numbers, for the witnesses.\<close>

definition ex_h :: "nat \<Rightarrow> int" where "ex_h n = int (n mod 11)"

definition ex_match :: "nat \<Rightarrow> nat \<Rightarrow> int" where "ex_match a b = (if a = b then 1 else 0)"

definition ex_tbl :: "(nat, nat) CHTbl" where
  "ex_tbl = \<lparr>ht_buckets = 2, ht_h = Some ex_h, ht_match = Some ex_match, ht_destroy = Ptr 99,
     ht_size = 2, ht_table =
       [\<lparr>l_size = 1, l_match = Null, l_destroy = Ptr 99, l_head = Ptr 1, l_tail = Ptr 1\<rparr>,
        \<lparr>l_size = 1, l_match = Null, l_destroy = Ptr 99, l_head = Ptr 0, l_tail = Ptr 0\<rparr>]\<rparr>"

definition ex_tmem :: "nat lmem" where
  "ex_tmem = \<lparr>cells = [0 \<mapsto> \<lparr>e_data = 5, e_next = Null\<rparr>, 1 \<mapsto> \<lparr>e_data = 6, e_next = Null\<rparr>],
     nextblock = 2, fails = (\<lambda>_. False)\<rparr>"

lemma ex_callbacks: "hash_callbacks id ex_h ex_match id"
  by unfold_locales (auto simp: ex_h_def ex_match_def)

lemma ex_tbl_rep: "tbl_rep id ex_h ex_match id ex_tmem ex_tbl [[(1, 6)], [(0, 5)]]"
  by (simp add: tbl_rep_def ex_tbl_def ex_tmem_def ex_h_def mem_wf_def INT_MAX_def list_rep_def
      less_Suc_eq all_conj_distrib last_ptr_def numeral_2_eq_2)

theorem chtbl_insert_refines_update_witness:
  "\<exists>t' m' bs'. chtbl_insert ex_tmem ex_tbl 7 = Some (0, t', m') \<and>
     tbl_map id bs' = (tbl_map id [[(1, 6)], [(0, 5 :: nat)]])(7 \<mapsto> 7)"
  using chtbl_insert_refines_update [OF ex_callbacks ex_tbl_rep, of 7]
  by (fastforce simp: ex_tmem_def ex_tbl_def INT_MAX_def tbl_map_def)

theorem chtbl_lookup_remove_refine_map_witness:
  "chtbl_lookup ex_tmem ex_tbl 5 = Some (0, 5) \<and> chtbl_lookup ex_tmem ex_tbl 8 = Some (-1, 8) \<and>
   (\<exists>t' m'. chtbl_remove ex_tmem ex_tbl 5 = Some (0, 5, t', m'))"
  using chtbl_lookup_remove_refine_map [OF ex_callbacks ex_tbl_rep, of 5]
    chtbl_lookup_remove_refine_map [OF ex_callbacks ex_tbl_rep, of 8]
  by (auto simp: tbl_map_def)

theorem chtbl_destroy_frees_all_witness:
  "\<exists>m'. chtbl_destroy ex_tmem ex_tbl = Some (chtbl_zero, m', [(99, 6), (99, 5)]) \<and>
     cells m' 0 = None \<and> cells m' 1 = None"
  using chtbl_destroy_frees_all [OF ex_tbl_rep] by (auto simp: ex_tbl_def)

end
