(* ===== verification/C_Strings.thy ===== *)
theory C_Strings
  imports Prelude "HOL-Library.Word"
begin

text \<open>
  C strings and the parts of \<^verbatim>\<open>string.h\<close>, \<^verbatim>\<open>ctype.h\<close> and \<^verbatim>\<open>stdio.h\<close> that the sources
  call. A character array is a list of cells, \<^const>\<open>None\<close> being a cell that was never
  written; reading such a cell, or a cell past the end, is undefined. A HOL string stands for the
  characters a \<^verbatim>\<open>char *\<close> points to, up to the first NUL or to the end of the list.
\<close>

section \<open>Characters and strings\<close>

definition NUL :: char where "NUL = CHR 0x00"
definition NL :: char where "NL = CHR 0x0A"
definition TAB :: char where "TAB = CHR 0x09"

text \<open>\<^verbatim>\<open>char\<close> is signed, as on the x86 ABI.\<close>

definition char_int :: "char \<Rightarrow> int" where
  "char_int c = sint (of_char c :: 8 word)"

text \<open>\<^verbatim>\<open>isspace\<close> and \<^verbatim>\<open>tolower\<close> in the C locale.\<close>

definition isspace :: "char \<Rightarrow> bool" where
  "isspace c \<longleftrightarrow> c \<in> {CHR '' '', TAB, NL, CHR 0x0B, CHR 0x0C, CHR 0x0D}"

definition c_tolower :: "char \<Rightarrow> char" where
  "c_tolower c = (if 65 \<le> (of_char c :: nat) \<and> (of_char c :: nat) \<le> 90
                  then char_of (of_char c + 32 :: nat) else c)"

abbreviation c_prefix :: "string \<Rightarrow> string" where
  "c_prefix \<equiv> takeWhile (\<lambda>c. c \<noteq> NUL)"

text \<open>\<^verbatim>\<open>strcmp\<close> compares the characters as \<^verbatim>\<open>unsigned char\<close>.\<close>

fun strcmp :: "string \<Rightarrow> string \<Rightarrow> int" where
  "strcmp [] [] = 0"
| "strcmp [] (d # ds) = - of_char d"
| "strcmp (c # cs) [] = of_char c"
| "strcmp (c # cs) (d # ds) =
     (if c \<noteq> d then of_char c - of_char d else if c = NUL then 0 else strcmp cs ds)"

lemma of_char_eq_0 [simp]: "(of_char c :: int) = 0 \<longleftrightarrow> c = NUL"
proof -
  have "of_char c = (of_char NUL :: int) \<longleftrightarrow> c = NUL"
    by (rule of_char_eq_iff)
  then show ?thesis by (simp add: NUL_def)
qed

lemma of_char_diff [simp]: "(of_char c :: int) - of_char d = 0 \<longleftrightarrow> c = d"
  by simp

lemma strcmp_eq_0: "strcmp a b = 0 \<longleftrightarrow> c_prefix a = c_prefix b"
  by (induction a b rule: strcmp.induct) auto

text \<open>The conversion \<^verbatim>\<open>%d\<close> of \<^verbatim>\<open>printf\<close>.\<close>

fun show_nat :: "nat \<Rightarrow> string" where
  "show_nat n = (if n < 10 then [char_of (48 + n)] else show_nat (n div 10) @ [char_of (48 + n mod 10)])"

declare show_nat.simps [simp del]

definition show_int :: "int \<Rightarrow> string" where
  "show_int i = (if i < 0 then CHR ''-'' # show_nat (nat (- i)) else show_nat (nat i))"

section \<open>Character arrays\<close>

type_synonym cbuf = "char option list"

definition uninit :: "nat \<Rightarrow> cbuf" where
  "uninit n = replicate n None"

lemma length_uninit [simp]: "length (uninit n) = n"
  by (simp add: uninit_def)

text \<open>The string at the start of an array.\<close>

fun cstr :: "cbuf \<Rightarrow> string option" where
  "cstr [] = None"
| "cstr (None # b) = None"
| "cstr (Some c # b) = (if c = NUL then Some [] else map_option ((#) c) (cstr b))"

text \<open>\<^verbatim>\<open>strcpy\<close> and \<^verbatim>\<open>sprintf(b, "%s", s)\<close>; \<^verbatim>\<open>memset(b, 0, n)\<close>.\<close>

definition put_str :: "cbuf \<Rightarrow> string \<Rightarrow> cbuf option" where
  "put_str b s = (if length s < length b
     then Some (map Some s @ Some NUL # drop (Suc (length s)) b) else None)"

definition memset0 :: "cbuf \<Rightarrow> nat \<Rightarrow> cbuf option" where
  "memset0 b n = (if n \<le> length b then Some (replicate n (Some NUL) @ drop n b) else None)"

lemma cstr_append [simp]:
  "NUL \<notin> set s \<Longrightarrow> cstr (map Some s @ Some NUL # b) = Some s"
  by (induction s) auto

lemma cstr_NUL: "cstr b = Some s \<Longrightarrow> NUL \<notin> set s"
  by (induction b arbitrary: s rule: cstr.induct) (auto split: if_splits)

lemma cstr_set: "cstr b = Some s \<Longrightarrow> c \<in> set s \<Longrightarrow> Some c \<in> set b"
  by (induction b arbitrary: s rule: cstr.induct) (auto split: if_splits)

lemma cstr_length: "cstr b = Some s \<Longrightarrow> length s < length b"
  by (induction b arbitrary: s rule: cstr.induct) (auto split: if_splits)

lemma put_str_length: "put_str b s = Some b' \<Longrightarrow> length b' = length b"
  by (auto simp: put_str_def split: if_splits)

lemma put_str_set: "put_str b s = Some b' \<Longrightarrow> set b' \<subseteq> Some ` set s \<union> {Some NUL} \<union> set b"
  by (auto simp: put_str_def split: if_splits dest: in_set_dropD)

lemma cstr_put_str: "put_str b s = Some b' \<Longrightarrow> NUL \<notin> set s \<Longrightarrow> cstr b' = Some s"
  by (auto simp: put_str_def split: if_splits)

section \<open>Reading a text file\<close>

text \<open>An open stream: the characters not yet read, and the end-of-file indicator.\<close>

record FILE =
  f_rest :: string
  f_eof :: bool

fun fgets_loop :: "nat \<Rightarrow> string \<Rightarrow> string \<times> string \<times> bool" where
  "fgets_loop 0 s = ([], s, False)"
| "fgets_loop (Suc k) [] = ([], [], True)"
| "fgets_loop (Suc k) (c # s) =
     (if c = NL then ([c], s, False)
      else (let (l, r, e) = fgets_loop k s in (c # l, r, e)))"

text \<open>
  \<^verbatim>\<open>fgets(b, n, fp)\<close>: at most \<open>n - 1\<close> characters, up to a newline. Nothing is stored when
  the stream is at its end. The callers ignore the returned pointer.
\<close>

definition fgets :: "cbuf \<Rightarrow> nat \<Rightarrow> FILE \<Rightarrow> (cbuf \<times> FILE) option" where
  "fgets b n f = (case fgets_loop (n - 1) (f_rest f) of (l, r, e) \<Rightarrow> do {
     b1 \<leftarrow> (if l = [] then Some b else put_str b l);
     Some (b1, f\<lparr>f_rest := r, f_eof := f_eof f \<or> e\<rparr>)
   })"

lemma fgets_loop_no_newline:
  "fgets_loop k s = (l, r, True) \<Longrightarrow> NL \<notin> set l"
  by (induction k s arbitrary: l r rule: fgets_loop.induct) (auto split: if_splits prod.splits)

lemma fgets_loop_line:
  "NL \<notin> set l \<Longrightarrow> length l < k \<Longrightarrow> fgets_loop k (l @ NL # s) = (l @ [NL], s, False)"
  by (induction l arbitrary: k) (auto simp: gr0_conv_Suc less_Suc_eq_0_disj Suc_less_eq2)

lemma fgets_line:
  assumes "f_rest f = l @ NL # s" and "NL \<notin> set l" and "length l < n - 1" and "n \<le> length b"
  shows "\<exists>b'. fgets b n f = Some (b', f\<lparr>f_rest := s\<rparr>) \<and> put_str b (l @ [NL]) = Some b'"
  using assms by (auto simp: fgets_def fgets_loop_line put_str_def)

end
