(* ===== verification/Bns_Hash.thy ===== *)
theory Bns_Hash
  imports Chained_Hash C_Strings
begin

text \<open>
  The string tables of \<^verbatim>\<open>lib/app/bns/bns_hash.c\<close>: the hash function \<^verbatim>\<open>hashpjw\<close>, the key
  comparison, the two loaders that fill a table from a tab-separated text file, and the field
  splitter \<^verbatim>\<open>my_csv\<close> (defined in each of the programs of \<^verbatim>\<open>lib/app/bns\<close>) that they call.
\<close>

unbundle bit_operations_syntax

section \<open>Hash function and comparison\<close>

text \<open>One turn of the loop of \<^verbatim>\<open>hashpjw\<close> on the \<^verbatim>\<open>unsigned int\<close> \<open>val\<close>, then the loop.\<close>

definition hashpjw_step :: "32 word \<Rightarrow> char \<Rightarrow> 32 word" where
  "hashpjw_step val c =
     (let val = push_bit 4 val + of_int (char_int c);
          tmp = val AND 0xf0000000
      in if tmp \<noteq> 0 then (val XOR drop_bit 24 tmp) XOR tmp else val)"

fun hashpjw_loop :: "32 word \<Rightarrow> string \<Rightarrow> 32 word" where
  "hashpjw_loop val [] = val"
| "hashpjw_loop val (c # cs) = (if c = NUL then val else hashpjw_loop (hashpjw_step val c) cs)"

definition PRIME_TBLSIZ :: int where "PRIME_TBLSIZ = 1024"

definition hashpjw :: "string \<Rightarrow> int" where
  "hashpjw key = uint (hashpjw_loop 0 key mod of_int PRIME_TBLSIZ)"

definition match_sweet_list_kv :: "SweetListKv \<Rightarrow> SweetListKv \<Rightarrow> int" where
  "match_sweet_list_kv data1 data2 = (if strcmp (kv_key data1) (kv_key data2) = 0 then 1 else 0)"

section \<open>Splitting a line into fields\<close>

text \<open>
  The first loop of \<^verbatim>\<open>my_csv\<close>: copy into \<open>s2\<close> from index \<open>p\<close> on. The pointer \<open>s1\<close> is the
  part of its array from \<open>s1\<close> to the end, so a scan that passes the NUL goes on with what
  the array holds behind it.
\<close>

fun my_csv_scan :: "cbuf \<Rightarrow> cbuf \<Rightarrow> nat \<Rightarrow> (cbuf \<times> cbuf) option" where
  "my_csv_scan [] s2 p = None"
| "my_csv_scan (None # s1) s2 p = None"
| "my_csv_scan (Some c # s1) s2 p =
     (if c \<noteq> NL \<and> (c = CHR '' '' \<or> \<not> isspace c)
      then (if p < length s2 then my_csv_scan s1 (s2[p := Some c]) (Suc p) else None)
      else Some (Some c # s1, s2))"

definition my_csv :: "cbuf \<Rightarrow> cbuf \<Rightarrow> (cbuf \<times> cbuf) option" where
  "my_csv s1 s2 = do {
     (s, t) \<leftarrow> my_csv_scan s1 s2 0;
     Some (case s of Some c # s' \<Rightarrow> if c \<noteq> NL \<and> isspace c then (s', t) else (s, t) | _ \<Rightarrow> (s, t))
   }"

section \<open>The loaders\<close>

type_synonym bmem = "cbuf mem"

text \<open>
  \<^verbatim>\<open>p = malloc(strlen(tmp)+1); strcpy(p, tmp);\<close> The result is the string that \<open>p\<close>
  points to.
\<close>

definition dup_field :: "bmem \<Rightarrow> cbuf \<Rightarrow> (string \<times> bmem) option" where
  "dup_field bm tmp = do {
     s \<leftarrow> cstr tmp;
     let (p, bm1) = malloc (replicate (length s + 1) None) bm;
     b \<leftarrow> load bm1 p;
     b1 \<leftarrow> put_str b s;
     bm2 \<leftarrow> store bm1 p b1;
     Some (s, bm2)
   }"

definition buf_head :: "cbuf \<Rightarrow> char option" where
  "buf_head b = (case b of [] \<Rightarrow> None | x # _ \<Rightarrow> x)"

text \<open>
  \<^verbatim>\<open>memset(tmp, 0, sz); sprintf(ss2, "%s", my_csv(ss2, tmp));\<close> The overlapping copy
  moves the rest of the line to the front of \<open>ss2\<close>, as the C library does.
\<close>

definition next_field :: "nat \<Rightarrow> cbuf \<Rightarrow> cbuf \<Rightarrow> (cbuf \<times> cbuf) option" where
  "next_field sz b tmp = do {
     tmp1 \<leftarrow> memset0 tmp sz;
     (rest, tmp2) \<leftarrow> my_csv b tmp1;
     s \<leftarrow> cstr rest;
     b1 \<leftarrow> put_str b s;
     Some (b1, tmp2)
   }"

text \<open>
  The inner loop of both loaders: column 0 is the key, column \<open>col\<close> the value.
\<close>

partial_function (option) kv_fields ::
  "int \<Rightarrow> ptr \<Rightarrow> bmem \<Rightarrow> cbuf \<Rightarrow> int \<Rightarrow> string option \<Rightarrow> string option
   \<Rightarrow> (string option \<times> string option \<times> bmem \<times> cbuf) option" where
  "kv_fields col ss2 bm tmp n key val =
     Option.bind (load bm ss2) (\<lambda>b.
     Option.bind (buf_head b) (\<lambda>c.
     if c = NL then Some (key, val, bm, tmp)
     else
       Option.bind (next_field 1025 b tmp) (\<lambda>(b1, tmp1).
       Option.bind (store bm ss2 b1) (\<lambda>bm1.
       Option.bind (if n = 0 then map_option (map_prod Some id) (dup_field bm1 tmp1)
                    else Some (key, bm1)) (\<lambda>(key1, bm2).
       Option.bind (if n = col then map_option (map_prod Some id) (dup_field bm2 tmp1)
                    else Some (val, bm2)) (\<lambda>(val1, bm3).
       Option.bind (c_int (n + 1)) (\<lambda>n1.
       kv_fields col ss2 bm3 tmp1 n1 key1 val1)))))))"

text \<open>
  The body of the outer loop, for line buffers of \<open>sz + 1\<close> characters. The first component of
  the result is \<^term>\<open>Some r\<close> when the body returns \<open>r\<close> from the function.
\<close>

type_synonym loader = "bmem \<times> SweetListKv lmem \<times> kvtbl \<times> FILE \<times> cbuf"

definition load_line :: "nat \<Rightarrow> int \<Rightarrow> loader \<Rightarrow> (int option \<times> loader) option" where
  "load_line sz col = (\<lambda>(bm, m, t, f, tmp). do {
     line0 \<leftarrow> memset0 (replicate (sz + 1) None) (sz + 1);
     (line, f1) \<leftarrow> fgets line0 sz f;
     let (ss2, bm1) = malloc (replicate (sz + 1) None) bm;
     s \<leftarrow> cstr line;
     b \<leftarrow> load bm1 ss2;
     b1 \<leftarrow> put_str b s;
     bm2 \<leftarrow> store bm1 ss2 b1;
     let (p, bm3) = malloc [] bm2;
     if p = Null then Some (Some 1, (bm3, m, t, f1, tmp))
     else do {
       (key, val, bm4, tmp1) \<leftarrow> kv_fields col ss2 bm3 tmp 0 None None;
       k \<leftarrow> key;
       (r, t1, m1) \<leftarrow> chtbl_insert_kv m t \<lparr>kv_key = k, kv_value = val\<rparr>;
       if r \<noteq> 0 then Some (Some 1, (bm4, m1, t1, f1, tmp1))
       else do {
         bm5 \<leftarrow> mem_free bm4 ss2;
         Some (None, (bm5, m1, t1, f1, tmp1))
       }
     }
   })"

partial_function (option) load_loop ::
  "nat \<Rightarrow> int \<Rightarrow> loader \<Rightarrow> int \<Rightarrow> (int \<times> loader) option" where
  "load_loop sz col st line_num =
     (if f_eof (fst (snd (snd (snd st)))) then Some (0, st)
      else Option.bind (load_line sz col st) (\<lambda>(r, st1).
        case r of Some v \<Rightarrow> Some (v, st1)
        | None \<Rightarrow> Option.bind (c_int (line_num + 1)) (load_loop sz col st1)))"

text \<open>
  \<open>fopen\<close> is the opened file, or \<^const>\<open>None\<close> when \<^verbatim>\<open>fopen\<close> fails; \<open>alloc\<close> is the outcome
  of the allocation of the bucket array. \<open>FREE\<close> is the address of \<^verbatim>\<open>free\<close>.
\<close>

definition FREE :: ptr where "FREE = Ptr 0"

definition create_icon_hash ::
  "FILE option \<Rightarrow> (nat \<Rightarrow> List) option \<Rightarrow> bmem \<Rightarrow> SweetListKv lmem \<Rightarrow> kvtbl
   \<Rightarrow> (int \<times> kvtbl \<times> SweetListKv lmem \<times> bmem) option" where
  "create_icon_hash fopen alloc bm m htbl =
     (case fopen of
        None \<Rightarrow> Some (1, htbl, m, bm)
      | Some f \<Rightarrow>
          let (r, t) = chtbl_init_kv alloc htbl PRIME_TBLSIZ hashpjw match_sweet_list_kv FREE in
          if r \<noteq> 0 then Some (2, t, m, bm)
          else do {
            (v, bm1, m1, t1, _) \<leftarrow> load_loop 1024 2 (bm, m, t, f, uninit 1025) 1;
            Some (v, t1, m1, bm1)
          })"

definition create_setitem_hash ::
  "FILE option \<Rightarrow> (nat \<Rightarrow> List) option \<Rightarrow> bmem \<Rightarrow> SweetListKv lmem \<Rightarrow> kvtbl \<Rightarrow> int
   \<Rightarrow> (int \<times> kvtbl \<times> SweetListKv lmem \<times> bmem) option" where
  "create_setitem_hash fopen alloc bm m htbl effect =
     (case fopen of
        None \<Rightarrow> Some (1, htbl, m, bm)
      | Some f \<Rightarrow>
          let (r, t) = chtbl_init_kv alloc htbl PRIME_TBLSIZ hashpjw match_sweet_list_kv FREE in
          if r \<noteq> 0 then Some (2, t, m, bm)
          else do {
            (v, bm1, m1, t1, _) \<leftarrow> load_loop 8192 effect (bm, m, t, f, uninit 8193) 1;
            Some (v, t1, m1, bm1)
          })"

definition remove_icon_hash ::
  "SweetListKv lmem \<Rightarrow> kvtbl \<Rightarrow> (kvtbl \<times> SweetListKv lmem \<times> SweetListKv call list) option" where
  "remove_icon_hash m htbl = chtbl_destroy m htbl"

definition remove_setitem_hash ::
  "SweetListKv lmem \<Rightarrow> kvtbl \<Rightarrow> (kvtbl \<times> SweetListKv lmem \<times> SweetListKv call list) option" where
  "remove_setitem_hash m htbl = chtbl_destroy m htbl"

text \<open>
  \<^verbatim>\<open>print_table\<close>: what it writes to the standard output. It visits
  \<^verbatim>\<open>PRIME_TBLSIZ\<close> buckets whatever the size of the table. Printing a value pointer that was
  never assigned is undefined.
\<close>

partial_function (option) print_chain :: "SweetListKv lmem \<Rightarrow> ptr \<Rightarrow> string option" where
  "print_chain m element =
     (if element = Null then Some []
      else Option.bind (load m element) (\<lambda>e.
        Option.bind (kv_value (e_data e)) (\<lambda>v.
        Option.bind (print_chain m (e_next e)) (\<lambda>rest.
        Some (''['' @ kv_key (e_data e) @ '','' @ v @ ''] -> '' @ rest)))))"

definition print_bucket :: "SweetListKv lmem \<Rightarrow> kvtbl \<Rightarrow> nat \<Rightarrow> string option" where
  "print_bucket m htbl i = do {
     l \<leftarrow> c_nth (ht_table htbl) (int i);
     chain \<leftarrow> print_chain m (l_head l);
     let num = show_nat i;
     Some (''Bucket['' @ replicate (3 - length num) (CHR ''0'') @ num @ '']='' @ chain @ [NL])
   }"

definition print_table :: "SweetListKv lmem \<Rightarrow> kvtbl \<Rightarrow> string option" where
  "print_table m htbl = do {
     lines \<leftarrow> those (map (print_bucket m htbl) [0..<nat PRIME_TBLSIZ]);
     Some (''Table size is '' @ show_int (ht_size htbl) @ [NL] @ concat lines)
   }"

section \<open>The hash function\<close>

lemma top_nibble: "(0xf0000000 :: 32 word) = push_bit 28 (mask 4)"
  by (simp add: mask_numeral)

lemma top_nibble_cleared:
  "((v XOR drop_bit 24 (v AND 0xf0000000)) XOR (v AND 0xf0000000)) AND 0xf0000000 = (0 :: 32 word)"
  unfolding top_nibble by (rule bit_word_eqI) (auto simp: bit_simps)

lemma top_nibble_bound:
  assumes "(v :: 32 word) AND 0xf0000000 = 0"
  shows "uint v < 2 ^ 28"
proof -
  have "take_bit 28 v = v"
  proof (rule bit_word_eqI)
    fix n assume "n < LENGTH(32)"
    moreover have "\<not> bit (v AND push_bit 28 (mask 4)) n"
      using assms unfolding top_nibble by simp
    ultimately show "bit (take_bit 28 v) n = bit v n"
      by (auto simp: bit_simps not_less)
  qed
  then have "uint v = take_bit 28 (uint v)"
    by (metis unsigned_take_bit_eq)
  then show ?thesis
    by (metis take_bit_int_less_exp)
qed

lemma hashpjw_step_bound: "uint (hashpjw_step v c) < 2 ^ 28"
proof (rule top_nibble_bound)
  let ?v = "push_bit 4 v + word_of_int (char_int c)"
  show "hashpjw_step v c AND 0xf0000000 = 0"
    using top_nibble_cleared [of ?v]
    by (cases "?v AND 0xf0000000 = 0") (simp_all only: hashpjw_step_def Let_def if_True if_False simp_thms)
qed

lemma hashpjw_loop_bound: "uint v < 2 ^ 28 \<Longrightarrow> uint (hashpjw_loop v s) < 2 ^ 28"
  by (induction v s rule: hashpjw_loop.induct) (simp_all add: hashpjw_step_bound [simplified])

lemma hashpjw_loop_prefix: "hashpjw_loop v (c_prefix s) = hashpjw_loop v s"
  by (induction v s rule: hashpjw_loop.induct) auto

lemma hashpjw_prefix: "c_prefix a = c_prefix b \<Longrightarrow> hashpjw a = hashpjw b"
  unfolding hashpjw_def by (metis hashpjw_loop_prefix)

lemma hashpjw_bounds: "0 \<le> hashpjw s" "hashpjw s < PRIME_TBLSIZ"
  by (simp_all add: hashpjw_def PRIME_TBLSIZ_def uint_mod)

abbreviation kv_name :: "SweetListKv \<Rightarrow> string" where
  "kv_name d \<equiv> c_prefix (kv_key d)"

interpretation kvt: hash_callbacks kv_key hashpjw match_sweet_list_kv kv_name
  by unfold_locales
    (auto simp: hashpjw_bounds match_sweet_list_kv_def strcmp_eq_0 intro: hashpjw_prefix)

abbreviation kv_rep :: "SweetListKv lmem \<Rightarrow> kvtbl \<Rightarrow> (nat \<times> SweetListKv) list list \<Rightarrow> bool" where
  "kv_rep \<equiv> tbl_rep kv_key hashpjw match_sweet_list_kv kv_name"

section \<open>Fields of a line\<close>

definition field_char :: "char \<Rightarrow> bool" where
  "field_char c \<longleftrightarrow> c = CHR '' '' \<or> \<not> isspace c"

text \<open>
  The fields of a line (without its newline) as the loaders read it: every white space character
  other than the blank separates, and a separator at the end of the line starts no field.
\<close>

function split_fields :: "string \<Rightarrow> string list" where
  "split_fields l = (if l = [] then []
     else takeWhile field_char l # split_fields (tl (dropWhile field_char l)))"
  by auto
termination
  by (relation "measure length")
    (auto simp: less_Suc_eq_le neq_Nil_conv intro: le_trans [OF diff_le_self length_dropWhile_le])

declare split_fields.simps [simp del]

lemma split_fields_Nil [simp]: "split_fields [] = []"
  by (simp add: split_fields.simps)

lemma field_char_not_NL: "field_char c \<Longrightarrow> c \<noteq> NL"
  by (auto simp: field_char_def isspace_def NL_def)

lemma split_fields_last:
  assumes "l \<noteq> []" and "\<forall>c\<in>set l. field_char c"
  shows "split_fields l = [l]"
proof -
  have "dropWhile field_char l = []" "takeWhile field_char l = l"
    using assms(2) by (simp_all add: takeWhile_eq_all_conv)
  then show ?thesis
    using assms(1) by (simp add: split_fields.simps [of l] del: dropWhile_eq_Nil_conv)
qed

lemma split_fields_Cons:
  "\<forall>c\<in>set f. field_char c \<Longrightarrow> \<not> field_char s \<Longrightarrow> split_fields (f @ s # l) = f # split_fields l"
  by (simp add: split_fields.simps [of "f @ s # l"] takeWhile_append dropWhile_append)

lemma my_csv_scan_field:
  assumes "\<forall>c\<in>set f. field_char c" and "\<not> field_char s" and "p + length f \<le> length t"
  shows "my_csv_scan (map Some f @ Some s # r) t p =
     Some (Some s # r, take p t @ map Some f @ drop (p + length f) t)"
  using assms
proof (induction f arbitrary: t p)
  case Nil
  then show ?case by (auto simp: field_char_def)
next
  case (Cons c f)
  then have "c \<noteq> NL" "c = CHR '' '' \<or> \<not> isspace c" "p < length t"
    by (auto simp: field_char_not_NL field_char_def)
  then show ?case
    using Cons.IH [of "Suc p" "t[p := Some c]"] Cons.prems
    by (simp add: take_Suc_conv_app_nth)
qed

text \<open>An array that holds the string \<open>s\<close>, with anything behind its NUL.\<close>

definition holds :: "cbuf \<Rightarrow> string \<Rightarrow> bool" where
  "holds b s \<longleftrightarrow> (\<exists>junk. b = map Some s @ Some NUL # junk)"

lemma holds_put_str: "length s < length b \<Longrightarrow> \<exists>b'. put_str b s = Some b' \<and> holds b' s"
  by (auto simp: put_str_def holds_def)

lemma cstr_holds: "holds b s \<Longrightarrow> NUL \<notin> set s \<Longrightarrow> cstr b = Some s"
  by (auto simp: holds_def)

lemma NUL_field_char [simp]: "field_char NUL" "NUL \<noteq> NL" "\<not> field_char NL" "NL \<noteq> NUL"
  by (simp_all add: field_char_def isspace_def NUL_def NL_def TAB_def)

lemma TAB_neq [simp]: "TAB \<noteq> NL" "TAB \<noteq> NUL" "\<not> field_char TAB"
  by (simp_all add: field_char_def isspace_def NUL_def NL_def TAB_def)

lemma clean_tmp:
  assumes "length f < sz" and "NUL \<notin> set f"
  shows "cstr (map Some f @ drop (length f) (replicate sz (Some NUL) @ x)) = Some f"
proof -
  have "drop (length f) (replicate sz (Some NUL) @ x) =
      Some NUL # replicate (sz - 1 - length f) (Some NUL) @ x"
    using assms(1) by (simp flip: replicate_Suc add: Suc_diff_le)
  then show ?thesis
    using assms(2) by simp
qed

lemma my_csv_line:
  assumes "holds b (l @ [NL])" and "NL \<notin> set l" and "NUL \<notin> set l"
    and "length (takeWhile field_char l) \<le> length t"
  shows "\<exists>rest. my_csv b t =
       Some (rest, map Some (takeWhile field_char l) @ drop (length (takeWhile field_char l)) t) \<and>
     holds rest (tl (dropWhile field_char l) @ [NL])"
proof -
  let ?f = "takeWhile field_char l"
  obtain junk where b: "b = map Some (l @ [NL]) @ Some NUL # junk"
    using assms(1) by (auto simp: holds_def)
  have f: "\<forall>c\<in>set ?f. field_char c"
    by (auto dest: set_takeWhileD)
  show ?thesis
  proof (cases "dropWhile field_char l")
    case Nil
    then have "?f = l"
      by (simp add: takeWhile_eq_all_conv)
    then have "b = map Some ?f @ Some NL # Some NUL # junk"
      using b by (simp only: map_append list.map append.assoc append_Cons append_Nil)
    then show ?thesis
      using my_csv_scan_field [OF f, of NL 0 t] assms(4) Nil
      by (simp add: my_csv_def holds_def del: dropWhile_eq_Nil_conv)
  next
    case (Cons s r)
    have l: "l = ?f @ s # r"
      using Cons by (metis takeWhile_dropWhile_id)
    have s: "\<not> field_char s"
      using Cons by (metis hd_dropWhile list.distinct(1) list.sel(1))
    then have "isspace s"
      by (simp add: field_char_def)
    moreover have "s \<noteq> NL"
      using l assms(2) by (metis in_set_conv_decomp)
    moreover have "b = map Some ?f @ Some s # (map Some (r @ [NL]) @ Some NUL # junk)"
      unfolding b by (subst l) simp
    ultimately show ?thesis
      using my_csv_scan_field [OF f s, of 0 t] assms(4) Cons
      by (simp add: my_csv_def holds_def)
  qed
qed

lemma in_set_tlD: "x \<in> set (tl xs) \<Longrightarrow> x \<in> set xs"
  by (cases xs) auto

lemma next_field_line:
  assumes "holds b (l @ [NL])" and "NL \<notin> set l" and "NUL \<notin> set l" and "sz \<le> length t"
    and "length (takeWhile field_char l) < sz"
  shows "\<exists>b' t'. next_field sz b t = Some (b', t') \<and> holds b' (tl (dropWhile field_char l) @ [NL]) \<and>
     cstr t' = Some (takeWhile field_char l) \<and> length t' = length t"
proof -
  let ?f = "takeWhile field_char l" and ?r = "tl (dropWhile field_char l) @ [NL]"
  let ?t = "replicate sz (Some NUL) @ drop sz t"
  have len: "length ?t = length t"
    using assms(4) by simp
  with assms(4,5) have "length ?f \<le> length ?t"
    by linarith
  from my_csv_line [OF assms(1-3) this] obtain rest where
    rest: "my_csv b ?t = Some (rest, map Some ?f @ drop (length ?f) ?t)" "holds rest ?r"
    by blast
  have "set (tl (dropWhile field_char l)) \<subseteq> set l"
    using set_dropWhileD [of _ field_char l] by (auto dest: in_set_tlD)
  then have "cstr rest = Some ?r"
    using assms(3) by (intro cstr_holds [OF rest(2)]) auto
  moreover have "length ?r < length b"
  proof -
    have "length (tl (dropWhile field_char l)) \<le> length l"
      by (simp add: le_trans [OF diff_le_self length_dropWhile_le])
    then show ?thesis
      using assms(1) by (auto simp: holds_def)
  qed
  then obtain b' where "put_str b ?r = Some b'" "holds b' ?r"
    using holds_put_str by blast
  moreover have "cstr (map Some ?f @ drop (length ?f) ?t) = Some ?f"
    using assms(3,5) by (intro clean_tmp) (auto dest: set_takeWhileD)
  moreover have "length (map Some ?f @ drop (length ?f) ?t) = length t"
    using assms(4,5) by simp
  moreover have "memset0 t sz = Some ?t"
    using assms(4) by (simp add: memset0_def)
  ultimately show ?thesis
    using rest(1) unfolding next_field_def by simp
qed

text \<open>No allocation from now on fails.\<close>

definition plenty :: "'a mem \<Rightarrow> bool" where
  "plenty m \<longleftrightarrow> mem_wf m \<and> (\<forall>k\<ge>nextblock m. \<not> fails m k)"

lemma plenty_malloc:
  assumes "plenty m"
  shows "\<exists>m'. malloc v m = (Ptr (nextblock m), m') \<and> plenty m' \<and>
     cells m' = (cells m)(nextblock m \<mapsto> v)"
  using assms by (auto simp: plenty_def malloc_succeed mem_wf_def)

lemma plenty_store: "plenty m \<Longrightarrow> store m p v = Some m' \<Longrightarrow> plenty m'"
  by (cases p) (auto simp: plenty_def mem_wf_def split: if_splits)

lemma dup_field_plenty:
  assumes "plenty bm" and "cstr tmp = Some s"
  shows "\<exists>bm'. dup_field bm tmp = Some (s, bm') \<and> plenty bm' \<and>
     (\<forall>a<nextblock bm. cells bm' a = cells bm a) \<and> nextblock bm \<le> nextblock bm'"
proof -
  obtain b' where b': "put_str (replicate (length s + 1) None) s = Some b'"
    using holds_put_str [of s "replicate (length s + 1) None"] by auto
  show ?thesis
    using assms b' by (simp add: dup_field_def malloc_succeed plenty_def mem_wf_def)
qed

text \<open>What one field adds to the key and the value.\<close>

definition pick :: "int \<Rightarrow> int \<Rightarrow> string list \<Rightarrow> string option \<Rightarrow> string option" where
  "pick col n fs old = (if n \<le> col \<and> col < n + int (length fs) then Some (fs ! nat (col - n)) else old)"

lemma pick_Nil [simp]: "pick col n [] old = old"
  by (auto simp: pick_def)

lemma pick_Cons:
  "pick col n (f # fs) old = pick col (n + 1) fs (if n = col then Some f else old)"
proof -
  have "nat (col - n) = Suc (nat (col - (n + 1)))" if "n < col"
    using that by simp
  then show ?thesis
    by (auto simp: pick_def)
qed

lemma dup_or_keep:
  assumes "plenty bm" and "cstr tmp = Some s"
  shows "\<exists>bm'. (if c then map_option (map_prod Some id) (dup_field bm tmp) else Some (old, bm)) =
       Some (if c then Some s else old, bm') \<and> plenty bm' \<and>
     (\<forall>a<nextblock bm. cells bm' a = cells bm a) \<and> nextblock bm \<le> nextblock bm'"
  using dup_field_plenty [OF assms] assms(1) by auto

lemma kv_fields_line:
  assumes "load bm (Ptr a) = Some b" and "holds b (l @ [NL])" and "NL \<notin> set l" and "NUL \<notin> set l"
    and "\<forall>f\<in>set (split_fields l). length f \<le> 1024" and "1025 \<le> length tmp" and "plenty bm"
    and "INT_MIN \<le> n" and "n + int (length (split_fields l)) \<le> INT_MAX"
  shows "\<exists>bm' tmp'. kv_fields col (Ptr a) bm tmp n key val =
       Some (pick 0 n (split_fields l) key, pick col n (split_fields l) val, bm', tmp') \<and>
     plenty bm' \<and> cells bm' a \<noteq> None \<and> length tmp' = length tmp"
  using assms
proof (induction l arbitrary: bm b tmp n key val rule: split_fields.induct)
  case (1 l)
  show ?case
  proof (cases "l = []")
    case True
    then have "buf_head b = Some NL"
      using "1.prems"(2) by (auto simp: holds_def buf_head_def)
    then show ?thesis
      using True "1.prems"(1,7) by (simp add: kv_fields.simps [of _ _ bm])
  next
    case False
    let ?f = "takeWhile field_char l" and ?r = "tl (dropWhile field_char l)"
    have fs: "split_fields l = ?f # split_fields ?r"
      using False by (simp add: split_fields.simps [of l])
    have f: "length ?f < 1025"
      using "1.prems"(5) fs by simp
    obtain b1 t1 where nf: "next_field 1025 b tmp = Some (b1, t1)" "holds b1 (?r @ [NL])"
      "cstr t1 = Some ?f" "length t1 = length tmp"
      using next_field_line [OF "1.prems"(2,3,4,6) f] by blast
    obtain bm1 where bm1: "store bm (Ptr a) b1 = Some bm1" "plenty bm1" "cells bm1 a = Some b1"
      using "1.prems"(1,7) plenty_store [OF "1.prems"(7), of "Ptr a" b1] by auto
    obtain bm2 where bm2: "(if n = 0 then map_option (map_prod Some id) (dup_field bm1 t1) else Some (key, bm1))
        = Some (if n = 0 then Some ?f else key, bm2)" "plenty bm2"
      "\<forall>a<nextblock bm1. cells bm2 a = cells bm1 a" "nextblock bm1 \<le> nextblock bm2"
      using dup_or_keep [OF bm1(2) nf(3), of "n = 0" key] by blast
    obtain bm3 where bm3: "(if n = col then map_option (map_prod Some id) (dup_field bm2 t1) else Some (val, bm2))
        = Some (if n = col then Some ?f else val, bm3)" "plenty bm3"
      "\<forall>a<nextblock bm2. cells bm3 a = cells bm2 a" "nextblock bm2 \<le> nextblock bm3"
      using dup_or_keep [OF bm2(2) nf(3), of "n = col" val] by blast
    have "a < nextblock bm1"
      using bm1(2,3) by (metis plenty_def mem_wf_def not_less option.distinct(1))
    then have a: "load bm3 (Ptr a) = Some b1"
      using bm1(3) bm2(3,4) bm3(3) by simp
    have n1: "c_int (n + 1) = Some (n + 1)"
      using "1.prems"(8,9) fs by (simp add: c_int_def)
    have sub: "NL \<notin> set ?r" "NUL \<notin> set ?r"
      using "1.prems"(3,4) by (auto dest!: in_set_tlD set_dropWhileD)
    have head: "\<exists>c. buf_head b = Some c \<and> c \<noteq> NL"
      using False "1.prems"(2,3) by (cases l) (auto simp: holds_def buf_head_def)
    have "\<exists>bm' tmp'. kv_fields col (Ptr a) bm3 t1 (n + 1) (if n = 0 then Some ?f else key)
         (if n = col then Some ?f else val) =
        Some (pick 0 (n + 1) (split_fields ?r) (if n = 0 then Some ?f else key),
              pick col (n + 1) (split_fields ?r) (if n = col then Some ?f else val), bm', tmp') \<and>
      plenty bm' \<and> cells bm' a \<noteq> None \<and> length tmp' = length t1"
      using "1.prems"(5,6,8,9) fs nf(4)
      by (intro "1.IH" [OF False a nf(2) sub _ _ bm3(2)]) auto
    then show ?thesis
      using head nf(1,4) bm1(1) bm2(1) bm3(1) n1 "1.prems"(1) fs
      by (auto simp: kv_fields.simps [of _ _ bm] pick_Cons simp del: store.simps)
  qed
qed

lemma split_fields_length: "length (split_fields l) \<le> length l"
proof (induction l rule: split_fields.induct)
  case (1 l)
  show ?case
  proof (cases "l = []")
    case False
    have "length (tl (dropWhile field_char l)) < length l"
      using False length_dropWhile_le [of field_char l]
      by (cases l) (auto intro: le_less_trans [OF diff_le_self] simp: less_Suc_eq_le)
    then show ?thesis
      using False "1.IH" by (simp add: split_fields.simps [of l])
  qed simp
qed

text \<open>The record that the loaders make of a line.\<close>

definition line_kv :: "int \<Rightarrow> string \<Rightarrow> SweetListKv" where
  "line_kv col l = \<lparr>kv_key = hd (split_fields l), kv_value = pick col 0 (split_fields l) None\<rparr>"

definition good_line :: "nat \<Rightarrow> string \<Rightarrow> bool" where
  "good_line sz l \<longleftrightarrow> l \<noteq> [] \<and> NL \<notin> set l \<and> NUL \<notin> set l \<and> length l < sz - 1 \<and>
     (\<forall>f\<in>set (split_fields l). length f \<le> 1024)"

lemma load_line_fields:
  assumes line: "good_line sz l" and f: "f_rest f = l @ NL # s" and bm: "plenty bm"
    and tmp: "1025 \<le> length tmp" and sz: "int sz \<le> INT_MAX"
  shows "\<exists>bm' tmp' a. plenty bm' \<and> cells bm' a \<noteq> None \<and> length tmp' = length tmp \<and>
     load_line sz col (bm, m, t, f, tmp) = do {
       (r, t1, m1) \<leftarrow> chtbl_insert_kv m t (line_kv col l);
       if r \<noteq> 0 then Some (Some 1, (bm', m1, t1, f\<lparr>f_rest := s\<rparr>, tmp'))
       else do {
         bm5 \<leftarrow> mem_free bm' (Ptr a);
         Some (None, (bm5, m1, t1, f\<lparr>f_rest := s\<rparr>, tmp'))
       }
     }"
proof -
  let ?a = "nextblock bm"
  have l: "l \<noteq> []" "NL \<notin> set l" "NUL \<notin> set l" "length l < sz - 1"
    "\<forall>f\<in>set (split_fields l). length f \<le> 1024"
    using line by (auto simp: good_line_def)
  have NUL: "NUL \<notin> set (l @ [NL])"
    using l(3) by simp
  have len: "length (l @ [NL]) < length (replicate (sz + 1) None)"
    using l(4) by simp
  obtain b where b: "fgets (replicate (sz + 1) (Some NUL)) sz f = Some (b, f\<lparr>f_rest := s\<rparr>)"
    "put_str (replicate (sz + 1) (Some NUL)) (l @ [NL]) = Some b"
    using fgets_line [OF f l(2,4), of "replicate (sz + 1) (Some NUL)"] by auto
  obtain bm1 where bm1: "malloc (replicate (sz + 1) None) bm = (Ptr ?a, bm1)" "plenty bm1"
    "cells bm1 = (cells bm)(?a \<mapsto> replicate (sz + 1) None)"
    using plenty_malloc [OF bm] by blast
  obtain b1 where b1: "put_str (replicate (sz + 1) None) (l @ [NL]) = Some b1" "holds b1 (l @ [NL])"
    using holds_put_str [OF len] by blast
  obtain bm2 where bm2: "store bm1 (Ptr ?a) b1 = Some bm2" "plenty bm2" "cells bm2 ?a = Some b1"
    using bm1(3) plenty_store [OF bm1(2), of "Ptr ?a" b1] by auto
  obtain bm3 where bm3: "malloc [] bm2 = (Ptr (nextblock bm2), bm3)" "plenty bm3"
    "cells bm3 = (cells bm2)(nextblock bm2 \<mapsto> [])"
    using plenty_malloc [OF bm2(2)] by blast
  have "?a \<noteq> nextblock bm2"
    using bm2(2,3) by (auto simp: plenty_def mem_wf_def)
  then have a: "load bm3 (Ptr ?a) = Some b1"
    using bm3(3) bm2(3) by simp
  have "0 + int (length (split_fields l)) \<le> INT_MAX"
    using split_fields_length [of l] l(4) sz by linarith
  then obtain bm4 tmp' where kv: "kv_fields col (Ptr ?a) bm3 tmp 0 None None =
      Some (pick 0 0 (split_fields l) None, pick col 0 (split_fields l) None, bm4, tmp')"
      "plenty bm4" "cells bm4 ?a \<noteq> None" "length tmp' = length tmp"
    using kv_fields_line [OF a b1(2) l(2,3,5) tmp bm3(2), of 0 col None None]
    by (auto simp: INT_MIN_def)
  have key: "pick 0 0 (split_fields l) None = Some (hd (split_fields l))"
    using l(1) by (simp add: pick_def hd_conv_nth split_fields.simps [of l])
  have "memset0 (replicate (sz + 1) None) (sz + 1) = Some (replicate (sz + 1) (Some NUL))"
    by (simp add: memset0_def)
  then show ?thesis
    using b(1) bm1(1) b1(1) bm2(1) bm3(1) bm1(3) kv key cstr_put_str [OF b(2) NUL]
    by (intro exI [of _ bm4] exI [of _ tmp'] exI [of _ ?a])
      (simp add: load_line_def line_kv_def del: store.simps mem_free.simps)
qed

section \<open>Lines without a newline\<close>

lemma my_csv_scan_set: "my_csv_scan s t p = Some (r, t') \<Longrightarrow> set r \<subseteq> set s"
  by (induction s t p rule: my_csv_scan.induct) (auto split: if_splits)

lemma my_csv_set:
  assumes "my_csv s t = Some (r, t')"
  shows "set r \<subseteq> set s"
proof -
  obtain s0 t0 where s0: "my_csv_scan s t 0 = Some (s0, t0)"
    using assms by (auto simp: my_csv_def bind_eq_Some)
  then have "r = s0 \<or> r = tl s0"
    using assms by (auto simp: my_csv_def split: list.splits option.splits if_splits)
  then show ?thesis
    using my_csv_scan_set [OF s0] by (auto dest: in_set_tlD)
qed

lemma next_field_no_newline:
  assumes "next_field sz b t = Some (b1, t1)" and "Some NL \<notin> set b"
  shows "Some NL \<notin> set b1"
proof -
  obtain t0 r s where "my_csv b t0 = Some (r, t1)" "cstr r = Some s" "put_str b s = Some b1"
    using assms(1) by (auto simp: next_field_def bind_eq_Some)
  moreover from this have "NL \<notin> set s"
    using my_csv_set [of b t0 r t1] cstr_set [of r s NL] assms(2) by blast
  ultimately show ?thesis
    using put_str_set [of b s b1] assms(2) NUL_field_char(4) by blast
qed

lemmas kv_fields_raw = kv_fields.raw_induct [rotated, consumes 1, case_names step]

lemma dup_field_frame:
  assumes "dup_field bm tmp = Some (s, bm')" and "mem_wf bm"
  shows "mem_wf bm' \<and> (\<forall>p b. load bm p = Some b \<longrightarrow> load bm' p = Some b)"
proof (cases "fails bm (nextblock bm)")
  case True
  then show ?thesis
    using assms by (simp add: dup_field_def bind_eq_Some malloc_fail)
next
  case False
  have "load bm' p = Some b" if "load bm p = Some b" for p b
    using that assms False
    by (cases p) (auto simp: dup_field_def bind_eq_Some malloc_succeed mem_wf_def)
  then show ?thesis
    using assms False by (auto simp: dup_field_def bind_eq_Some malloc_succeed mem_wf_def)
qed

lemma mem_wf_stored: "mem_wf m \<Longrightarrow> store m p v = Some m' \<Longrightarrow> mem_wf m' \<and> load m' p = Some v"
  by (cases p) (auto simp: mem_wf_def split: if_splits)

lemma dup_or_keep_frame:
  assumes "(if c then map_option (map_prod Some id) (dup_field bm tmp) else Some (old, bm)) =
       Some (new, bm')" and "mem_wf bm"
  shows "mem_wf bm' \<and> (\<forall>p b. load bm p = Some b \<longrightarrow> load bm' p = Some b)"
  using assms by (auto split: if_splits dest: dup_field_frame)

lemma kv_fields_newline:
  "kv_fields col p bm tmp n key val = Some r \<Longrightarrow> mem_wf bm \<Longrightarrow> load bm p = Some b \<Longrightarrow>
   Some NL \<in> set b \<and> mem_wf (fst (snd (snd r)))"
proof (induction arbitrary: b rule: kv_fields_raw)
  case (step kvf col p bm tmp n key val r)
  obtain c where c: "buf_head b = Some c"
    using step.hyps step.prems(2) by (auto simp: bind_eq_Some)
  show ?case
  proof (cases "c = NL")
    case True
    then show ?thesis
      using c step.hyps step.prems by (cases b) (auto simp: buf_head_def)
  next
    case False
    with step.hyps [unfolded step.prems(2)] c obtain b1 t1 bm1 k1 bm2 v1 bm3 n1 where
      s: "next_field 1025 b tmp = Some (b1, t1)" "store bm p b1 = Some bm1"
        "(if n = 0 then map_option (map_prod Some id) (dup_field bm1 t1) else Some (key, bm1)) = Some (k1, bm2)"
        "(if n = col then map_option (map_prod Some id) (dup_field bm2 t1) else Some (val, bm2)) = Some (v1, bm3)"
        "kvf col p bm3 t1 n1 k1 v1 = Some r"
      by (auto simp only: bind_eq_Some split_paired_Ex prod.case option.inject simp_thms if_False)
    have "mem_wf bm3" "load bm3 p = Some b1"
      using mem_wf_stored [OF step.prems(1) s(2)] dup_or_keep_frame [OF s(3)] dup_or_keep_frame [OF s(4)]
      by blast+
    then show ?thesis
      using step.IH [OF s(5)] next_field_no_newline [OF s(1)] by blast
  qed
qed

lemma load_line_not_eof:
  assumes "load_line sz col (bm, m, t, f, tmp) = Some (None, (bm', m', t', f', tmp'))"
    and "mem_wf bm" and "\<not> f_eof f"
  shows "\<not> f_eof f' \<and> mem_wf bm'"
proof -
  let ?z = "replicate (sz + 1) None"
  obtain ss2 bm1 where mal: "malloc ?z bm = (ss2, bm1)"
    by (cases "malloc ?z bm")
  from assms(1) obtain line0 line s b b1 bm2 key val bm4 where
    s: "memset0 ?z (sz + 1) = Some line0" "fgets line0 sz f = Some (line, f')"
      "cstr line = Some s" "load bm1 ss2 = Some b" "put_str b s = Some b1" "store bm1 ss2 b1 = Some bm2"
      "kv_fields col ss2 (snd (malloc [] bm2)) tmp 0 None None = Some (key, val, bm4, tmp')"
      "mem_free bm4 ss2 = Some bm'"
    unfolding load_line_def case_prod_conv Let_def mal
    by (auto simp: bind_eq_Some case_prod_beta Let_def split: if_splits)
  have wf2: "mem_wf bm2" "load bm2 ss2 = Some b1"
    using mem_wf_stored [OF _ s(6)] mal assms(2) by (auto simp: malloc_def mem_wf_def split: if_splits)
  then have wf3: "mem_wf (snd (malloc [] bm2))" "load (snd (malloc [] bm2)) ss2 = Some b1"
    by (cases ss2; auto simp: malloc_def mem_wf_def split: if_splits)+
  from kv_fields_newline [OF s(7) wf3] have NL: "Some NL \<in> set b1" and wf4: "mem_wf bm4"
    by auto
  have b: "b = ?z"
    using mal s(4) by (cases ss2) (auto simp: malloc_def split: if_splits)
  have "\<not> f_eof f'"
  proof
    assume eof: "f_eof f'"
    obtain l r where l: "fgets_loop (sz - 1) (f_rest f) = (l, r, True)"
      "(if l = [] then Some line0 else put_str line0 l) = Some line"
      using s(2) eof assms(3) by (auto simp: fgets_def bind_eq_Some split: prod.splits)
    have z: "set line0 = {Some NUL}"
      using s(1) by (auto simp: memset0_def)
    have "Some NL \<notin> set line"
      using z l(2) put_str_set [of line0 l line] fgets_loop_no_newline [OF l(1)]
      by (auto split: if_splits)
    then have "NL \<notin> set s"
      using cstr_set [OF s(3)] by blast
    then show False
      using NL put_str_set [OF s(5)] b by (auto simp: image_iff)
  qed
  then show ?thesis
    using wf4 s(8) by (cases ss2) (auto simp: mem_wf_def split: if_splits)
qed

lemmas load_loop_raw = load_loop.raw_induct [rotated, consumes 1, case_names step]

lemma load_loop_not_0:
  "load_loop sz col st n = Some r \<Longrightarrow> mem_wf (fst st) \<Longrightarrow> \<not> f_eof (fst (snd (snd (snd st)))) \<Longrightarrow>
   fst r = 1"
proof (induction rule: load_loop_raw)
  case (step ll sz col st n r)
  obtain bm m t f tmp where st: "st = (bm, m, t, f, tmp)"
    by (cases st)
  obtain v bm' m' t' f' tmp' where v: "load_line sz col st = Some (v, (bm', m', t', f', tmp'))"
    using step.hyps step.prems(2) by (auto simp: bind_eq_Some)
  show ?case
  proof (cases v)
    case None
    then obtain n1 where "ll sz col (bm', m', t', f', tmp') n1 = Some r"
      using step.hyps step.prems(2) v by (auto simp: bind_eq_Some)
    from step.IH [OF this] show ?thesis
      using load_line_not_eof [of sz col bm m t f tmp bm' m' t' f' tmp'] step.prems v None st by simp
  next
    case (Some x)
    then have "x = 1"
      using v st by (auto simp: load_line_def bind_eq_Some case_prod_beta Let_def split: if_splits)
    then show ?thesis
      using step.hyps step.prems(2) v Some by auto
  qed
qed

section \<open>Insertions from an empty table\<close>

lemma list_ins_next_fails: "list_ins_next m l p d = Some (r, l', m') \<Longrightarrow> fails m' = fails m"
  by (cases p) (auto simp: list_ins_next_def malloc_def bind_eq_Some Let_def split: if_splits)

lemma chtbl_insert_kv_frame:
  "chtbl_insert_kv m t d = Some (r, t', m') \<Longrightarrow> fails m' = fails m \<and> ht_size t' \<le> ht_size t + 1"
  by (auto simp: chtbl_insert_kv_def bind_eq_Some Let_def c_int_def split: if_splits
      dest: list_ins_next_fails)

fun insert_kvs ::
  "SweetListKv lmem \<Rightarrow> kvtbl \<Rightarrow> SweetListKv list \<Rightarrow> (kvtbl \<times> SweetListKv lmem) option" where
  "insert_kvs m t [] = Some (t, m)"
| "insert_kvs m t (d # ds) = do {
     (r, t1, m1) \<leftarrow> chtbl_insert_kv m t d;
     insert_kvs m1 t1 ds
   }"

lemma kv_insert:
  assumes rep: "kv_rep m t bs" and "\<not> fails m (nextblock m)" and "ht_size t < INT_MAX"
  shows "\<exists>r t' m' bs'. chtbl_insert_kv m t d = Some (r, t', m') \<and> kv_rep m' t' bs' \<and>
     (if kv_name d \<in> dom (tbl_map kv_name bs) then r = 1 \<and> t' = t \<and> m' = m \<and> bs' = bs
      else r = 0 \<and> tbl_map kv_name bs' = (tbl_map kv_name bs)(kv_name d \<mapsto> d))"
proof (cases "tbl_map kv_name bs (kv_name d)")
  case None
  then show ?thesis
    using kvt.insert_new [OF rep None assms(2,3)] by (auto simp: insert_tbl domIff)
next
  case (Some x)
  then show ?thesis
    using rep kvt.insert_present [OF rep Some] by (auto simp: insert_tbl)
qed

lemma insert_kvs_rep:
  assumes "kv_rep m t bs" and "\<forall>k. \<not> fails m k" and "ht_size t + int (length ds) \<le> INT_MAX"
  shows "\<exists>t' m' bs'. insert_kvs m t ds = Some (t', m') \<and> kv_rep m' t' bs' \<and>
     (\<forall>k. tbl_map kv_name bs' k =
        (case tbl_map kv_name bs k of Some x \<Rightarrow> Some x | None \<Rightarrow> find (\<lambda>d. kv_name d = k) ds))"
  using assms
proof (induction ds arbitrary: m t bs)
  case Nil
  then show ?case by (auto split: option.splits)
next
  case (Cons d ds)
  have "ht_size t < INT_MAX"
    using Cons.prems(3) by simp
  with kv_insert [OF Cons.prems(1), of d] Cons.prems(2) obtain r t1 m1 bs1 where
    s: "chtbl_insert_kv m t d = Some (r, t1, m1)" "kv_rep m1 t1 bs1"
      "if kv_name d \<in> dom (tbl_map kv_name bs) then bs1 = bs
       else tbl_map kv_name bs1 = (tbl_map kv_name bs)(kv_name d \<mapsto> d)"
    by (metis (no_types, lifting))
  then have "\<forall>k. \<not> fails m1 k" "ht_size t1 + int (length ds) \<le> INT_MAX"
    using Cons.prems(2,3) chtbl_insert_kv_frame [OF s(1)] by auto
  from Cons.IH [OF s(2) this] obtain t' m' bs' where
    ih: "insert_kvs m1 t1 ds = Some (t', m')" "kv_rep m' t' bs'"
      "\<forall>k. tbl_map kv_name bs' k =
        (case tbl_map kv_name bs1 k of Some x \<Rightarrow> Some x | None \<Rightarrow> find (\<lambda>d. kv_name d = k) ds)"
    by blast
  have "tbl_map kv_name bs' k =
      (case tbl_map kv_name bs k of Some x \<Rightarrow> Some x | None \<Rightarrow> find (\<lambda>d. kv_name d = k) (d # ds))" for k
    using s(3) ih(3) by (cases "kv_name d \<in> dom (tbl_map kv_name bs)") (auto split: option.splits)
  then show ?case
    using s(1) ih(1,2) by auto
qed

section \<open>Properties\<close>

text \<open>
  C27: The string tables keep the first record of each key: after \<^verbatim>\<open>chtbl_init_kv\<close> with the
  callbacks of the loaders and any sequence of \<^verbatim>\<open>chtbl_insert_kv\<close>, \<^verbatim>\<open>chtbl_find_kv\<close>
  returns the first inserted record whose key is the same C string, or its own argument when there
  is none.
\<close>

theorem kv_table_first_wins:
  assumes "mem_wf m" and "\<forall>k. \<not> fails m k" and "int (length ds) \<le> INT_MAX"
    and "chtbl_init_kv (Some arr) t0 PRIME_TBLSIZ hashpjw match_sweet_list_kv FREE = (r, t)"
  shows "r = 0 \<and> (\<exists>t' m'. insert_kvs m t ds = Some (t', m') \<and>
     (\<forall>q. chtbl_find_kv m' t' q =
        Some (case find (\<lambda>d. strcmp (kv_key d) (kv_key q) = 0) ds of Some d \<Rightarrow> d | None \<Rightarrow> q)))"
proof -
  have init: "r = 0" "kv_rep m t (replicate 1024 [])" "ht_size t = 0"
    using chtbl_init_rep [of PRIME_TBLSIZ m arr t0 hashpjw match_sweet_list_kv FREE kv_key kv_name]
      assms(1,4) by (auto simp: chtbl_init_kv_eq PRIME_TBLSIZ_def tbl_rep_def)
  obtain t' m' bs' where s: "insert_kvs m t ds = Some (t', m')" "kv_rep m' t' bs'"
    "\<forall>k. tbl_map kv_name bs' k = find (\<lambda>d. kv_name d = k) ds"
    using insert_kvs_rep [OF init(2) assms(2), of ds] assms(3) init(3) by auto
  have "chtbl_find_kv m' t' q =
      Some (case find (\<lambda>d. strcmp (kv_key d) (kv_key q) = 0) ds of Some d \<Rightarrow> d | None \<Rightarrow> q)" for q
    using kvt.find_rep [OF s(2), of q] s(3)
    by (simp add: lookup_tbl found_def strcmp_eq_0 split: option.splits)
  then show ?thesis
    using init(1) s(1) by blast
qed

text \<open>
  \<^verbatim>\<open>hashpjw\<close> keeps its accumulator below 2 to the 28, so the shift by four never loses
  a bit, and its value is a valid bucket number of a table of \<^verbatim>\<open>PRIME_TBLSIZ\<close> buckets.
\<close>

theorem hashpjw_in_range:
  "uint (hashpjw_loop 0 s) < 2 ^ 28 \<and> hashpjw s = uint (hashpjw_loop 0 s) mod PRIME_TBLSIZ \<and>
   0 \<le> hashpjw s \<and> hashpjw s < PRIME_TBLSIZ"
  using hashpjw_loop_bound [of 0 s] hashpjw_bounds [of s]
  by (simp add: hashpjw_def PRIME_TBLSIZ_def uint_mod)

fun join_tab :: "string list \<Rightarrow> string" where
  "join_tab [] = []"
| "join_tab [f] = f"
| "join_tab (f # g # fs) = f @ TAB # join_tab (g # fs)"

lemma split_join:
  "\<forall>f\<in>set fs. \<forall>c\<in>set f. field_char c \<Longrightarrow> fs = [] \<or> last fs \<noteq> [] \<Longrightarrow>
   split_fields (join_tab fs) = fs"
proof (induction fs rule: join_tab.induct)
  case (2 f)
  then show ?case by (simp add: split_fields_last)
next
  case (3 f g fs)
  then show ?case by (simp add: split_fields_Cons)
qed simp

text \<open>
  Splitting is the inverse of joining. Fields without white space (blanks apart) joined by
  tabs, the last one not empty, come back one by one from the loop of the loaders: the key is
  the first field and the value the field of column \<open>col\<close>.
\<close>

theorem kv_fields_reads_joined_fields:
  assumes "load bm (Ptr a) = Some b" and "holds b (join_tab fs @ [NL])"
    and "\<forall>f\<in>set fs. length f \<le> 1024 \<and> (\<forall>c\<in>set f. field_char c \<and> c \<noteq> NUL)"
    and "fs \<noteq> []" and "last fs \<noteq> []" and "1025 \<le> length tmp" and "plenty bm"
    and "int (length fs) \<le> INT_MAX" and "0 \<le> col" and "col < int (length fs)"
  shows "\<exists>bm' tmp'. kv_fields col (Ptr a) bm tmp 0 None None =
     Some (Some (hd fs), Some (fs ! nat col), bm', tmp')"
proof -
  have fs: "split_fields (join_tab fs) = fs"
    using assms(3,5) by (intro split_join) auto
  have "c \<noteq> NL \<and> c \<noteq> NUL" if "c \<in> set (join_tab fs)" for c
    using that assms(3)
    by (induction fs rule: join_tab.induct) (auto dest: field_char_not_NL)
  then have "NL \<notin> set (join_tab fs)" "NUL \<notin> set (join_tab fs)"
    by auto
  from kv_fields_line [OF assms(1,2) this _ assms(6,7), of 0 col None None] show ?thesis
    using assms(3,4,8,9,10) fs by (auto simp: pick_def hd_conv_nth INT_MIN_def)
qed

text \<open>
  One turn of a loader on a line that fits its buffers and has at least one field: a key
  that is not in the table is stored with its record and the loader goes on; a key that is
  in the table makes the loader return 1 with the table as it was.
\<close>

theorem load_line_stores_record:
  assumes "good_line sz l" and "int sz \<le> INT_MAX" and "f_rest f = l @ NL # s" and "plenty bm"
    and "1025 \<le> length tmp" and "kv_rep m t bs" and "\<not> fails m (nextblock m)" and "ht_size t < INT_MAX"
  shows "\<exists>bm' tmp' m' t' bs'. kv_rep m' t' bs' \<and>
     (let d = line_kv col l; st = (bm', m', t', f\<lparr>f_rest := s\<rparr>, tmp') in
      if kv_name d \<in> dom (tbl_map kv_name bs)
      then load_line sz col (bm, m, t, f, tmp) = Some (Some 1, st) \<and> bs' = bs
      else load_line sz col (bm, m, t, f, tmp) = Some (None, st) \<and>
           tbl_map kv_name bs' = (tbl_map kv_name bs)(kv_name d \<mapsto> d))"
proof -
  from load_line_fields [OF assms(1,3,4,5,2), of col m t] obtain bm' tmp' a where
    ll: "cells bm' a \<noteq> None" "load_line sz col (bm, m, t, f, tmp) = do {
       (r, t1, m1) \<leftarrow> chtbl_insert_kv m t (line_kv col l);
       if r \<noteq> 0 then Some (Some 1, (bm', m1, t1, f\<lparr>f_rest := s\<rparr>, tmp'))
       else do {
         bm5 \<leftarrow> mem_free bm' (Ptr a);
         Some (None, (bm5, m1, t1, f\<lparr>f_rest := s\<rparr>, tmp'))
       }
     }"
    by blast
  from kv_insert [OF assms(6,7,8), of "line_kv col l"] obtain r t' m' bs' where
    "chtbl_insert_kv m t (line_kv col l) = Some (r, t', m')" "kv_rep m' t' bs'"
     "if kv_name (line_kv col l) \<in> dom (tbl_map kv_name bs) then r = 1 \<and> t' = t \<and> m' = m \<and> bs' = bs
      else r = 0 \<and> tbl_map kv_name bs' = (tbl_map kv_name bs)(kv_name (line_kv col l) \<mapsto> line_kv col l)"
    by blast
  then show ?thesis
    using ll by (cases "kv_name (line_kv col l) \<in> dom (tbl_map kv_name bs)") (auto simp: Let_def)
qed

text \<open>
  Neither loader can return 0. The loop tests \<^verbatim>\<open>feof\<close> before it reads, so its last turn
  sees an empty or unterminated line, in which the field loop searches a newline that
  is not there: it reads uninitialised memory or does not end. Every call that returns with an
  opened file and an initialised table returns 1.
\<close>

theorem loaders_never_return_0:
  assumes "\<not> f_eof f" and "mem_wf bm"
  shows "create_icon_hash (Some f) alloc bm m h \<noteq> Some (0, r) \<and>
    create_setitem_hash (Some f) alloc bm m h effect \<noteq> Some (0, r)"
  using assms
  by (auto simp: create_icon_hash_def create_setitem_hash_def bind_eq_Some
      split: prod.splits if_splits dest!: load_loop_not_0)

section \<open>Instances\<close>

text \<open>An allocator that never fails, an empty table, and a file of one line with three fields.\<close>

definition ex_m0 :: "'a mem" where "ex_m0 = empty_mem (\<lambda>_. False)"

definition ex_kvt :: kvtbl where
  "ex_kvt = snd (chtbl_init_kv (Some (\<lambda>_. list_zero)) chtbl_zero PRIME_TBLSIZ hashpjw match_sweet_list_kv FREE)"

definition ex_line :: string where
  "ex_line = [CHR ''k'', TAB, CHR ''x'', TAB, CHR ''v'']"

definition ex_file :: FILE where
  "ex_file = \<lparr>f_rest = ex_line @ [NL], f_eof = False\<rparr>"

lemma ex_m0_plenty: "plenty ex_m0" "mem_wf ex_m0" "\<not> fails ex_m0 k"
  by (simp_all add: ex_m0_def plenty_def empty_mem_def mem_wf_def)

lemma ex_kvt_init:
  "chtbl_init_kv (Some (\<lambda>_. list_zero)) chtbl_zero PRIME_TBLSIZ hashpjw match_sweet_list_kv FREE = (0, ex_kvt)"
  by (simp add: chtbl_init_kv_def ex_kvt_def)

lemma ex_kvt_rep: "kv_rep ex_m0 ex_kvt (replicate 1024 [])" "ht_size ex_kvt = 0"
  using chtbl_init_rep [of PRIME_TBLSIZ ex_m0 "\<lambda>_. list_zero" chtbl_zero hashpjw match_sweet_list_kv
      FREE kv_key kv_name] ex_kvt_init ex_m0_plenty(2)
  by (auto simp: chtbl_init_kv_eq PRIME_TBLSIZ_def tbl_rep_def)

lemma ex_line_eq: "ex_line = join_tab [''k'', ''x'', ''v'']"
  by (simp add: ex_line_def)

lemma ex_field_char: "field_char (CHR ''k'')" "field_char (CHR ''x'')" "field_char (CHR ''v'')"
  by (simp_all add: field_char_def isspace_def TAB_def NL_def)

lemma ex_line_split: "split_fields ex_line = [''k'', ''x'', ''v'']"
  unfolding ex_line_eq by (rule split_join) (simp_all add: ex_field_char)

theorem kv_table_first_wins_witness:
  "\<exists>t' m'. insert_kvs ex_m0 ex_kvt
       [\<lparr>kv_key = ''a'', kv_value = Some ''1''\<rparr>, \<lparr>kv_key = ''a'', kv_value = Some ''2''\<rparr>] = Some (t', m') \<and>
     chtbl_find_kv m' t' \<lparr>kv_key = ''a'', kv_value = None\<rparr> = Some \<lparr>kv_key = ''a'', kv_value = Some ''1''\<rparr>"
proof -
  let ?ds = "[\<lparr>kv_key = ''a'', kv_value = Some ''1''\<rparr>, \<lparr>kv_key = ''a'', kv_value = Some ''2''\<rparr>]"
  have len: "int (length ?ds) \<le> INT_MAX"
    by (simp add: INT_MAX_def)
  have "\<exists>t' m'. insert_kvs ex_m0 ex_kvt ?ds = Some (t', m') \<and>
     (\<forall>q. chtbl_find_kv m' t' q =
        Some (case find (\<lambda>d. strcmp (kv_key d) (kv_key q) = 0) ?ds of Some d \<Rightarrow> d | None \<Rightarrow> q))"
    using kv_table_first_wins [OF ex_m0_plenty(2) allI [OF ex_m0_plenty(3)] len ex_kvt_init] by blast
  then show ?thesis
    by (elim exE conjE) (auto dest: spec [of _ "\<lparr>kv_key = ''a'', kv_value = None\<rparr>"])
qed

theorem kv_fields_reads_joined_fields_witness:
  "\<exists>bm' tmp'. kv_fields 2 (Ptr 0)
     \<lparr>cells = [0 \<mapsto> map Some (ex_line @ [NL]) @ [Some NUL]], nextblock = 1, fails = \<lambda>_. False\<rparr>
     (uninit 1025) 0 None None = Some (Some ''k'', Some ''v'', bm', tmp')"
  using kv_fields_reads_joined_fields
    [of "\<lparr>cells = [0 \<mapsto> map Some (ex_line @ [NL]) @ [Some NUL]], nextblock = 1, fails = \<lambda>_. False\<rparr>"
       0 "map Some (ex_line @ [NL]) @ [Some NUL]" "[''k'', ''x'', ''v'']" "uninit 1025" 2]
  by (simp add: holds_def ex_line_eq ex_field_char plenty_def mem_wf_def INT_MAX_def NUL_def)

theorem load_line_stores_record_witness:
  "\<exists>bm' tmp' m' t' bs'. load_line 1024 2 (ex_m0, ex_m0, ex_kvt, ex_file, uninit 1025) =
      Some (None, (bm', m', t', \<lparr>f_rest = [], f_eof = False\<rparr>, tmp')) \<and>
    tbl_map kv_name bs' = [''k'' \<mapsto> \<lparr>kv_key = ''k'', kv_value = Some ''v''\<rparr>]"
proof -
  have g: "good_line 1024 ex_line"
    unfolding good_line_def ex_line_split by (simp add: ex_line_def NUL_def NL_def TAB_def)
  have d: "line_kv 2 ex_line = \<lparr>kv_key = ''k'', kv_value = Some ''v''\<rparr>"
    by (simp add: line_kv_def ex_line_split pick_def)
  show ?thesis
    using load_line_stores_record [OF g _ _ ex_m0_plenty(1) _ ex_kvt_rep(1) ex_m0_plenty(3),
        of ex_file "[]" "uninit 1025" 2]
    by (fastforce simp: ex_file_def INT_MAX_def ex_kvt_rep(2) Let_def d NUL_def simp del: replicate.simps)
qed

theorem loaders_never_return_0_witness:
  "\<forall>r. create_icon_hash (Some ex_file) (Some (\<lambda>_. list_zero)) ex_m0 ex_m0 chtbl_zero \<noteq> Some (0, r)"
  using loaders_never_return_0 [of ex_file ex_m0 "Some (\<lambda>_. list_zero)" ex_m0 chtbl_zero]
  by (simp add: ex_file_def ex_m0_plenty)

end
