(* ===== verification/Bns_Util.thy ===== *)
theory Bns_Util
  imports C_Strings
begin

text \<open>
  The string helpers of \<^verbatim>\<open>lib/app/bns/bns_util.c\<close> (their first versions are under
  \<^verbatim>\<open>lib/util\<close>): the tokenizer \<^verbatim>\<open>strntok\<close> with its global \<^verbatim>\<open>__strntok\<close>, \<^verbatim>\<open>str_tolower\<close> and
  \<^verbatim>\<open>str_delchar\<close>. Each returns a pointer to a static array of 1024 characters that it fills
  without a bound check; writing beyond the array is undefined.
\<close>

section \<open>Operations\<close>

abbreviation RES_SIZE :: nat where "RES_SIZE \<equiv> 1024"

text \<open>The static array after \<^verbatim>\<open>memset\<close> and the writes of \<open>out\<close>.\<close>

definition res_buf :: "string \<Rightarrow> cbuf" where
  "res_buf out = map Some out @ replicate (RES_SIZE - length out) (Some NUL)"

definition put_char :: "string \<Rightarrow> char \<Rightarrow> string option" where
  "put_char out c = (if length out < RES_SIZE then Some (out @ [c]) else None)"

definition c_hd :: "string \<Rightarrow> char" where
  "c_hd s = (case s of [] \<Rightarrow> NUL | c # _ \<Rightarrow> c)"

text \<open>
  The loop of \<^verbatim>\<open>strntok\<close> from \<open>s1\<close> on, with the counter \<open>i\<close> and the characters already
  written. The result is what was written and the new value of \<^verbatim>\<open>__strntok\<close>, \<^const>\<open>None\<close>
  being NULL.
\<close>

fun strntok_loop :: "string \<Rightarrow> int \<Rightarrow> int \<Rightarrow> string \<Rightarrow> string \<Rightarrow> (string \<times> string option) option" where
  "strntok_loop s2 n i out [] = Some (out, None)"
| "strntok_loop s2 n i out (c # s1) =
     (if c = NUL then Some (out, None)
      else if i = n then Some (out, Some (c # s1))
      else if c = c_hd s2 \<or> i > 0 then
        (if i = 0 \<and> c_hd s1 \<noteq> c_hd (tl s2) \<and> n > 1
         then do { out1 \<leftarrow> put_char out c; strntok_loop s2 n i out1 s1 }
         else strntok_loop s2 n (i + 1) out s1)
      else do { out1 \<leftarrow> put_char out c; strntok_loop s2 n i out1 s1 })"

text \<open>
  \<^verbatim>\<open>strntok\<close>: the returned pointer and \<^verbatim>\<open>__strntok\<close>. The array \<open>tmp[n+1]\<close> asks for
  \<open>n \<ge> 0\<close>.
\<close>

definition strntok ::
  "string option \<Rightarrow> string \<Rightarrow> int \<Rightarrow> string option \<Rightarrow> (cbuf option \<times> string option) option" where
  "strntok s1 s2 n old =
     (if n < 0 \<or> n \<ge> INT_MAX then None
      else (case s1 of
              None \<Rightarrow> Some (None, old)
            | Some s \<Rightarrow> do {
                (out, rest) \<leftarrow> strntok_loop s2 n 0 [] s;
                Some (Some (res_buf out), rest)
              }))"

text \<open>
  The way the programs use it: \<^verbatim>\<open>p = strntok(s, d, n); while (p != NULL) { ...; p = strntok(__strntok, d, n); }\<close>
  gives the tokens one after the other.
\<close>

partial_function (option) strntok_all :: "string \<Rightarrow> int \<Rightarrow> string option \<Rightarrow> string list option" where
  "strntok_all d n s =
     Option.bind (strntok s d n None) (\<lambda>(p, rest).
       case p of
         None \<Rightarrow> Some []
       | Some buf \<Rightarrow>
           Option.bind (cstr buf) (\<lambda>t.
           Option.bind (strntok_all d n rest) (\<lambda>ts. Some (t # ts))))"

fun str_tolower_loop :: "string \<Rightarrow> string \<Rightarrow> string option" where
  "str_tolower_loop out [] = Some out"
| "str_tolower_loop out (c # s1) =
     (if c = NUL then Some out
      else do { out1 \<leftarrow> put_char out (c_tolower c); str_tolower_loop out1 s1 })"

definition str_tolower :: "string \<Rightarrow> cbuf option" where
  "str_tolower s1 = map_option res_buf (str_tolower_loop [] s1)"

fun str_delchar_loop :: "string \<Rightarrow> string \<Rightarrow> string \<Rightarrow> string option" where
  "str_delchar_loop s2 out [] = Some out"
| "str_delchar_loop s2 out (c # s1) =
     (if c = NUL then Some out
      else if c = c_hd s2 then str_delchar_loop s2 out s1
      else do { out1 \<leftarrow> put_char out c; str_delchar_loop s2 out1 s1 })"

definition str_delchar :: "string \<Rightarrow> string \<Rightarrow> cbuf option" where
  "str_delchar s1 s2 = map_option res_buf (str_delchar_loop s2 [] s1)"

section \<open>The static array\<close>

lemma cstr_res_buf:
  assumes "NUL \<notin> set out" and "length out < RES_SIZE"
  shows "cstr (res_buf out) = Some out"
proof -
  have "replicate (RES_SIZE - length out) (Some NUL) =
      Some NUL # replicate (RES_SIZE - length out - 1) (Some NUL)"
    using assms(2) by (cases "RES_SIZE - length out") auto
  then show ?thesis
    using assms(1) by (simp add: res_buf_def)
qed

lemma put_char_ok: "length out < RES_SIZE \<Longrightarrow> put_char out c = Some (out @ [c])"
  by (simp add: put_char_def)

section \<open>The tokenizer\<close>

text \<open>\<open>a\<close> followed by \<open>b\<close> does not occur in the string.\<close>

fun no_pair :: "char \<Rightarrow> char \<Rightarrow> string \<Rightarrow> bool" where
  "no_pair a b (c # d # s) \<longleftrightarrow> \<not> (c = a \<and> d = b) \<and> no_pair a b (d # s)"
| "no_pair a b _ \<longleftrightarrow> True"

lemma strntok_skip:
  assumes "NUL \<notin> set xs" and "0 < i" and "i + int (length xs) = n"
  shows "strntok_loop s2 n i out (xs @ rest) = strntok_loop s2 n n out rest"
  using assms by (induction xs arbitrary: i) auto

lemma strntok_at_end:
  assumes "NUL \<notin> set rest"
  shows "strntok_loop s2 n n out rest = Some (out, if rest = [] then None else Some rest)"
  using assms by (cases rest) auto

lemma strntok_copy:
  assumes "no_pair a b (pre @ [c])" and "NUL \<notin> set pre" and "1 < n"
    and "length out + length pre \<le> RES_SIZE"
    and "c_hd s1 = c"
  shows "strntok_loop (a # b # ds) n 0 out (pre @ s1) = strntok_loop (a # b # ds) n 0 (out @ pre) s1"
  using assms
proof (induction pre arbitrary: out)
  case (Cons d pre)
  have hd: "c_hd (pre @ s1) = c_hd (pre @ [c])"
    using Cons.prems(5) by (cases pre) (auto simp: c_hd_def)
  have "\<not> (d = a \<and> c_hd (pre @ s1) = b)" "no_pair a b (pre @ [c])"
    using Cons.prems(1) unfolding hd by (cases pre; auto simp: c_hd_def)+
  then show ?case
    using Cons.IH [of "out @ [d]"] Cons.prems by (auto simp: c_hd_def [of "_ # _"] put_char_ok)
qed simp

lemma strntok_hit:
  assumes "no_pair a b (pre @ [a])" and "NUL \<notin> set (pre @ a # b # xs @ rest)" and "length pre \<le> RES_SIZE"
    and "n = int (length xs) + 2"
  shows "strntok_loop (a # b # ds) n 0 [] (pre @ a # b # xs @ rest) =
    Some (pre, if rest = [] then None else Some rest)"
proof -
  have "strntok_loop (a # b # ds) n 0 [] (pre @ a # b # xs @ rest) =
      strntok_loop (a # b # ds) n 0 pre (a # b # xs @ rest)"
    using strntok_copy [OF assms(1), of n "[]" "a # b # xs @ rest" ds] assms(2,3,4)
    by (simp add: c_hd_def)
  also have "\<dots> = strntok_loop (a # b # ds) n 1 pre ((b # xs) @ rest)"
    using assms(2,4) by (auto simp: c_hd_def)
  also have "\<dots> = strntok_loop (a # b # ds) n n pre rest"
    using assms(2,4) by (intro strntok_skip) auto
  also have "\<dots> = Some (pre, if rest = [] then None else Some rest)"
    using assms(2) by (intro strntok_at_end) simp
  finally show ?thesis .
qed

lemma strntok_miss:
  assumes "no_pair a b s" and "NUL \<notin> set s" and "length s \<le> RES_SIZE" and "1 < n" and "b \<noteq> NUL"
  shows "strntok_loop (a # b # ds) n 0 [] s = Some (s, None)"
proof -
  have "no_pair a b (s @ [NUL])"
    using assms(1,5) by (induction a b s rule: no_pair.induct) auto
  then show ?thesis
    using strntok_copy [of a b s NUL n "[]" "[]" ds] assms by (simp add: c_hd_def)
qed

fun join_by :: "string \<Rightarrow> string list \<Rightarrow> string" where
  "join_by d [] = []"
| "join_by d [t] = t"
| "join_by d (t # u # ts) = t @ d @ join_by d (u # ts)"

definition good_token :: "char \<Rightarrow> char \<Rightarrow> string \<Rightarrow> bool" where
  "good_token a b t \<longleftrightarrow> no_pair a b (t @ [a]) \<and> NUL \<notin> set t \<and> length t < RES_SIZE"

lemma no_pair_append: "no_pair a b (s @ [c]) \<Longrightarrow> no_pair a b s"
  by (induction a b s rule: no_pair.induct) (auto simp: neq_Nil_conv)

lemma strntok_all_None [simp]: "0 \<le> n \<Longrightarrow> n < INT_MAX \<Longrightarrow> strntok_all d n None = Some []"
  by (simp add: strntok_all.simps [of d n None] strntok_def)

lemma join_by_NUL: "NUL \<notin> set d \<Longrightarrow> \<forall>t\<in>set ts. NUL \<notin> set t \<Longrightarrow> NUL \<notin> set (join_by d ts)"
  by (induction d ts rule: join_by.induct) auto

lemma join_by_nonempty: "ts \<noteq> [] \<Longrightarrow> last ts \<noteq> [] \<Longrightarrow> join_by d ts \<noteq> []"
  by (induction d ts rule: join_by.induct) auto

section \<open>Properties\<close>

text \<open>
  \<^verbatim>\<open>strntok\<close> with a delimiter of at least two characters cuts at the first place where the
  first two characters of the delimiter occur and resumes \<open>n\<close> characters further on. The
  characters \<open>xs\<close> in between are skipped whatever they are: the rest of the delimiter is
  never compared.
\<close>

theorem strntok_cuts_at_first_pair:
  assumes "good_token a b pre" and "NUL \<notin> set (a # b # xs @ rest)" and "n = int (length xs) + 2"
    and "n < INT_MAX"
  shows "\<exists>buf. strntok (Some (pre @ a # b # xs @ rest)) (a # b # ds) n old =
      Some (Some buf, if rest = [] then None else Some rest) \<and> cstr buf = Some pre"
  using strntok_hit [of a b pre xs rest n ds] assms
  by (auto simp: strntok_def good_token_def cstr_res_buf)

text \<open>
  Tokens that do not contain the delimiter, joined by it, come back from repeated calls of
  \<^verbatim>\<open>strntok\<close>, provided the last one is not empty.
\<close>

theorem strntok_all_splits_joined_tokens:
  assumes "\<forall>t\<in>set ts. good_token a b t" and "ts \<noteq> []" and "last ts \<noteq> []"
    and "NUL \<notin> set (a # b # ds)" and "int (length (a # b # ds)) < INT_MAX"
  shows "strntok_all (a # b # ds) (int (length (a # b # ds))) (Some (join_by (a # b # ds) ts)) = Some ts"
  using assms(1-3)
proof (induction "a # b # ds" ts rule: join_by.induct)
  case (2 t)
  then have "no_pair a b t"
    by (auto simp: good_token_def intro: no_pair_append)
  then have "strntok_loop (a # b # ds) (int (length (a # b # ds))) 0 [] t = Some (t, None)"
    using 2 assms(4) by (intro strntok_miss) (auto simp: good_token_def)
  then show ?case
    using 2 assms(5) by (simp add: strntok_all.simps [of _ _ "Some t"] strntok_def good_token_def cstr_res_buf)
next
  case (3 t u ts)
  let ?d = "a # b # ds" and ?r = "join_by (a # b # ds) (u # ts)"
  have "strntok_loop ?d (int (length ?d)) 0 [] (t @ a # b # ds @ ?r) =
      Some (t, if ?r = [] then None else Some ?r)"
    using 3(2) assms(4) join_by_NUL [of ?d "u # ts"]
    by (intro strntok_hit) (auto simp: good_token_def)
  moreover have "?r \<noteq> []"
    using 3(4) by (intro join_by_nonempty) auto
  moreover have "strntok_all ?d (int (length ?d)) (Some ?r) = Some (u # ts)"
    using 3 by auto
  ultimately show ?case
    using 3(2) assms(5)
    by (simp add: strntok_all.simps [of _ _ "Some (t @ _)"] strntok_def good_token_def cstr_res_buf)
qed simp

lemma str_tolower_loop_eq:
  "NUL \<notin> set s \<Longrightarrow> str_tolower_loop out s =
   (if s = [] \<or> length out + length s \<le> RES_SIZE then Some (out @ map c_tolower s) else None)"
  by (induction s arbitrary: out) (auto simp: put_char_def)

lemma str_delchar_loop_eq:
  "NUL \<notin> set s \<Longrightarrow> str_delchar_loop s2 out s =
   (let t = filter (\<lambda>c. c \<noteq> c_hd s2) s in
    if t = [] \<or> length out + length t \<le> RES_SIZE then Some (out @ t) else None)"
  by (induction s arbitrary: out) (auto simp: put_char_def Let_def)

lemma c_tolower_NUL: "c \<noteq> NUL \<Longrightarrow> c_tolower c \<noteq> NUL"
proof -
  have "NUL \<noteq> char_of (of_char c + 32 :: nat)" if "65 \<le> (of_char c :: nat)" "(of_char c :: nat) \<le> 90"
  proof
    assume "NUL = char_of (of_char c + 32 :: nat)"
    then have "of_char NUL = (of_char (char_of (of_char c + 32 :: nat) :: char) :: nat)"
      by simp
    then show False
      using that by (simp add: NUL_def)
  qed
  then show "c \<noteq> NUL \<Longrightarrow> c_tolower c \<noteq> NUL"
    by (auto simp: c_tolower_def)
qed

text \<open>
  \<^verbatim>\<open>str_tolower\<close> and \<^verbatim>\<open>str_delchar\<close> return the lower-case string and the string without the
  first character of their second argument, as long as the result has fewer than 1024
  characters. A longer result overruns the static array.
\<close>

theorem str_helpers_within_1023:
  assumes "NUL \<notin> set s"
  shows "(if length s < RES_SIZE
      then \<exists>b. str_tolower s = Some b \<and> cstr b = Some (map c_tolower s)
      else length s = RES_SIZE \<or> str_tolower s = None) \<and>
    (let t = filter (\<lambda>c. c \<noteq> c_hd s2) s in
     if length t < RES_SIZE then \<exists>b. str_delchar s s2 = Some b \<and> cstr b = Some t
     else length t = RES_SIZE \<or> str_delchar s s2 = None)"
proof -
  have "NUL \<notin> set (map c_tolower s)"
  proof
    assume "NUL \<in> set (map c_tolower s)"
    then obtain c where "c \<in> set s" "c_tolower c = NUL"
      by auto
    then show False
      using c_tolower_NUL [of c] assms by auto
  qed
  then show ?thesis
    using assms
    by (auto simp: str_tolower_def str_delchar_def str_tolower_loop_eq str_delchar_loop_eq Let_def
        intro!: cstr_res_buf)
qed

section \<open>Instances\<close>

theorem strntok_cuts_at_first_pair_witness:
  "\<exists>buf. strntok (Some ''ab<bXXXcd'') ''<br/>'' 5 None = Some (Some buf, Some ''cd'') \<and> cstr buf = Some ''ab''"
  using strntok_cuts_at_first_pair [of "CHR ''<''" "CHR ''b''" "''ab''" "''XXX''" "''cd''" 5 "''r/>''" None]
  by (simp add: good_token_def NUL_def INT_MAX_def)

theorem strntok_all_splits_joined_tokens_witness:
  "strntok_all ''<br/>'' 5 (Some ''one<br/>two<br/>three'') = Some [''one'', ''two'', ''three'']"
  using strntok_all_splits_joined_tokens
    [of "[''one'', ''two'', ''three'']" "CHR ''<''" "CHR ''b''" "''r/>''"]
  by (simp add: good_token_def NUL_def INT_MAX_def)

theorem str_helpers_within_1023_witness:
  "\<exists>b. str_tolower ''AbC'' = Some b \<and> cstr b = Some ''abc''"
proof -
  have "map c_tolower ''AbC'' = ''abc''" "NUL \<notin> set ''AbC''" "length ''AbC'' < RES_SIZE"
    by code_simp+
  then show ?thesis
    using str_helpers_within_1023 [of "''AbC''" "''x''"] by simp
qed

end
