(* ===== verification/Bns_Lines.thy ===== *)
theory Bns_Lines
  imports Bns_Hash Bns_Util
begin

text \<open>
  What the programs \<^verbatim>\<open>weapon_info.c\<close>, \<^verbatim>\<open>weapon_handle.c\<close>, \<^verbatim>\<open>real_weapon.c\<close>, \<^verbatim>\<open>gem_handle.c\<close>, \<^verbatim>\<open>real_gem.c\<close> and \<^verbatim>\<open>gem_effect.c\<close> of \<^verbatim>\<open>lib/app/bns\<close>
  have in common: they read a table line by line, take the names of the columns from the first line, split every other
  line into fields, and from the field that selects a line on print a text for every field. The two programs
  that need nothing else, \<^verbatim>\<open>gem_handle.c\<close> and \<^verbatim>\<open>weapon_info.c\<close>, are here; the others are in \<^verbatim>\<open>Bns_Items\<close>. The module
  \<^verbatim>\<open>bns_regex.c\<close> is modelled over a parameter for the POSIX functions \<^verbatim>\<open>regcomp\<close> and \<^verbatim>\<open>regexec\<close>.
\<close>

section \<open>Regular expressions and numbers\<close>

text \<open>What \<^verbatim>\<open>regcomp\<close> and \<^verbatim>\<open>regexec\<close> give for a pattern and a text: an error, no match, or the offsets of the groups.\<close>

datatype regexec = Bad_pattern | No_match | Match_error | Groups "(nat \<times> nat) list"

type_synonym regex = "string \<Rightarrow> string \<Rightarrow> regexec"

text \<open>POSIX: group 0 is the whole match, and the offsets are those of a part of the text.\<close>

definition regex_laws :: "regex \<Rightarrow> bool" where
  "regex_laws re \<longleftrightarrow> (\<forall>pat src gs. re pat src = Groups gs \<longrightarrow> gs \<noteq> [] \<and> (\<forall>(so, eo) \<in> set gs. so \<le> eo \<and> eo \<le> length src))"

text \<open>The loop that copies every group to the same static array of 1024 characters.\<close>

fun copy_groups :: "string \<Rightarrow> (nat \<times> nat) list \<Rightarrow> string \<Rightarrow> string option" where
  "copy_groups src [] matched = Some matched"
| "copy_groups src ((so, eo) # gs) matched =
     (if so \<le> eo \<and> eo \<le> length src \<and> eo - so < RES_SIZE then copy_groups src gs (take (eo - so) (drop so src)) else None)"

text \<open>The inner \<^const>\<open>None\<close> is the null pointer. There is room for the offsets of ten groups.\<close>

definition filter_regex :: "regex \<Rightarrow> string \<Rightarrow> string \<Rightarrow> string option option" where
  "filter_regex re pattern src =
     (case re pattern src of
        Bad_pattern \<Rightarrow> Some None
      | No_match \<Rightarrow> Some None
      | Match_error \<Rightarrow> Some None
      | Groups gs \<Rightarrow> if length gs \<le> 10 then map_option Some (copy_groups src gs []) else None)"

text \<open>\<^verbatim>\<open>atoi\<close>, undefined when the number is no \<^verbatim>\<open>int\<close>.\<close>

definition is_digit :: "char \<Rightarrow> bool" where
  "is_digit c \<longleftrightarrow> 48 \<le> (of_char c :: nat) \<and> (of_char c :: nat) \<le> 57"

fun atoi_loop :: "int \<Rightarrow> string \<Rightarrow> int" where
  "atoi_loop v [] = v"
| "atoi_loop v (c # s) = (if is_digit c then atoi_loop (10 * v + (of_char c - 48)) s else v)"

definition atoi :: "string \<Rightarrow> int option" where
  "atoi s =
     (case dropWhile isspace s of
        [] \<Rightarrow> Some 0
      | c # t \<Rightarrow> c_int (if c = CHR ''-'' then - atoi_loop 0 t else if c = CHR ''+'' then atoi_loop 0 t else atoi_loop 0 (c # t)))"

section \<open>The common loop\<close>

definition LINE_BUF :: nat where "LINE_BUF = 8192 * 2"
definition TITLE_BUF :: nat where "TITLE_BUF = 8192"

text \<open>
  The variables of the \<^verbatim>\<open>main\<close> functions: the array of column names, with \<^const>\<open>None\<close> for an element that was never written, \<^verbatim>\<open>block\<close>, \<^verbatim>\<open>tmp_id\<close>,
  \<^verbatim>\<open>atk_min\<close>, \<^verbatim>\<open>loc_2\<close> and the array \<^verbatim>\<open>ptr3\<close>, whose elements are unwritten, null or a string. \<open>it_out\<close> is what was printed; \<open>it_fail\<close> tells
  which calls of \<^verbatim>\<open>malloc\<close> fail, and \<open>it_allocs\<close> counts the calls.
\<close>

record item =
  it_out :: string
  it_title :: "string option list"
  it_block :: bool
  it_id :: int
  it_atk_min :: "string option"
  it_loc_2 :: nat
  it_ptr3 :: "string option option list"
  it_fail :: "nat \<Rightarrow> bool"
  it_allocs :: nat

definition item_new :: "nat \<Rightarrow> (nat \<Rightarrow> bool) \<Rightarrow> item" where
  "item_new k failing = \<lparr>it_out = [], it_title = replicate k None, it_block = False, it_id = 0, it_atk_min = None, it_loc_2 = 0,
     it_ptr3 = replicate 6 None, it_fail = failing, it_allocs = 0\<rparr>"

definition alloc :: "item \<Rightarrow> bool \<times> item" where
  "alloc st = (\<not> it_fail st (it_allocs st), st\<lparr>it_allocs := Suc (it_allocs st)\<rparr>)"

text \<open>What is done with a field: its number and text, and the variables. \<^const>\<open>Some\<close> in the first component is a \<^verbatim>\<open>return\<close> from \<^verbatim>\<open>main\<close>.\<close>

type_synonym act = "nat \<Rightarrow> string \<Rightarrow> item \<Rightarrow> (int option \<times> item) option"

definition say :: "string \<Rightarrow> item \<Rightarrow> item" where
  "say t st = st\<lparr>it_out := it_out st @ t\<rparr>"

text \<open>The first line: \<^verbatim>\<open>title[n] = malloc(strlen(tmp_title)+1); strcpy(title[n],tmp_title);\<close>\<close>

definition title_field :: act where
  "title_field n s st =
     (let (ok, st) = alloc st in
      if ok \<and> n < length (it_title st) then Some (None, st\<lparr>it_title := (it_title st)[n := Some s]\<rparr>) else None)"

text \<open>Every other line: field 0 selects it, and from then on the \<^verbatim>\<open>switch\<close> is executed for every field.\<close>

definition data_field :: "(string \<Rightarrow> bool option) \<Rightarrow> act \<Rightarrow> act" where
  "data_field sel switch n s st = do {
     b \<leftarrow> (if n = 0 then sel s else Some False);
     let st = (if b then st\<lparr>it_block := True\<rparr> else st);
     if it_block st then switch n s st else Some (None, st)
   }"

text \<open>\<^verbatim>\<open>atoi(tmp_title) >= atoi(argv[2]) && atoi(tmp_title) <= atoi(argv[3])\<close>\<close>

definition in_range :: "string \<Rightarrow> string \<Rightarrow> string \<Rightarrow> bool option" where
  "in_range lo hi s = do {
     v \<leftarrow> atoi s;
     a \<leftarrow> atoi lo;
     if v \<ge> a then do { b \<leftarrow> atoi hi; Some (v \<le> b) } else Some False
   }"

text \<open>
  The loop over the fields of a line, in the array \<open>b\<close>. A loop that goes on for ever overflows \<open>n\<close>: it gives \<^const>\<open>None\<close> like any other
  undefined behaviour.
\<close>

partial_function (option) fields_loop :: "act \<Rightarrow> cbuf \<Rightarrow> cbuf \<Rightarrow> nat \<Rightarrow> item \<Rightarrow> (int option \<times> cbuf \<times> item) option" where
  "fields_loop act b tmp n st =
     Option.bind (buf_head b) (\<lambda>c.
     if c = NL then Some (None, tmp, st)
     else
       Option.bind (next_field (TITLE_BUF + 1) b tmp) (\<lambda>(b1, tmp1).
       Option.bind (cstr tmp1) (\<lambda>s.
       Option.bind (act n s st) (\<lambda>(r, st1).
       case r of Some v \<Rightarrow> Some (Some v, tmp1, st1) | None \<Rightarrow> fields_loop act b1 tmp1 (Suc n) st1))))"

definition line_start :: "item \<Rightarrow> item" where
  "line_start st = st\<lparr>it_block := False, it_atk_min := None, it_id := 0\<rparr>"

text \<open>One turn of the loop over the lines.\<close>

definition item_turn :: "act \<Rightarrow> nat \<Rightarrow> FILE \<times> cbuf \<times> item \<Rightarrow> (int option \<times> FILE \<times> cbuf \<times> item) option" where
  "item_turn data line_num = (\<lambda>(f, tmp, st). do {
     line0 \<leftarrow> memset0 (uninit (LINE_BUF + 1)) (LINE_BUF + 1);
     (line, f1) \<leftarrow> fgets line0 LINE_BUF f;
     let (ok, st1) = alloc st;
     s \<leftarrow> cstr line;
     b \<leftarrow> (if ok then put_str (uninit (LINE_BUF + 1)) s else None);
     (r, tmp1, st2) \<leftarrow> (if line_num = 1 then fields_loop title_field b tmp 0 (st1\<lparr>it_block := False\<rparr>)
                      else fields_loop data b tmp 0 (line_start st1));
     Some (r, f1, tmp1, st2)
   })"

text \<open>
  How \<^verbatim>\<open>main\<close> ends: with a value, or in undefined behaviour; then the state is that before the turn. \<open>Finished\<close> is the end of the
  loop, after which all elements of \<^verbatim>\<open>title\<close> are freed.
\<close>

datatype status = Finished | Returned int | Undefined

partial_function (option) item_loop :: "act \<Rightarrow> nat \<Rightarrow> FILE \<times> cbuf \<times> item \<Rightarrow> (status \<times> item) option" where
  "item_loop data line_num x =
     (if f_eof (fst x) then Some (Finished, snd (snd x))
      else case item_turn data line_num x of
        None \<Rightarrow> Some (Undefined, snd (snd x))
      | Some (r, x1) \<Rightarrow>
          (case r of Some v \<Rightarrow> Some (Returned v, snd (snd x1)) | None \<Rightarrow> item_loop data (Suc line_num) x1))"

definition item_main :: "act \<Rightarrow> nat \<Rightarrow> (nat \<Rightarrow> bool) \<Rightarrow> FILE \<Rightarrow> (status \<times> item) option" where
  "item_main data k failing f = do {
     (r, st) \<leftarrow> item_loop data 1 (f, uninit (TITLE_BUF + 1), item_new k failing);
     Some (if r = Finished then if None \<in> set (it_title st) then Undefined else Returned 0 else r, st)
   }"

text \<open>
  The start of the programs: the number of arguments and the opening of the table, \<^const>\<open>None\<close> when \<^verbatim>\<open>fopen\<close> fails. What is printed to
  the standard error is left out.
\<close>

definition with_file :: "bool \<Rightarrow> FILE option \<Rightarrow> item \<Rightarrow> (FILE \<Rightarrow> (status \<times> item) option) \<Rightarrow> (status \<times> item) option" where
  "with_file args_ok fopen st main =
     (if \<not> args_ok then Some (Returned 1, st)
      else case fopen of None \<Rightarrow> Some (Returned (-1), say ''error!'' st) | Some f \<Rightarrow> main f)"

text \<open>
  The call of \<^verbatim>\<open>create_icon_hash\<close>, whose result is not looked at. \<open>icons\<close> holds the file of the icons and the outcome of the allocation of the
  buckets. Before the call the table is not initialised.
\<close>

type_synonym icons = "FILE option \<times> (nat \<Rightarrow> List) option \<times> bmem \<times> SweetListKv lmem"
type_synonym kv_table = "SweetListKv lmem \<times> kvtbl"

definition load_icons :: "icons \<Rightarrow> (kv_table \<times> bmem) option" where
  "load_icons = (\<lambda>(file, buckets, bm, m). do {
     (_, t, m1, bm1) \<leftarrow> create_icon_hash file buckets bm m chtbl_zero;
     Some ((m1, t), bm1)
   })"

definition with_icons :: "icons \<Rightarrow> item \<Rightarrow> (kv_table \<times> bmem \<Rightarrow> (status \<times> item) option) \<Rightarrow> (status \<times> item) option" where
  "with_icons icons st main = (case load_icons icons of None \<Rightarrow> Some (Undefined, st) | Some x \<Rightarrow> main x)"

section \<open>Texts\<close>

definition DQ :: string where "DQ = [CHR 0x22]"

definition utf8 :: "nat list \<Rightarrow> string" where
  "utf8 = map char_of"

text \<open>\<^verbatim>\<open>"key":"value",\<close> and \<^verbatim>\<open>"key":value,\<close>\<close>

definition js_str :: "string \<Rightarrow> string \<Rightarrow> string" where
  "js_str k v = DQ @ k @ DQ @ '':'' @ DQ @ v @ DQ @ '',''"

definition js_num :: "string \<Rightarrow> string \<Rightarrow> string" where
  "js_num k v = DQ @ k @ DQ @ '':'' @ v @ '',''"

text \<open>The required level, in Chinese.\<close>

definition k_required_level :: string where
  "k_required_level = utf8 [0xE9, 0x9C, 0x80, 0xE8, 0xA6, 0x81, 0xE7, 0xAD, 0x89, 0xE7, 0xBA, 0xA7]"

section \<open>The program gem_handle\<close>

definition gem_handle_text :: "nat \<Rightarrow> string \<Rightarrow> string" where
  "gem_handle_text n s =
     (if n = 0 then ''{'' @ js_str ''_id'' s
      else if n = 8 then
        (if strcmp s ''gam(1)7'' = 0 then js_str ''game_category'' ''1''
         else if strcmp s ''gan2(8)'' = 0 then js_str ''game_category'' ''2''
         else if strcmp s ''jin3(9)'' = 0 then js_str ''game_category'' ''3''
         else if strcmp s ''son4(10)'' = 0 then js_str ''game_category'' ''4''
         else if strcmp s ''ri5(11)'' = 0 then js_str ''game_category'' ''5''
         else if strcmp s ''gon6(12)'' = 0 then js_str ''game_category'' ''6''
         else if strcmp s ''tae7(13)'' = 0 then js_str ''game_category'' ''7''
         else if strcmp s ''geon8(14)'' = 0 then js_str ''game_category'' ''8''
         else [])
      else if n = 24 then DQ @ ''gear_score'' @ DQ @ '','' @ s @ '',''
      else if n = 25 then js_num k_required_level s
      else if n = 34 then (if strcmp s ''7'' = 0 then js_str ''item_grade'' ''6'' else js_str ''item_grade'' s)
      else if n = 229 then js_str ''name'' s
      else if n = 267 then js_str ''description'' s
      else [])"

definition gem_handle_field :: act where
  "gem_handle_field n s st = Some (None, say (gem_handle_text n s) st)"

definition gem_handle_main :: "string list \<Rightarrow> FILE option \<Rightarrow> (nat \<Rightarrow> bool) \<Rightarrow> (status \<times> item) option" where
  "gem_handle_main argv fopen failing =
     with_file (4 \<le> length argv) fopen (item_new 400 failing)
       (item_main (data_field (in_range (argv ! 2) (argv ! 3)) gem_handle_field) 400 failing)"

section \<open>The program weapon_info\<close>

text \<open>\<^verbatim>\<open>printf("#%d %s: %s\n",n,title[n],tmp_title);\<close>\<close>

definition weapon_info_text :: "nat \<Rightarrow> string \<Rightarrow> string \<Rightarrow> string" where
  "weapon_info_text n t s = ''#'' @ show_nat n @ '' '' @ t @ '': '' @ s @ [NL]"

definition weapon_info_field :: act where
  "weapon_info_field n s st =
     (if n < length (it_title st)
      then (case it_title st ! n of Some t \<Rightarrow> Some (None, say (weapon_info_text n t s) st) | None \<Rightarrow> None)
      else None)"

definition same_id :: "string \<Rightarrow> string \<Rightarrow> bool option" where
  "same_id arg s = do { v \<leftarrow> atoi s; a \<leftarrow> atoi arg; Some (v = a) }"

definition weapon_info_main :: "string list \<Rightarrow> FILE option \<Rightarrow> icons \<Rightarrow> (nat \<Rightarrow> bool) \<Rightarrow> (status \<times> item) option" where
  "weapon_info_main argv fopen icons failing =
     with_file (3 \<le> length argv) fopen (item_new 300 failing)
       (\<lambda>f. with_icons icons (item_new 300 failing)
         (\<lambda>_. item_main (data_field (same_id (argv ! 2)) weapon_info_field) 300 failing f))"

section \<open>Fields and lines\<close>

lemma filter_regex_substring:
  assumes "regex_laws re" and "filter_regex re pattern src = Some (Some m)"
  shows "\<exists>i. m = take (length m) (drop i src) \<and> length m < RES_SIZE"
proof -
  have "\<exists>i. m = take (length m) (drop i src) \<and> length m < RES_SIZE"
    if "copy_groups src gs m0 = Some m" "gs \<noteq> []" for gs m0
    using that
  proof (induction src gs m0 rule: copy_groups.induct)
    case (2 src so eo gs matched)
    then show ?case
      by (cases "gs = []") (auto split: if_splits intro!: exI [of _ so])
  qed simp
  then show ?thesis
    using assms by (auto simp: filter_regex_def regex_laws_def split: regexec.splits if_splits)
qed

text \<open>What a line does to the state: the action for its fields, one after the other.\<close>

fun act_fields :: "act \<Rightarrow> nat \<Rightarrow> string list \<Rightarrow> item \<Rightarrow> (int option \<times> item) option" where
  "act_fields act n [] st = Some (None, st)"
| "act_fields act n (s # ss) st =
     Option.bind (act n s st) (\<lambda>(r, st1). case r of Some v \<Rightarrow> Some (Some v, st1) | None \<Rightarrow> act_fields act (Suc n) ss st1)"

text \<open>A line that fits: without newline and NUL, not too long, and with fields that fit.\<close>

definition item_line :: "string \<Rightarrow> bool" where
  "item_line l \<longleftrightarrow> NL \<notin> set l \<and> NUL \<notin> set l \<and> length l < LINE_BUF - 1 \<and> (\<forall>s \<in> set (split_fields l). length s \<le> TITLE_BUF)"

lemma fields_loop_line:
  assumes "holds b (l @ [NL])" "NL \<notin> set l" "NUL \<notin> set l" "\<forall>s \<in> set (split_fields l). length s \<le> TITLE_BUF"
    "TITLE_BUF + 1 \<le> length tmp"
  shows "\<exists>tmp'. length tmp' = length tmp \<and>
     fields_loop act b tmp n st = map_option (\<lambda>(r, st1). (r, tmp', st1)) (act_fields act n (split_fields l) st)"
  using assms
proof (induction l arbitrary: b tmp n st rule: split_fields.induct)
  case (1 l)
  show ?case
  proof (cases "l = []")
    case True
    then have "buf_head b = Some NL"
      using "1.prems"(1) by (auto simp: holds_def buf_head_def)
    then show ?thesis
      using True by (auto simp: fields_loop.simps [of _ b])
  next
    case False
    let ?f = "takeWhile field_char l" and ?r = "tl (dropWhile field_char l)"
    have fs: "split_fields l = ?f # split_fields ?r"
      using False by (simp add: split_fields.simps [of l])
    then have f: "length ?f < TITLE_BUF + 1"
      using "1.prems"(4) by simp
    obtain b1 t1 where nf: "next_field (TITLE_BUF + 1) b tmp = Some (b1, t1)" "holds b1 (?r @ [NL])"
      "cstr t1 = Some ?f" "length t1 = length tmp"
      using next_field_line [OF "1.prems"(1,2,3,5) f] by blast
    have sub: "NL \<notin> set ?r" "NUL \<notin> set ?r"
      using "1.prems"(2,3) by (auto dest!: in_set_tlD set_dropWhileD)
    obtain c where head: "buf_head b = Some c" "c \<noteq> NL"
      using False "1.prems"(1,2) by (cases l) (auto simp: holds_def buf_head_def)
    have step: "fields_loop act b tmp n st = Option.bind (act n ?f st) (\<lambda>(r, st1).
       case r of Some v \<Rightarrow> Some (Some v, t1, st1) | None \<Rightarrow> fields_loop act b1 t1 (Suc n) st1)"
      using head nf(1,3) by (simp add: fields_loop.simps [of _ b])
    have IH: "\<exists>tmp'. length tmp' = length tmp \<and>
       fields_loop act b1 t1 (Suc n) st1 = map_option (\<lambda>(r, st1). (r, tmp', st1)) (act_fields act (Suc n) (split_fields ?r) st1)" for st1
      using "1.IH" [OF False nf(2) sub, of t1 "Suc n" st1] "1.prems"(4,5) fs nf(4) by auto
    show ?thesis
    proof (cases "act n ?f st")
      case None
      then show ?thesis using step fs by auto
    next
      case (Some p)
      obtain r st1 where p: "p = (r, st1)" by (cases p)
      show ?thesis
        using Some p step fs nf(4) IH [of st1] by (cases r) auto
    qed
  qed
qed

definition roomy :: "item \<Rightarrow> bool" where
  "roomy st \<longleftrightarrow> it_fail st = (\<lambda>_. False)"

lemma alloc_roomy: "roomy st \<Longrightarrow> alloc st = (True, st\<lparr>it_allocs := Suc (it_allocs st)\<rparr>)"
  by (simp add: alloc_def roomy_def)

lemma read_line:
  assumes "item_line l" "f_rest f = l @ NL # s"
  shows "\<exists>line b. fgets (replicate (LINE_BUF + 1) (Some NUL)) LINE_BUF f = Some (line, f\<lparr>f_rest := s\<rparr>) \<and> cstr line = Some (l @ [NL])
     \<and> put_str (uninit (LINE_BUF + 1)) (l @ [NL]) = Some b \<and> holds b (l @ [NL])"
proof -
  have l: "NL \<notin> set l" "NUL \<notin> set l" "length l < LINE_BUF - 1"
    using assms(1) by (auto simp: item_line_def)
  then have len: "length (l @ [NL]) < LINE_BUF + 1"
    by simp
  obtain line where line: "put_str (replicate (LINE_BUF + 1) (Some NUL)) (l @ [NL]) = Some line"
    using holds_put_str [of "l @ [NL]" "replicate (LINE_BUF + 1) (Some NUL)"] len by (metis length_replicate)
  have "fgets (replicate (LINE_BUF + 1) (Some NUL)) LINE_BUF f = Some (line, f\<lparr>f_rest := s\<rparr>)"
    using assms(2) l line fgets_loop_line [of l "LINE_BUF - 1" s] by (simp add: fgets_def)
  moreover have "cstr line = Some (l @ [NL])"
    using cstr_put_str [OF line] l(2) by simp
  moreover obtain b where "put_str (uninit (LINE_BUF + 1)) (l @ [NL]) = Some b" "holds b (l @ [NL])"
    using holds_put_str [of "l @ [NL]" "uninit (LINE_BUF + 1)"] len by (metis length_uninit)
  ultimately show ?thesis by blast
qed

text \<open>A turn on a line that fits.\<close>

definition turn_start :: "nat \<Rightarrow> item \<Rightarrow> item" where
  "turn_start line_num st =
     (let st = st\<lparr>it_allocs := Suc (it_allocs st)\<rparr> in if line_num = 1 then st\<lparr>it_block := False\<rparr> else line_start st)"

lemma item_turn_line:
  assumes "item_line l" "f_rest f = l @ NL # s" "roomy st" "TITLE_BUF + 1 \<le> length tmp"
  shows "\<exists>tmp'. length tmp' = length tmp \<and> item_turn data line_num (f, tmp, st) =
     map_option (\<lambda>(r, st1). (r, f\<lparr>f_rest := s\<rparr>, tmp', st1))
       (act_fields (if line_num = 1 then title_field else data) 0 (split_fields l) (turn_start line_num st))"
proof -
  obtain line b where b: "fgets (replicate (LINE_BUF + 1) (Some NUL)) LINE_BUF f = Some (line, f\<lparr>f_rest := s\<rparr>)"
    "cstr line = Some (l @ [NL])" "put_str (uninit (LINE_BUF + 1)) (l @ [NL]) = Some b" "holds b (l @ [NL])"
    using read_line [OF assms(1,2)] by blast
  let ?act = "if line_num = 1 then title_field else data"
  obtain tmp' where tmp': "length tmp' = length tmp" "fields_loop ?act b tmp 0 (turn_start line_num st)
      = map_option (\<lambda>(r, st1). (r, tmp', st1)) (act_fields ?act 0 (split_fields l) (turn_start line_num st))"
    using fields_loop_line [OF b(4), of tmp ?act 0] assms(1,4) by (auto simp: item_line_def)
  have m: "memset0 (uninit (LINE_BUF + 1)) (LINE_BUF + 1) = Some (replicate (LINE_BUF + 1) (Some NUL))"
    by (simp add: memset0_def)
  have "item_turn data line_num (f, tmp, st) = Option.bind (fields_loop ?act b tmp 0 (turn_start line_num st))
      (\<lambda>(r, tmp1, st2). Some (r, f\<lparr>f_rest := s\<rparr>, tmp1, st2))"
    unfolding item_turn_def prod.case m Option.bind.bind_lunit b(1) alloc_roomy [OF assms(3)] Let_def b(2) if_True b(3)
    by (simp add: turn_start_def)
  then show ?thesis
    using tmp' by (auto simp: option.map_comp map_option_case split: option.splits)
qed

text \<open>The turn after the last line, on an empty array.\<close>

lemma item_turn_eof:
  assumes "f_rest f = []" "roomy st"
  shows "item_turn data line_num (f, tmp, st) = None"
proof -
  obtain k where k: "LINE_BUF = Suc (Suc k)"
    by (rule that [of 16382]) (simp add: LINE_BUF_def)
  let ?b = "Some NUL # None # uninit (Suc k)"
  have "my_csv_scan ?b t 0 = None" for t
    by (simp add: isspace_def NUL_def NL_def TAB_def)
  then have loop: "fields_loop act ?b tmp 0 st1 = None" for act st1
    by (simp add: fields_loop.simps [of _ ?b] buf_head_def next_field_def my_csv_def Option.bind_eq_None_conv)
  have b: "put_str (uninit (LINE_BUF + 1)) [] = Some ?b"
    by (simp add: put_str_def uninit_def k)
  have line: "fgets (replicate (LINE_BUF + 1) (Some NUL)) LINE_BUF f = Some (replicate (LINE_BUF + 1) (Some NUL), f\<lparr>f_eof := True\<rparr>)"
    "cstr (replicate (LINE_BUF + 1) (Some NUL)) = Some []"
    using assms(1) by (cases f; simp add: fgets_def k)+
  have m: "memset0 (uninit (LINE_BUF + 1)) (LINE_BUF + 1) = Some (replicate (LINE_BUF + 1) (Some NUL))"
    by (simp add: memset0_def)
  show ?thesis
    unfolding item_turn_def prod.case m Option.bind.bind_lunit line alloc_roomy [OF assms(2)] Let_def if_True b loop
    by simp
qed

section \<open>Whole files\<close>

text \<open>The outcome of the lines after the first one: the action for every line, and undefined behaviour in the turn after the last.\<close>

fun run_lines :: "act \<Rightarrow> string list \<Rightarrow> item \<Rightarrow> status \<times> item" where
  "run_lines data [] st = (Undefined, st)"
| "run_lines data (l # ls) st =
     (case act_fields data 0 (split_fields l) (turn_start 2 st) of
        None \<Rightarrow> (Undefined, st)
      | Some (Some v, st1) \<Rightarrow> (Returned v, st1)
      | Some (None, st1) \<Rightarrow> run_lines data ls st1)"

abbreviation file_text :: "string list \<Rightarrow> string" where
  "file_text ls \<equiv> concat (map (\<lambda>l. l @ [NL]) ls)"

definition keeps_memory :: "act \<Rightarrow> bool" where
  "keeps_memory act \<longleftrightarrow> (\<forall>n s st r st1. act n s st = Some (r, st1) \<longrightarrow> it_fail st1 = it_fail st)"

lemma act_fields_memory:
  assumes "keeps_memory act"
  shows "act_fields act n ss st = Some (r, st1) \<Longrightarrow> it_fail st1 = it_fail st"
proof (induction ss arbitrary: n st)
  case (Cons s ss)
  obtain r1 st2 where a: "act n s st = Some (r1, st2)"
    using Cons.prems by (auto simp: bind_eq_Some)
  then have "it_fail st2 = it_fail st"
    using assms unfolding keeps_memory_def by blast
  then show ?case
    using Cons.IH [of "Suc n" st2] Cons.prems a by (cases r1) auto
qed simp

lemma turn_start_fail [simp]: "it_fail (turn_start n st) = it_fail st"
  by (simp add: turn_start_def line_start_def Let_def)

lemma item_loop_lines:
  assumes "keeps_memory data"
  shows "\<forall>l \<in> set ls. item_line l \<Longrightarrow> f_rest f = file_text ls \<Longrightarrow> \<not> f_eof f \<Longrightarrow> roomy st \<Longrightarrow> 1 < n \<Longrightarrow>
    TITLE_BUF + 1 \<le> length tmp \<Longrightarrow> item_loop data n (f, tmp, st) = Some (run_lines data ls st)"
proof (induction ls arbitrary: f tmp st n)
  case Nil
  then show ?case
    using item_turn_eof [of f st data n tmp] by (simp add: item_loop.simps [of _ _ "(f, _)"])
next
  case (Cons l ls)
  obtain tmp' where t: "length tmp' = length tmp" "item_turn data n (f, tmp, st) =
     map_option (\<lambda>(r, st1). (r, f\<lparr>f_rest := file_text ls\<rparr>, tmp', st1)) (act_fields data 0 (split_fields l) (turn_start 2 st))"
    using item_turn_line [of l f "file_text ls" st tmp data n] Cons.prems by (auto simp: turn_start_def)
  show ?case
  proof (cases "act_fields data 0 (split_fields l) (turn_start 2 st)")
    case None
    then show ?thesis
      using t Cons.prems by (simp add: item_loop.simps [of _ _ "(f, _)"])
  next
    case (Some p)
    obtain r st1 where p: "p = (r, st1)" by (cases p)
    have "roomy st1"
      using act_fields_memory [OF assms, of 0 "split_fields l" "turn_start 2 st" r st1] Some p Cons.prems(4) by (simp add: roomy_def)
    then show ?thesis
      using t p Some Cons.prems Cons.IH [of "f\<lparr>f_rest := file_text ls\<rparr>" st1 "Suc n" tmp'] t(1)
      by (cases r) (auto simp: item_loop.simps [of _ _ "(f, _)"])
  qed
qed

lemma title_fields:
  assumes "roomy st" "n + length ts \<le> length (it_title st)"
  shows "act_fields title_field n ts st = Some (None, st\<lparr>
    it_title := take n (it_title st) @ map Some ts @ drop (n + length ts) (it_title st), it_allocs := it_allocs st + length ts\<rparr>)"
  using assms
proof (induction ts arbitrary: n st)
  case (Cons t ts)
  let ?st = "st\<lparr>it_allocs := Suc (it_allocs st), it_title := (it_title st)[n := Some t]\<rparr>"
  have "title_field n t st = Some (None, ?st)"
    using Cons.prems by (simp add: title_field_def alloc_roomy)
  moreover have "act_fields title_field (Suc n) ts ?st = Some (None, ?st\<lparr>
      it_title := take (Suc n) (it_title ?st) @ map Some ts @ drop (Suc n + length ts) (it_title ?st), it_allocs := it_allocs ?st + length ts\<rparr>)"
    using Cons.prems by (intro Cons.IH) (auto simp: roomy_def)
  ultimately show ?case
    using Cons.prems by (simp add: take_Suc_conv_app_nth)
qed simp

text \<open>The state after the first line.\<close>

definition titled :: "nat \<Rightarrow> string \<Rightarrow> item" where
  "titled k h = (item_new k (\<lambda>_. False))\<lparr>
     it_title := map Some (split_fields h) @ replicate (k - length (split_fields h)) None, it_allocs := Suc (length (split_fields h))\<rparr>"

lemma item_main_lines:
  assumes "keeps_memory data" "\<forall>l \<in> set (h # ls). item_line l" "f_rest f = file_text (h # ls)" "\<not> f_eof f" "length (split_fields h) \<le> k"
  shows "item_main data k (\<lambda>_. False) f = Some (run_lines data ls (titled k h))"
proof -
  let ?st = "item_new k (\<lambda>_. False)" and ?tmp = "uninit (TITLE_BUF + 1)"
  have st: "roomy ?st" "roomy (titled k h)" "roomy (turn_start 1 ?st)"
    by (simp_all add: roomy_def item_new_def titled_def)
  have "act_fields title_field 0 (split_fields h) (turn_start 1 ?st) = Some (None, titled k h)"
    using title_fields [OF st(3), of 0 "split_fields h"] assms(5) by (simp add: turn_start_def item_new_def titled_def Let_def)
  then obtain tmp' where "length tmp' = length ?tmp"
    "item_turn data 1 (f, ?tmp, ?st) = Some (None, f\<lparr>f_rest := file_text ls\<rparr>, tmp', titled k h)"
    using item_turn_line [of h f "file_text ls" ?st ?tmp data 1] assms(2,3) st(1) by auto
  then have "item_loop data 1 (f, ?tmp, ?st) = Some (run_lines data ls (titled k h))"
    using item_loop_lines [OF assms(1), of ls "f\<lparr>f_rest := file_text ls\<rparr>" "titled k h" 2 tmp'] assms(2,4) st(2)
    by (simp add: item_loop.simps [of _ _ "(f, _)"] numeral_2_eq_2)
  moreover have "fst (run_lines data ls st) \<noteq> Finished" for st
    by (induction data ls st rule: run_lines.induct) (auto split: option.splits)
  ultimately show ?thesis
    by (auto simp: item_main_def split: prod.splits) (metis fst_conv)+
qed

section \<open>Programs that only print\<close>

definition line_text :: "(nat \<Rightarrow> string \<Rightarrow> string) \<Rightarrow> nat \<Rightarrow> string list \<Rightarrow> string" where
  "line_text fmt n ss = concat (map (\<lambda>(i, s). fmt i s) (List.enumerate n ss))"

lemma line_text_simps [simp]: "line_text fmt n [] = []" "line_text fmt n (s # ss) = fmt n s @ line_text fmt (Suc n) ss"
  by (simp_all add: line_text_def)

definition selected :: "(string \<Rightarrow> bool option) \<Rightarrow> string \<Rightarrow> bool" where
  "selected sel l = (case split_fields l of [] \<Rightarrow> False | s # _ \<Rightarrow> sel s = Some True)"

lemma data_field_off: "\<not> it_block st \<Longrightarrow> 0 < n \<Longrightarrow> act_fields (data_field sel switch) n ss st = Some (None, st)"
  by (induction ss arbitrary: n) (auto simp: data_field_def)

lemma data_field_on:
  "it_block st \<Longrightarrow> 0 < n \<Longrightarrow>
   (\<And>i st1. i < length ss \<Longrightarrow> it_title st1 = it_title st \<Longrightarrow> switch (n + i) (ss ! i) st1 = Some (None, say (fmt (n + i) (ss ! i)) st1)) \<Longrightarrow>
   act_fields (data_field sel switch) n ss st = Some (None, say (line_text fmt n ss) st)"
proof (induction ss arbitrary: n st)
  case (Cons s ss)
  have "switch (Suc n + i) (ss ! i) st1 = Some (None, say (fmt (Suc n + i) (ss ! i)) st1)" if "i < length ss" "it_title st1 = it_title st" for i st1
    using Cons.prems(3) [of "Suc i" st1] that by simp
  then have "act_fields (data_field sel switch) (Suc n) ss (say (fmt n s) st) = Some (None, say (line_text fmt (Suc n) ss) (say (fmt n s) st))"
    using Cons.prems(1) by (intro Cons.IH) (auto simp: say_def)
  moreover have "data_field sel switch n s st = Some (None, say (fmt n s) st)"
    using Cons.prems(1,2) Cons.prems(3) [of 0 st] by (simp add: data_field_def)
  ultimately show ?case
    by (simp add: say_def)
qed (simp add: say_def)

lemma data_line:
  assumes "\<forall>s. split_fields l \<noteq> [] \<longrightarrow> sel (hd (split_fields l)) \<noteq> None"
    "\<And>i st1. selected sel l \<Longrightarrow> i < length (split_fields l) \<Longrightarrow> it_title st1 = it_title st \<Longrightarrow>
       switch i (split_fields l ! i) st1 = Some (None, say (fmt i (split_fields l ! i)) st1)"
  shows "\<exists>st1. act_fields (data_field sel switch) 0 (split_fields l) (turn_start 2 st) = Some (None, st1) \<and> it_title st1 = it_title st
     \<and> it_out st1 = it_out st @ (if selected sel l then line_text fmt 0 (split_fields l) else [])"
proof (cases "split_fields l")
  case Nil
  then show ?thesis
    by (simp add: selected_def turn_start_def line_start_def Let_def)
next
  case (Cons s ss)
  let ?st = "turn_start 2 st"
  have st: "\<not> it_block ?st" "it_title ?st = it_title st" "it_out ?st = it_out st"
    by (simp_all add: turn_start_def line_start_def Let_def)
  show ?thesis
  proof (cases "selected sel l")
    case True
    let ?st1 = "say (fmt 0 s) (?st\<lparr>it_block := True\<rparr>)"
    have "data_field sel switch 0 s ?st = Some (None, ?st1)"
      using True Cons assms(2) [OF True, of 0 "?st\<lparr>it_block := True\<rparr>"] st(2) by (simp add: data_field_def selected_def)
    moreover have "act_fields (data_field sel switch) (Suc 0) ss ?st1 = Some (None, say (line_text fmt (Suc 0) ss) ?st1)"
      using Cons assms(2) [OF True, of "Suc _"] st(2) by (intro data_field_on) (auto simp: say_def)
    ultimately show ?thesis
      using True Cons st by (simp add: say_def)
  next
    case False
    then have "sel s = Some False"
      using Cons assms(1) by (auto simp: selected_def)
    then have "data_field sel switch 0 s ?st = Some (None, ?st)"
      using st(1) by (simp add: data_field_def)
    then show ?thesis
      using False Cons st data_field_off [of ?st "Suc 0" sel switch ss] by simp
  qed
qed

lemma run_lines_text:
  assumes "\<forall>l \<in> set ls. split_fields l \<noteq> [] \<longrightarrow> sel (hd (split_fields l)) \<noteq> None"
    "\<And>l i st1. l \<in> set ls \<Longrightarrow> selected sel l \<Longrightarrow> i < length (split_fields l) \<Longrightarrow> it_title st1 = it_title st \<Longrightarrow>
       switch i (split_fields l ! i) st1 = Some (None, say (fmt i (split_fields l ! i)) st1)"
  shows "fst (run_lines (data_field sel switch) ls st) = Undefined \<and>
    it_out (snd (run_lines (data_field sel switch) ls st))
      = it_out st @ concat (map (\<lambda>l. line_text fmt 0 (split_fields l)) (filter (selected sel) ls))"
  using assms
proof (induction ls arbitrary: st)
  case (Cons l ls)
  obtain st1 where st1: "act_fields (data_field sel switch) 0 (split_fields l) (turn_start 2 st) = Some (None, st1)"
    "it_title st1 = it_title st" "it_out st1 = it_out st @ (if selected sel l then line_text fmt 0 (split_fields l) else [])"
    using data_line [of l sel st switch fmt] Cons.prems by auto
  then show ?case
    using Cons.IH [of st1] Cons.prems by auto
qed simp

section \<open>The end of the loop\<close>

lemma fgets_loop_rest: "fgets_loop k s = (l, r, e) \<Longrightarrow> length r \<le> length s"
  by (induction k s arbitrary: l r rule: fgets_loop.induct) (auto split: if_splits prod.splits intro: le_SucI)

lemma fgets_loop_short: "0 < k \<Longrightarrow> fgets_loop k s = (l, r, e) \<Longrightarrow> e \<or> length r < length s"
  by (cases k; cases s) (auto split: if_splits prod.splits dest: fgets_loop_rest)

lemma fields_loop_newline:
  "fields_loop act b tmp n st = Some r \<Longrightarrow> fst r = None \<Longrightarrow> Some NL \<in> set b"
proof (induction rule: fields_loop.raw_induct [rotated, consumes 1, case_names step])
  case (step fl act b tmp n st r)
  obtain c where c: "buf_head b = Some c"
    using step.hyps by (auto simp: bind_eq_Some)
  show ?case
  proof (cases "c = NL")
    case True
    then show ?thesis using c by (cases b) (auto simp: buf_head_def)
  next
    case False
    then obtain b1 t1 s v st1 where nf: "next_field (TITLE_BUF + 1) b tmp = Some (b1, t1)" "cstr t1 = Some s" "act n s st = Some (v, st1)"
      "(case v of Some x \<Rightarrow> Some (Some x, t1, st1) | None \<Rightarrow> fl act b1 t1 (Suc n) st1) = Some r"
      using step.hyps c by (auto simp: bind_eq_Some)
    then have "Some NL \<in> set b1"
      using step.IH [of act b1 t1 "Suc n" st1 r] step.prems by (cases v) auto
    then show ?thesis using next_field_no_newline [OF nf(1)] by blast
  qed
qed

lemma item_turn_Some:
  assumes "item_turn data n (f, tmp, st) = Some (r, f1, tmp1, st2)"
  obtains line s b act st1 where "fgets (replicate (LINE_BUF + 1) (Some NUL)) LINE_BUF f = Some (line, f1)" "cstr line = Some s"
    "put_str (uninit (LINE_BUF + 1)) s = Some b" "fields_loop act b tmp 0 st1 = Some (r, tmp1, st2)" "act = title_field \<or> act = data"
proof -
  have z: "memset0 (uninit (LINE_BUF + 1)) (LINE_BUF + 1) = Some (replicate (LINE_BUF + 1) (Some NUL))"
    by (simp add: memset0_def)
  obtain ok st0 where a: "alloc st = (ok, st0)" by (cases "alloc st")
  let ?act = "if n = 1 then title_field else data" and ?st = "if n = 1 then st0\<lparr>it_block := False\<rparr> else line_start st0"
  have i: "(if n = 1 then fields_loop title_field b tmp 0 (st0\<lparr>it_block := False\<rparr>) else fields_loop data b tmp 0 (line_start st0))
      = fields_loop ?act b tmp 0 ?st" for b
    by simp
  obtain line s b where "fgets (replicate (LINE_BUF + 1) (Some NUL)) LINE_BUF f = Some (line, f1)" "cstr line = Some s"
    "(if ok then put_str (uninit (LINE_BUF + 1)) s else None) = Some b" "fields_loop ?act b tmp 0 ?st = Some (r, tmp1, st2)"
    using assms unfolding item_turn_def prod.case z Option.bind.bind_lunit a Let_def i
    by (auto simp only: bind_eq_Some split_paired_Ex prod.case option.inject prod.inject)
  moreover from this(3) have "put_str (uninit (LINE_BUF + 1)) s = Some b"
    by (cases ok) simp_all
  moreover have "?act = title_field \<or> ?act = data"
    by simp
  ultimately show ?thesis
    using that by blast
qed

lemma fgets_newline:
  assumes "fgets b n f = Some (line, f1)" "set b \<subseteq> {Some NUL}" "cstr line = Some s" "NL \<in> set s" "\<not> f_eof f" "1 < n"
  shows "\<not> f_eof f1" "length (f_rest f1) < length (f_rest f)"
proof -
  obtain l r e where loop: "fgets_loop (n - 1) (f_rest f) = (l, r, e)"
    by (cases "fgets_loop (n - 1) (f_rest f)")
  then have l: "(if l = [] then Some b else put_str b l) = Some line" and f1: "f1 = f\<lparr>f_rest := r, f_eof := f_eof f \<or> e\<rparr>"
    using assms(1) by (auto simp: fgets_def bind_eq_Some)
  have "Some NL \<in> set line"
    using cstr_set [OF assms(3,4)] .
  then have "Some NL \<in> Some ` set l \<union> {Some NUL}"
  proof (cases "l = []")
    case True
    then show ?thesis using l assms(2) \<open>Some NL \<in> set line\<close> by auto
  next
    case False
    then have "set line \<subseteq> Some ` set l \<union> {Some NUL} \<union> set b"
      using l put_str_set [of b l line] by simp
    then show ?thesis using assms(2) \<open>Some NL \<in> set line\<close> by blast
  qed
  then have "NL \<in> set l"
    by auto
  then have e: "\<not> e"
    using fgets_loop_no_newline [of _ _ l r] loop by (cases e) auto
  then show "\<not> f_eof f1"
    using f1 assms(5) by simp
  show "length (f_rest f1) < length (f_rest f)"
    using fgets_loop_short [OF _ loop] assms(6) e f1 by simp
qed

lemma put_newline:
  assumes "put_str (uninit k) s = Some b" "Some NL \<in> set b"
  shows "NL \<in> set s"
  using put_str_set [OF assms(1)] assms(2) by (auto simp: uninit_def)

lemma item_turn_goes_on:
  assumes "item_turn data n (f, tmp, st) = Some (None, f1, x1)" "\<not> f_eof f"
  shows "\<not> f_eof f1" "length (f_rest f1) < length (f_rest f)"
proof -
  obtain tmp1 st2 where x1: "x1 = (tmp1, st2)" by (cases x1)
  obtain line s b st1 act where t: "fgets (replicate (LINE_BUF + 1) (Some NUL)) LINE_BUF f = Some (line, f1)" "cstr line = Some s"
    "put_str (uninit (LINE_BUF + 1)) s = Some b" "fields_loop act b tmp 0 st1 = Some (None, tmp1, st2)"
    by (rule item_turn_Some [OF assms(1) [unfolded x1]])
  have s: "NL \<in> set s"
    using put_newline [OF t(3)] fields_loop_newline [OF t(4)] by simp
  have z: "set (replicate (LINE_BUF + 1) (Some NUL)) \<subseteq> {Some NUL}"
    by (simp only: set_replicate_conv_if) simp
  have n: "1 < LINE_BUF"
    by (simp add: LINE_BUF_def)
  show "\<not> f_eof f1" "length (f_rest f1) < length (f_rest f)"
    using fgets_newline [OF t(1) z t(2) s assms(2) n] by blast+
qed

text \<open>Every program ends; it never gets to the end of its loop over the lines.\<close>

definition returns_only :: "int set \<Rightarrow> act \<Rightarrow> bool" where
  "returns_only R act \<longleftrightarrow> (\<forall>n s st v st1. act n s st = Some (Some v, st1) \<longrightarrow> v \<in> R)"

lemma fields_loop_returns:
  "fields_loop act b tmp n st = Some r \<Longrightarrow> returns_only R act \<Longrightarrow> fst r = Some v \<Longrightarrow> v \<in> R"
proof (induction rule: fields_loop.raw_induct [rotated, consumes 1, case_names step])
  case (step fl act b tmp n st r)
  then obtain b1 t1 s u st1 where "act n s st = Some (u, st1)"
    "(case u of Some x \<Rightarrow> Some (Some x, t1, st1) | None \<Rightarrow> fl act b1 t1 (Suc n) st1) = Some r"
    by (auto simp: bind_eq_Some split: if_splits)
  then show ?case
    using step.IH [of act b1 t1 "Suc n" st1 r] step.prems unfolding returns_only_def by (cases u) (simp, force)
qed

lemma returns_only_title: "returns_only R title_field"
  by (auto simp: returns_only_def title_field_def Let_def split: if_splits prod.splits)

lemma returns_only_data: "returns_only R switch \<Longrightarrow> returns_only R (data_field sel switch)"
  unfolding returns_only_def data_field_def Let_def bind_eq_Some by (auto split: if_splits) metis+

lemma item_turn_returns:
  assumes "item_turn data n (f, tmp, st) = Some (Some v, x)" "returns_only R data"
  shows "v \<in> R"
proof -
  obtain f1 tmp1 st2 where x: "x = (f1, tmp1, st2)" by (cases x)
  obtain b act st1 where "fields_loop act b tmp 0 st1 = Some (Some v, tmp1, st2)" "act = title_field \<or> act = data"
    using item_turn_Some [OF assms(1) [unfolded x]] by metis
  then show ?thesis
    using fields_loop_returns [of act b tmp 0 st1 "(Some v, tmp1, st2)" R v] assms(2) returns_only_title by auto
qed

lemma item_loop_ends:
  assumes "returns_only R data"
  shows "\<not> f_eof f \<Longrightarrow> \<exists>r st1. item_loop data n (f, tmp, st) = Some (r, st1) \<and> (r = Undefined \<or> r \<in> Returned ` R)"
proof (induction "length (f_rest f)" arbitrary: f tmp st n rule: less_induct)
  case less
  show ?case
  proof (cases "item_turn data n (f, tmp, st)")
    case None
    then show ?thesis
      using less.prems by (simp add: item_loop.simps [of _ _ "(f, _)"])
  next
    case (Some p)
    obtain v f1 tmp1 st1 where p: "p = (v, f1, tmp1, st1)" by (cases p)
    show ?thesis
    proof (cases v)
      case None
      have "\<exists>r st2. item_loop data (Suc n) (f1, tmp1, st1) = Some (r, st2) \<and> (r = Undefined \<or> r \<in> Returned ` R)"
        using item_turn_goes_on [of data n f tmp st f1] Some p None less.prems by (intro less.hyps) auto
      then show ?thesis
        using Some p None less.prems by (simp add: item_loop.simps [of _ _ "(f, _)"])
    next
      case (Some w)
      then have "w \<in> R"
        using item_turn_returns [OF _ assms] \<open>item_turn data n (f, tmp, st) = Some p\<close> p by blast
      then show ?thesis
        using Some p \<open>item_turn data n (f, tmp, st) = Some p\<close> less.prems by (simp add: item_loop.simps [of _ _ "(f, _)"])
    qed
  qed
qed

lemma item_main_ends:
  assumes "returns_only R data" "\<not> f_eof f"
  obtains r st where "item_main data k failing f = Some (r, st)" "r = Undefined \<or> r \<in> Returned ` R"
proof -
  obtain r st where r: "item_loop data 1 (f, uninit (TITLE_BUF + 1), item_new k failing) = Some (r, st)" "r = Undefined \<or> r \<in> Returned ` R"
    using item_loop_ends [OF assms] by blast
  then have "item_main data k failing f = Some (r, st)"
    by (auto simp: item_main_def)
  then show ?thesis using r(2) that by blast
qed

section \<open>The output of gem_handle and weapon_info\<close>

lemma keeps_memory_data: "keeps_memory switch \<Longrightarrow> keeps_memory (data_field sel switch)"
  unfolding keeps_memory_def data_field_def Let_def bind_eq_Some
  by (auto split: if_splits)

lemma print_fields_memory: "keeps_memory gem_handle_field" "keeps_memory weapon_info_field"
  by (auto simp: keeps_memory_def gem_handle_field_def weapon_info_field_def say_def split: if_splits option.splits)

lemma print_fields_return: "returns_only R gem_handle_field" "returns_only R weapon_info_field"
  by (auto simp: returns_only_def gem_handle_field_def weapon_info_field_def split: if_splits option.splits)

lemma gem_handle_prints:
  assumes "\<forall>l \<in> set (h # ls). item_line l" "f_rest f = file_text (h # ls)" "\<not> f_eof f" "length (split_fields h) \<le> 400"
    "4 \<le> length argv" "\<forall>l \<in> set ls. split_fields l \<noteq> [] \<longrightarrow> in_range (argv ! 2) (argv ! 3) (hd (split_fields l)) \<noteq> None"
  shows "\<exists>st. gem_handle_main argv (Some f) (\<lambda>_. False) = Some (Undefined, st) \<and> it_out st =
    concat (map (\<lambda>l. line_text gem_handle_text 0 (split_fields l)) (filter (selected (in_range (argv ! 2) (argv ! 3))) ls))"
proof -
  let ?data = "data_field (in_range (argv ! 2) (argv ! 3)) gem_handle_field"
  have "item_main ?data 400 (\<lambda>_. False) f = Some (run_lines ?data ls (titled 400 h))"
    using assms by (intro item_main_lines keeps_memory_data print_fields_memory) auto
  moreover have "fst (run_lines ?data ls (titled 400 h)) = Undefined \<and> it_out (snd (run_lines ?data ls (titled 400 h))) = it_out (titled 400 h) @
      concat (map (\<lambda>l. line_text gem_handle_text 0 (split_fields l)) (filter (selected (in_range (argv ! 2) (argv ! 3))) ls))"
    using assms(6) by (intro run_lines_text) (auto simp: gem_handle_field_def)
  ultimately show ?thesis
    using assms(5) by (intro exI [of _ "snd (run_lines ?data ls (titled 400 h))"])
      (simp add: gem_handle_main_def with_file_def titled_def item_new_def prod_eq_iff)
qed


definition ex_head :: string where "ex_head = join_tab [''id'', ''name'']"
definition ex_item :: string where "ex_item = join_tab [''12'', ''axe'']"

lemma ex_split: "split_fields ex_head = [''id'', ''name'']" "split_fields ex_item = [''12'', ''axe'']"
  unfolding ex_head_def ex_item_def by (rule split_join; simp add: field_char_def isspace_def TAB_def NL_def)+

lemma ex_item_lines: "\<forall>l \<in> set [ex_head, ex_item]. item_line l"
  unfolding item_line_def list.set ball_simps ex_split by (simp add: ex_head_def ex_item_def NL_def NUL_def TAB_def LINE_BUF_def TITLE_BUF_def)

lemma ex_same_id: "same_id ''12'' ''12'' = Some True" "show_nat 0 = ''0''" "show_nat (Suc 0) = ''1''"
  by code_simp+


end
