(* ===== verification/Bns_Items.thy ===== *)
theory Bns_Items
  imports Bns_Lines
begin

text \<open>
  The programs \<^verbatim>\<open>weapon_handle.c\<close>, \<^verbatim>\<open>real_weapon.c\<close>, \<^verbatim>\<open>real_gem.c\<close> and \<^verbatim>\<open>gem_effect.c\<close> of \<^verbatim>\<open>lib/app/bns\<close>, over the loop of \<^verbatim>\<open>Bns_Lines\<close>: what
  their \<^verbatim>\<open>switch\<close> does with every column. Each prints a record in JSON for every line it selects. The functions of \<^verbatim>\<open>regex.h\<close> are the
  parameter \<open>re\<close>.
\<close>

section \<open>Texts\<close>

text \<open>
  The keys, in UTF-8: weapon type, accuracy, piercing, critical hits and the defence against them, evasion, block, maximal life,
  profession, not tradable, bound, price, durability, focus, extra damage, attack power (as a range and as a number), defence,
  description, recovery, recovery in a fight, and the effects.
\<close>

definition k_weapon_type :: string where "k_weapon_type = utf8 [0xE6, 0xAD, 0xA6, 0xE5, 0x99, 0xA8, 0xE7, 0xB1, 0xBB, 0xE5, 0x9E, 0x8B]"
definition k_accuracy :: string where "k_accuracy = utf8 [0xE5, 0x91, 0xBD, 0xE4, 0xB8, 0xAD]"
definition k_piercing :: string where "k_piercing = utf8 [0xE7, 0xA9, 0xBF, 0xE5, 0x88, 0xBA]"
definition k_critical :: string where "k_critical = utf8 [0xE6, 0x9A, 0xB4, 0xE5, 0x87, 0xBB]"
definition k_crit_defence :: string where "k_crit_defence = utf8 [0xE6, 0x9A, 0xB4, 0xE5, 0x87, 0xBB, 0xE9, 0x98, 0xB2, 0xE5, 0xBE, 0xA1]"
definition k_evasion :: string where "k_evasion = utf8 [0xE9, 0x97, 0xAA, 0xE9, 0x81, 0xBF]"
definition k_block :: string where "k_block = utf8 [0xE6, 0xA0, 0xBC, 0xE6, 0x8C, 0xA1]"
definition k_max_life :: string where "k_max_life = utf8 [0xE6, 0x9C, 0x80, 0xE5, 0xA4, 0xA7, 0xE7, 0x94, 0x9F, 0xE5, 0x91, 0xBD]"
definition k_job :: string where "k_job = utf8 [0xE8, 0x81, 0x8C, 0xE4, 0xB8, 0x9A]"
definition k_no_trade :: string where "k_no_trade = utf8 [0xE4, 0xB8, 0x8D, 0xE5, 0x8F, 0xAF, 0xE4, 0xBA, 0xA4, 0xE6, 0x98, 0x93]"
definition k_bound :: string where "k_bound = utf8 [0xE5, 0xBD, 0x92, 0xE5, 0xB1, 0x9E]"
definition k_price :: string where "k_price = utf8 [0xE5, 0x94, 0xAE, 0xE4, 0xBB, 0xB7]"
definition k_durability :: string where "k_durability = utf8 [0xE8, 0x80, 0x90, 0xE4, 0xB9, 0x85, 0xE5, 0xBA, 0xA6]"
definition k_focus :: string where "k_focus = utf8 [0xE9, 0x9B, 0x86, 0xE4, 0xB8, 0xAD]"
definition k_extra_damage :: string where "k_extra_damage = utf8 [0xE9, 0xA2, 0x9D, 0xE5, 0xA4, 0x96, 0xE4, 0xBC, 0xA4, 0xE5, 0xAE, 0xB3]"
definition k_attack_range :: string where "k_attack_range = utf8 [0xE6, 0x94, 0xBB, 0xE5, 0x87, 0xBB, 0xE5, 0x8A, 0x9B, 0xE8, 0x8C, 0x83, 0xE5, 0x9B, 0xB4]"
definition k_attack :: string where "k_attack = utf8 [0xE6, 0x94, 0xBB, 0xE5, 0x87, 0xBB, 0xE5, 0x8A, 0x9B]"
definition k_defence :: string where "k_defence = utf8 [0xE9, 0x98, 0xB2, 0xE5, 0xBE, 0xA1]"
definition k_description :: string where "k_description = utf8 [0xE6, 0x8F, 0x8F, 0xE8, 0xBF, 0xB0]"
definition k_recovery :: string where "k_recovery = utf8 [0xE6, 0x81, 0xA2, 0xE5, 0xA4, 0x8D]"
definition k_fight_recovery :: string where "k_fight_recovery = utf8 [0xE6, 0x88, 0x98, 0xE6, 0x96, 0x97, 0xE4, 0xB8, 0xAD, 0xE6, 0x81, 0xA2, 0xE5, 0xA4, 0x8D]"
definition k_effects :: string where "k_effects = utf8 [0xE4, 0xBB, 0xA5, 0xE4, 0xB8, 0x8B, 0xE6, 0x95, 0x88, 0xE6, 0x9E, 0x9C, 0xE9, 0x9A, 0x8F, 0xE6, 0x9C, 0xBA, 0xE5, 0x87, 0xBA, 0xE7, 0x8E, 0xB0, 0xE4, 0xB8, 0x80, 0xE7, 0xA7, 0x8D]"

text \<open>The professions.\<close>

definition j_swordsman :: string where "j_swordsman = utf8 [0xE5, 0x89, 0x91, 0xE5, 0xB8, 0x88]"
definition j_spirit_swordsman :: string where "j_spirit_swordsman = utf8 [0xE7, 0x81, 0xB5, 0xE5, 0x89, 0x91, 0xE5, 0xA3, 0xAB]"
definition j_boxer :: string where "j_boxer = utf8 [0xE6, 0x8B, 0xB3, 0xE5, 0xB8, 0x88]"
definition j_qigong :: string where "j_qigong = utf8 [0xE6, 0xB0, 0x94, 0xE5, 0x8A, 0x9F, 0xE5, 0xB8, 0x88]"
definition j_strongman :: string where "j_strongman = utf8 [0xE5, 0x8A, 0x9B, 0xE5, 0xA3, 0xAB]"
definition j_summoner :: string where "j_summoner = utf8 [0xE5, 0x8F, 0xAC, 0xE5, 0x94, 0xA4, 0xE5, 0xB8, 0x88]"
definition j_assassin :: string where "j_assassin = utf8 [0xE5, 0x88, 0xBA, 0xE5, 0xAE, 0xA2]"
definition j_sorcerer :: string where "j_sorcerer = utf8 [0xE5, 0x92, 0x92, 0xE6, 0x9C, 0xAF, 0xE5, 0xB8, 0x88]"

definition BS :: string where "BS = [CHR 0x5C]"

definition regex_patten :: string where
  "regex_patten = ''<[0-9a-zA-Z]+'' @ BS @ ''s[0-9a-zA-Z_='' @ DQ @ BS @ ''.]+>(.*)</font''"

definition regex_icon :: string where "regex_icon = ''([0-9]+),[0-9]+,[0-9]+''"

definition regex_loc_k :: string where
  "regex_loc_k = ''path='' @ DQ @ DQ @ ''[0-9'' @ BS @ ''.]+([a-zA-Z_]+)'' @ DQ @ DQ"

definition regex_loc_v :: string where "regex_loc_v = ''<image.*/>(.*)'' @ DQ @ ''{0,1}''"
definition regex_consum :: string where "regex_consum = ''item:([0-9]+)''"
definition regex_set_item :: string where "regex_set_item = ''set-item:([0-9]+)''"
definition regex_effect :: string where "regex_effect = ''effect:([0-9]+)''"

section \<open>What the switches share\<close>

type_synonym step = "item \<Rightarrow> (int option \<times> item) option"

definition and_then :: "step \<Rightarrow> step \<Rightarrow> step" where
  "and_then a b st = Option.bind (a st) (\<lambda>(r, st1). case r of Some v \<Rightarrow> Some (Some v, st1) | None \<Rightarrow> b st1)"

definition print :: "string \<Rightarrow> step" where
  "print t st = Some (None, say t st)"

text \<open>An allocation whose failure is a \<^verbatim>\<open>return 1\<close>, and one whose result is used unseen.\<close>

definition or_return :: "step \<Rightarrow> step" where
  "or_return k st = (let (ok, st1) = alloc st in if ok then k st1 else Some (Some 1, st1))"

definition unseen :: "step \<Rightarrow> step" where
  "unseen k st = (let (ok, st1) = alloc st in if ok then k st1 else None)"

text \<open>
  The search in a table with a fresh \<^verbatim>\<open>SweetListKv\<close>: a key that is not there gives that object back, whose value was never set.
\<close>

definition find_value :: "kv_table \<Rightarrow> string \<Rightarrow> string option" where
  "find_value t k = Option.bind (chtbl_find_kv (fst t) (snd t) \<lparr>kv_key = k, kv_value = None\<rparr>) kv_value"

text \<open>Column 232: the icon. The result of \<^verbatim>\<open>filter_regex\<close> is given to \<^verbatim>\<open>strlen\<close> unseen.\<close>

definition icon_field :: "regex \<Rightarrow> kv_table \<Rightarrow> string \<Rightarrow> step" where
  "icon_field re t s = or_return (\<lambda>st. do {
     r \<leftarrow> filter_regex re regex_icon s;
     k \<leftarrow> r;
     unseen (\<lambda>st. Option.bind (find_value t k) (\<lambda>v. print (js_str ''icon'' v) st)) st
   })"

text \<open>Column 266: the places, one for every part between \<^verbatim>\<open><br/>\<close> that has a path.\<close>

fun location_loop :: "regex \<Rightarrow> nat \<Rightarrow> string list \<Rightarrow> string option" where
  "location_loop re i [] = Some []"
| "location_loop re i (p # ps) = do {
     r \<leftarrow> filter_regex re regex_loc_k p;
     case r of
       None \<Rightarrow> location_loop re i ps
     | Some k \<Rightarrow> do {
         b \<leftarrow> str_tolower k;
         lower \<leftarrow> cstr b;
         r1 \<leftarrow> filter_regex re regex_loc_v p;
         v \<leftarrow> r1;
         b1 \<leftarrow> str_delchar v DQ;
         place \<leftarrow> cstr b1;
         rest \<leftarrow> location_loop re (Suc i) ps;
         Some ((if i > 0 then '','' else []) @ ''['' @ DQ @ lower @ DQ @ '','' @ DQ @ place @ DQ @ '']'' @ rest)
       }
   }"

definition location_field :: "regex \<Rightarrow> string \<Rightarrow> step" where
  "location_field re s st = do {
     ps \<leftarrow> strntok_all ''<br/>'' 5 (Some s);
     t \<leftarrow> location_loop re 0 ps;
     print (DQ @ ''location'' @ DQ @ '':['' @ t @ ''],'') st
   }"

text \<open>
  Column 267 of the weapons: the effects, one for every part between \<^verbatim>\<open>><br/>\<close>. \<open>probe\<close> is the text in which a match is looked for before
  the one of the part is printed; a null pointer cannot be printed.
\<close>

fun effects_loop :: "regex \<Rightarrow> (string \<Rightarrow> string) \<Rightarrow> nat \<Rightarrow> string list \<Rightarrow> string option" where
  "effects_loop re probe i [] = Some []"
| "effects_loop re probe i (p # ps) = do {
     r \<leftarrow> filter_regex re regex_patten (probe p);
     t \<leftarrow> (case r of None \<Rightarrow> Some [] | Some _ \<Rightarrow> Option.bind (filter_regex re regex_patten p) id);
     rest \<leftarrow> effects_loop re probe (Suc i) ps;
     Some ((if i > 0 then '','' else []) @ DQ @ t @ DQ @ rest)
   }"

definition effects_field :: "regex \<Rightarrow> (string \<Rightarrow> string) \<Rightarrow> string \<Rightarrow> step" where
  "effects_field re probe s st = do {
     ps \<leftarrow> strntok_all ''><br/>'' 6 (Some s);
     t \<leftarrow> effects_loop re probe 0 ps;
     print (DQ @ k_effects @ DQ @ '':['' @ t @ '']}'' @ [NL]) (st\<lparr>it_loc_2 := length ps\<rparr>)
   }"

definition description_field :: "regex \<Rightarrow> string \<Rightarrow> step" where
  "description_field re s st = do {
     r \<leftarrow> filter_regex re regex_patten s;
     print (js_str k_description (case r of None \<Rightarrow> [] | Some t \<Rightarrow> t)) st
   }"

text \<open>\<^verbatim>\<open>(atoi(atk_min) + atoi(tmp_title))/2\<close>\<close>

definition attack :: "string \<Rightarrow> string \<Rightarrow> int option" where
  "attack a s = do {
     x \<leftarrow> atoi a;
     y \<leftarrow> atoi s;
     z \<leftarrow> c_int (x + y);
     Some (if z \<ge> 0 then z div 2 else - ((- z) div 2))
   }"

definition weapon_type :: "string \<Rightarrow> string" where
  "weapon_type s =
     (if strcmp s ''sword(1)'' = 0 then js_str k_weapon_type ''2''
      else if strcmp s ''gauntlet(2)'' = 0 then js_str k_weapon_type ''3''
      else if strcmp s ''axe(3)'' = 0 then js_str k_weapon_type ''7''
      else if strcmp s ''staff(4)'' = 0 then js_str k_weapon_type ''9''
      else if strcmp s ''aura-bangle(5)'' = 0 then js_str k_weapon_type ''4''
      else if strcmp s ''dagger(6)'' = 0 then js_str k_weapon_type ''10''
      else [])"

definition quoted :: "string \<Rightarrow> string" where
  "quoted t = DQ @ t @ DQ"

text \<open>The names in column 28; \<^const>\<open>None\<close> when it is none of the known ones.\<close>

definition jobs :: "string \<Rightarrow> string option" where
  "jobs s =
     (if strcmp s ''0,0'' = 0 then Some (quoted [])
      else if strcmp s ''1,0'' = 0 then Some (quoted j_swordsman)
      else if strcmp s ''1,8'' = 0 then Some (quoted j_swordsman @ '','' @ quoted j_spirit_swordsman)
      else if strcmp s ''2,0'' = 0 then Some (quoted j_boxer)
      else if strcmp s ''3,0'' = 0 then Some (quoted j_qigong)
      else if strcmp s ''5,0'' = 0 then Some (quoted j_strongman)
      else if strcmp s ''6,0'' = 0 then Some (quoted j_summoner)
      else if strcmp s ''7,0'' = 0 then Some (quoted j_assassin)
      else if strcmp s ''7,9'' = 0 then Some (quoted j_assassin @ '','' @ quoted j_sorcerer)
      else if strcmp s ''8,0'' = 0 then Some (quoted j_spirit_swordsman)
      else if strcmp s ''9,0'' = 0 then Some (quoted j_sorcerer)
      else None)"

definition item_grade :: "string \<Rightarrow> string" where
  "item_grade s = js_str ''item_grade'' (if strcmp s ''7'' = 0 then ''6'' else s)"

text \<open>Columns 81 and 82: the first is kept for the second. A freed \<^verbatim>\<open>atk_min\<close> is like a null pointer: nothing may be read from it.\<close>

definition keep_attack :: "string \<Rightarrow> step" where
  "keep_attack s = unseen (\<lambda>st. Some (None, st\<lparr>it_atk_min := Some s\<rparr>))"

section \<open>Weapons\<close>

text \<open>The columns of which both programs print a fixed text with the field in it.\<close>

definition weapon_text :: "nat \<Rightarrow> string \<Rightarrow> string" where
  "weapon_text n s =
     (if n = 4 then js_num k_price s
      else if n = 8 then weapon_type s
      else if n = 14 then js_str k_no_trade s @ (if strcmp s ''y'' = 0 then js_str k_bound ''2'' else [])
      else if n = 24 then js_num ''gear_score'' s
      else if n = 25 then js_num k_required_level s
      else if n = 34 then item_grade s
      else if n = 35 then js_str k_durability ''100/100'' @ js_num ''disable'' ''0'' @ js_str ''growth_level_exp'' ''0''
        @ js_num ''growth_recipe_cost'' ''0'' @ js_num ''mesh_id'' ''0'' @ js_num ''hidden'' ''0'' @ js_num k_focus ''0'' @ js_num k_extra_damage ''0''
      else if n = 85 then js_num k_defence s
      else if n = 90 then js_num k_accuracy s
      else if n = 94 then js_num k_piercing s
      else if n = 98 then js_num k_critical s
      else if n = 102 then js_num k_crit_defence s
      else if n = 105 then js_num k_evasion s
      else if n = 108 then js_num k_block s
      else if n = 123 then js_num k_max_life s
      else if n = 175 then js_num k_recovery s @ js_num k_fight_recovery s
      else if n = 229 then js_str ''name'' s
      else [])"

text \<open>\<^verbatim>\<open>"weapons":["%d"],\<close>\<close>

definition weapons_text :: "int \<Rightarrow> string" where
  "weapons_text i = DQ @ ''weapons'' @ DQ @ '':['' @ quoted (show_int i) @ ''],''"

definition weapon_id :: "int \<Rightarrow> int \<Rightarrow> string \<Rightarrow> string" where
  "weapon_id v i s = (if v > 1 then show_int i @ ''_'' @ s else show_int i)"

definition weapon_handle_field :: "regex \<Rightarrow> kv_table \<Rightarrow> act" where
  "weapon_handle_field re t n s st =
     (if n = 0 then do { v \<leftarrow> atoi s; Some (None, st\<lparr>it_id := v\<rparr>) }
      else if n = 1 then do {
        v \<leftarrow> atoi s;
        print (''{'' @ js_str ''_id'' (weapon_id v (it_id st) s) @ weapons_text (it_id st) @ js_num ''level'' s) st
      }
      else if n = 28 then print (case jobs s of None \<Rightarrow> [] | Some j \<Rightarrow> DQ @ k_job @ DQ @ '':['' @ j @ ''],'') st
      else if n = 81 then keep_attack s st
      else if n = 82 then do {
        a \<leftarrow> it_atk_min st;
        v \<leftarrow> attack a s;
        print (DQ @ k_attack_range @ DQ @ '':['' @ show_int v @ ''],'') (st\<lparr>it_atk_min := None\<rparr>)
      }
      else if n = 232 then icon_field re t s st
      else if n = 260 then description_field re s st
      else if n = 266 then location_field re s st
      else if n = 267 then effects_field re (\<lambda>p. p) s st
      else print (weapon_text n s) st)"

definition real_weapon_field :: "regex \<Rightarrow> kv_table \<Rightarrow> act" where
  "real_weapon_field re t n s st =
     (if n = 0 then do { v \<leftarrow> atoi s; Some (None, st\<lparr>it_id := v\<rparr>) }
      else if n = 1 then do {
        v \<leftarrow> atoi s;
        print (''{'' @ js_str ''_id'' (weapon_id v (it_id st) s) @ weapons_text (it_id st)
          @ js_str ''collectweapon_id'' (weapon_id v (it_id st) s) @ js_num ''level'' s) st
      }
      else if n = 28 then print (case jobs s of None \<Rightarrow> [] | Some j \<Rightarrow> js_num k_job j) st
      else if n = 81 then keep_attack s st
      else if n = 82 then do {
        a \<leftarrow> it_atk_min st;
        v \<leftarrow> attack a s;
        print (js_num k_attack (show_int v)) (st\<lparr>it_atk_min := None\<rparr>)
      }
      else if n = 232 then icon_field re t s st
      else if n = 260 then description_field re s st
      else if n = 266 then location_field re s st
      else if n = 267 then effects_field re (\<lambda>_. s) s st
      else print (weapon_text n s) st)"

text \<open>\<^verbatim>\<open>weapon_handle\<close> selects one line by a number in the source.\<close>

definition is_624040 :: "string \<Rightarrow> bool option" where
  "is_624040 s = map_option (\<lambda>v. v = 624040) (atoi s)"

definition weapon_handle_main :: "regex \<Rightarrow> string list \<Rightarrow> FILE option \<Rightarrow> icons \<Rightarrow> (nat \<Rightarrow> bool) \<Rightarrow> (status \<times> item) option" where
  "weapon_handle_main re argv fopen icons failing =
     with_file (length argv = 2) fopen (item_new 300 failing)
       (\<lambda>f. with_icons icons (item_new 300 failing)
         (\<lambda>(t, _). item_main (data_field is_624040 (weapon_handle_field re t)) 300 failing f))"

definition real_weapon_main :: "regex \<Rightarrow> string list \<Rightarrow> FILE option \<Rightarrow> icons \<Rightarrow> (nat \<Rightarrow> bool) \<Rightarrow> (status \<times> item) option" where
  "real_weapon_main re argv fopen icons failing =
     with_file (4 \<le> length argv) fopen (item_new 300 failing)
       (\<lambda>f. with_icons icons (item_new 300 failing)
         (\<lambda>(t, _). item_main (data_field (in_range (argv ! 2) (argv ! 3)) (real_weapon_field re t)) 300 failing f))"

section \<open>Gems\<close>

definition game_category :: "string \<Rightarrow> string" where
  "game_category s =
     (if strcmp s ''gam1(7)'' = 0 then js_str ''game_category'' ''1''
      else if strcmp s ''gan2(8)'' = 0 then js_str ''game_category'' ''2''
      else if strcmp s ''jin3(9)'' = 0 then js_str ''game_category'' ''3''
      else if strcmp s ''son4(10)'' = 0 then js_str ''game_category'' ''4''
      else if strcmp s ''ri5(11)'' = 0 then js_str ''game_category'' ''5''
      else if strcmp s ''gon6(12)'' = 0 then js_str ''game_category'' ''6''
      else if strcmp s ''tae7(13)'' = 0 then js_str ''game_category'' ''7''
      else if strcmp s ''geon8(14)'' = 0 then js_str ''game_category'' ''8''
      else [])"

definition gem_text :: "nat \<Rightarrow> string \<Rightarrow> string" where
  "gem_text n s =
     (if n = 0 then ''{'' @ js_str ''_id'' s
      else if n = 4 then js_num ''price'' s
      else if n = 8 then game_category s
      else if n = 24 then js_num ''gear_score'' s
      else if n = 25 then js_num k_required_level s
      else if n = 34 then item_grade s
      else if n = 90 then js_num k_accuracy s
      else if n = 94 then js_num k_piercing s
      else if n = 98 then js_num k_critical s
      else if n = 102 then js_num k_crit_defence s
      else if n = 105 then js_num k_evasion s
      else if n = 108 then js_num k_block s
      else if n = 123 then js_num k_max_life s
      else if n = 134 then js_num ''max_value'' s
      else if n = 229 then js_str ''name'' s
      else if n = 263 then js_str ''title'' s
      else if n = 267 then js_str ''description'' s
      else if n = 289 then DQ @ ''money_cost'' @ DQ @ '':'' @ s @ ''}'' @ [NL]
      else [])"

text \<open>
  Column 287: the items of a recipe are kept in \<^verbatim>\<open>ptr3\<close>. The allocation is \<^verbatim>\<open>malloc(strlen(f+1))\<close>, two characters short; \<open>meant\<close> tells this reading
  from the one that is meant, \<^verbatim>\<open>malloc(strlen(f)+1)\<close>. No pattern used here matches an empty group; what \<^verbatim>\<open>f+1\<close> is then is left undefined.
\<close>

definition consum_room :: "bool \<Rightarrow> string \<Rightarrow> nat" where
  "consum_room meant f = (if meant then length f + 1 else length f - 1)"

fun consum_loop :: "bool \<Rightarrow> regex \<Rightarrow> string list \<Rightarrow> item \<Rightarrow> item option" where
  "consum_loop meant re [] st = Some st"
| "consum_loop meant re (p # ps) st = do {
     r \<leftarrow> filter_regex re regex_consum p;
     case r of
       None \<Rightarrow> consum_loop meant re ps st
     | Some f \<Rightarrow>
         let (ok, st1) = alloc st in
         if ok \<and> it_loc_2 st1 < length (it_ptr3 st1) \<and> length f < consum_room meant f
         then consum_loop meant re ps (st1\<lparr>it_ptr3 := (it_ptr3 st1)[it_loc_2 st1 := Some (Some f)], it_loc_2 := Suc (it_loc_2 st1)\<rparr>)
         else None
   }"

definition consum_field :: "bool \<Rightarrow> regex \<Rightarrow> string \<Rightarrow> step" where
  "consum_field meant re s st = do {
     ps \<leftarrow> strntok_all '',1,'' 3 (Some s);
     st1 \<leftarrow> consum_loop meant re ps (st\<lparr>it_loc_2 := 0\<rparr>);
     Some (None, st1)
   }"

text \<open>Column 288: the amounts, printed with the items.\<close>

definition consum_text :: "nat \<Rightarrow> string \<Rightarrow> string \<Rightarrow> string" where
  "consum_text i f p = (if i > 0 then '','' else []) @ ''[['' @ quoted f @ '','' @ quoted ''grocery'' @ ''],'' @ p @ '']''"

fun amount_loop :: "string list \<Rightarrow> item \<Rightarrow> item option" where
  "amount_loop [] st = Some st"
| "amount_loop (p # ps) st =
     (if it_loc_2 st < length (it_ptr3 st) then
        (case it_ptr3 st ! it_loc_2 st of
           None \<Rightarrow> None
         | Some None \<Rightarrow> amount_loop ps (st\<lparr>it_loc_2 := Suc (it_loc_2 st)\<rparr>)
         | Some (Some f) \<Rightarrow>
             amount_loop ps ((say (consum_text (it_loc_2 st) f p) st)
               \<lparr>it_ptr3 := (it_ptr3 st)[it_loc_2 st := Some None], it_loc_2 := Suc (it_loc_2 st)\<rparr>))
      else None)"

definition amount_field :: "string \<Rightarrow> step" where
  "amount_field s st = do {
     let st = say (DQ @ ''consumable'' @ DQ @ '':['') st;
     st1 \<leftarrow> (if it_loc_2 st > 0
             then Option.bind (strntok_all '','' 1 (Some s)) (\<lambda>ps. amount_loop ps (st\<lparr>it_loc_2 := 0\<rparr>))
             else Some st);
     print ''],'' st1
   }"

definition real_gem_field :: "bool \<Rightarrow> regex \<Rightarrow> kv_table \<Rightarrow> act" where
  "real_gem_field meant re t n s st =
     (if n = 232 then icon_field re t s st
      else if n = 266 then location_field re s st
      else if n = 287 then consum_field meant re s st
      else if n = 288 then amount_field s st
      else print (gem_text n s) st)"

text \<open>Column 64 of \<^verbatim>\<open>gem_effect\<close>: the effects of a set of three, five and eight gems, each looked up through two tables.\<close>

record gem_tables =
  gt_icons :: kv_table
  gt_set_3 :: kv_table
  gt_set_5 :: kv_table
  gt_set_8 :: kv_table
  gt_equip :: kv_table

definition set_effect :: "regex \<Rightarrow> kv_table \<Rightarrow> kv_table \<Rightarrow> string \<Rightarrow> string \<Rightarrow> step" where
  "set_effect re set_item equip name k st = do {
     v \<leftarrow> find_value set_item k;
     r \<leftarrow> filter_regex re regex_effect v;
     case r of
       None \<Rightarrow> Some (None, st)
     | Some e \<Rightarrow> or_return (unseen (\<lambda>st. Option.bind (find_value equip e) (\<lambda>x. print (js_str name x) st))) st
   }"

definition set_field :: "regex \<Rightarrow> gem_tables \<Rightarrow> string \<Rightarrow> step" where
  "set_field re t s st = do {
     r \<leftarrow> filter_regex re regex_set_item s;
     case r of
       None \<Rightarrow> Some (None, st)
     | Some k \<Rightarrow>
         or_return (unseen
           (and_then (set_effect re (gt_set_3 t) (gt_equip t) ''count_3_effect'' k)
             (and_then (set_effect re (gt_set_5 t) (gt_equip t) ''count_5_effect'' k)
               (set_effect re (gt_set_8 t) (gt_equip t) ''count_8_effect'' k)))) st
   }"

definition gem_effect_field :: "bool \<Rightarrow> regex \<Rightarrow> gem_tables \<Rightarrow> act" where
  "gem_effect_field meant re t n s st =
     (if n = 64 then set_field re t s st else real_gem_field meant re (gt_icons t) n s st)"

definition real_gem_main :: "bool \<Rightarrow> regex \<Rightarrow> string list \<Rightarrow> FILE option \<Rightarrow> icons \<Rightarrow> (nat \<Rightarrow> bool) \<Rightarrow> (status \<times> item) option" where
  "real_gem_main meant re argv fopen icons failing =
     with_file (4 \<le> length argv) fopen (item_new 400 failing)
       (\<lambda>f. with_icons icons (item_new 400 failing)
         (\<lambda>(t, _). item_main (data_field (in_range (argv ! 2) (argv ! 3)) (real_gem_field meant re t)) 400 failing f))"

text \<open>The four tables of \<^verbatim>\<open>gem_effect\<close>, from the files of the sets and of the effects, and the outcomes of their allocations.\<close>

type_synonym set_files = "FILE option \<times> FILE option \<times> (nat \<Rightarrow> (nat \<Rightarrow> List) option)"

definition load_sets :: "set_files \<Rightarrow> kv_table \<times> bmem \<Rightarrow> gem_tables option" where
  "load_sets = (\<lambda>(sets, effects, buckets) ((m, icons), bm). do {
     (_, t3, m, bm) \<leftarrow> create_setitem_hash sets (buckets 0) bm m chtbl_zero 5;
     (_, t5, m, bm) \<leftarrow> create_setitem_hash sets (buckets 1) bm m chtbl_zero 7;
     (_, t8, m, bm) \<leftarrow> create_setitem_hash sets (buckets 2) bm m chtbl_zero 10;
     (_, te, m, bm) \<leftarrow> create_setitem_hash effects (buckets 3) bm m chtbl_zero 87;
     Some \<lparr>gt_icons = (m, icons), gt_set_3 = (m, t3), gt_set_5 = (m, t5), gt_set_8 = (m, t8), gt_equip = (m, te)\<rparr>
   })"

definition gem_effect_main ::
  "bool \<Rightarrow> regex \<Rightarrow> string list \<Rightarrow> FILE option \<Rightarrow> icons \<Rightarrow> set_files \<Rightarrow> (nat \<Rightarrow> bool) \<Rightarrow> (status \<times> item) option" where
  "gem_effect_main meant re argv fopen icons sets failing =
     with_file (4 \<le> length argv) fopen (item_new 400 failing)
       (\<lambda>f. with_icons icons (item_new 400 failing)
         (\<lambda>x. case load_sets sets x of
            None \<Rightarrow> Some (Undefined, item_new 400 failing)
          | Some t \<Rightarrow> item_main (data_field (in_range (argv ! 2) (argv ! 3)) (gem_effect_field meant re t)) 400 failing f))"

section \<open>How the programs end\<close>

definition step_returns :: "step \<Rightarrow> bool" where
  "step_returns a \<longleftrightarrow> (\<forall>st v st1. a st = Some (Some v, st1) \<longrightarrow> v = 1)"

lemma step_returns_basic [simp]: "step_returns (print t)" "step_returns (\<lambda>st. None)" "step_returns (\<lambda>st. Some (None, g st))"
  by (simp_all add: step_returns_def print_def)

lemma step_returns_alloc [simp]: "step_returns k \<Longrightarrow> step_returns (or_return k)" "step_returns k \<Longrightarrow> step_returns (unseen k)"
  by (auto simp: step_returns_def or_return_def unseen_def Let_def split: prod.splits if_splits)

lemma step_returns_then [simp]: "step_returns a \<Longrightarrow> step_returns b \<Longrightarrow> step_returns (and_then a b)"
  by (fastforce simp: step_returns_def and_then_def bind_eq_Some split: option.splits)

lemma step_returns_bind [simp]: "(\<And>x. step_returns (k x)) \<Longrightarrow> step_returns (\<lambda>st. Option.bind a (\<lambda>x. k x st))"
  by (auto simp: step_returns_def bind_eq_Some)

lemma step_returns_case [simp]:
  "step_returns a \<Longrightarrow> (\<And>x. step_returns (b x)) \<Longrightarrow> step_returns (\<lambda>st. case r of None \<Rightarrow> a st | Some x \<Rightarrow> b x st)"
  by (cases r) simp_all

lemma step_returns_fields [simp]:
  "step_returns (icon_field re t s)" "step_returns (location_field re s)" "step_returns (effects_field re probe s)"
  "step_returns (description_field re s)" "step_returns (keep_attack s)" "step_returns (consum_field meant re s)"
  "step_returns (amount_field s)" "step_returns (set_effect re a b name k)"
proof -
  show "step_returns (icon_field re t s)"
    unfolding icon_field_def by simp
  show "step_returns (keep_attack s)"
    unfolding keep_attack_def by simp
  show "step_returns (set_effect re a b name k)"
    unfolding set_effect_def [abs_def] by (intro step_returns_bind step_returns_case) simp_all
qed (auto simp: step_returns_def location_field_def effects_field_def description_field_def consum_field_def amount_field_def
    print_def bind_eq_Some Let_def)

lemma step_returns_set: "step_returns (set_field re t s)"
  unfolding set_field_def [abs_def] by (intro step_returns_bind step_returns_case) simp_all

lemma step_return_1: "step_returns a \<Longrightarrow> a st = Some (Some v, st1) \<Longrightarrow> v = 1"
  unfolding step_returns_def by blast

lemmas step_fields_return = step_returns_fields [THEN step_return_1] step_returns_set [THEN step_return_1] step_returns_basic [THEN step_return_1]

lemma item_fields_return:
  "returns_only {1} (weapon_handle_field re t)" "returns_only {1} (real_weapon_field re t)" "returns_only {1} (real_gem_field meant re t)"
  "returns_only {1} (gem_effect_field meant re g)"
  by (auto simp: returns_only_def weapon_handle_field_def real_weapon_field_def real_gem_field_def gem_effect_field_def bind_eq_Some
      split: if_splits dest: step_fields_return)

definition ends_badly :: "(status \<times> item) option \<Rightarrow> bool" where
  "ends_badly x \<longleftrightarrow> (\<exists>r st. x = Some (r, st) \<and> r \<in> {Undefined, Returned 1})"

lemma item_main_ends_badly:
  assumes "returns_only {1} switch" "\<not> f_eof f"
  shows "ends_badly (item_main (data_field sel switch) k failing f)"
  by (rule item_main_ends [OF returns_only_data [OF assms(1)] assms(2), of sel k failing]) (auto simp: ends_badly_def)

lemma with_file_ends_badly: "ends_badly (main f) \<Longrightarrow> ends_badly (with_file ok (Some f) st main)"
  by (auto simp: with_file_def ends_badly_def)

lemma with_icons_ends_badly: "(\<And>x. ends_badly (main x)) \<Longrightarrow> ends_badly (with_icons icons st main)"
  by (auto simp: with_icons_def ends_badly_def split: option.splits)

section \<open>Recipes\<close>

lemma consum_loop_written:
  "consum_loop False re ps st = Some st1 \<Longrightarrow> \<forall>p \<in> set ps. \<forall>f. filter_regex re regex_consum p \<noteq> Some (Some f)"
proof (induction ps arbitrary: st)
  case (Cons p ps)
  then obtain r where r: "filter_regex re regex_consum p = Some r"
    by (auto simp: bind_eq_Some)
  then have "r = None"
    using Cons.prems by (auto simp: consum_room_def Let_def split: option.splits prod.splits if_splits)
  then show ?case
    using Cons r by auto
qed simp

definition consumed :: "item \<Rightarrow> string list \<Rightarrow> item" where
  "consumed st fs = st\<lparr>it_ptr3 := take (it_loc_2 st) (it_ptr3 st) @ map (Some \<circ> Some) fs @ drop (it_loc_2 st + length fs) (it_ptr3 st),
     it_loc_2 := it_loc_2 st + length fs, it_allocs := it_allocs st + length fs\<rparr>"

lemma consum_loop_meant:
  "list_all2 (\<lambda>p r. filter_regex re regex_consum p = Some r) ps rs \<Longrightarrow> roomy st \<Longrightarrow>
   it_loc_2 st + length (List.map_filter (\<lambda>r. r) rs) \<le> length (it_ptr3 st) \<Longrightarrow>
   consum_loop True re ps st = Some (consumed st (List.map_filter (\<lambda>r. r) rs))"
proof (induction ps rs arbitrary: st rule: list_all2_induct)
  case Nil
  then show ?case by (simp add: consumed_def map_filter_def)
next
  case (Cons p ps r rs)
  show ?case
  proof (cases r)
    case None
    then show ?thesis
      using Cons by (simp add: map_filter_simps)
  next
    case (Some f)
    let ?st = "st\<lparr>it_allocs := Suc (it_allocs st), it_ptr3 := (it_ptr3 st)[it_loc_2 st := Some (Some f)], it_loc_2 := Suc (it_loc_2 st)\<rparr>"
    have len: "it_loc_2 st + Suc (length (List.map_filter (\<lambda>r. r) rs)) \<le> length (it_ptr3 st)"
      using Some Cons.prems(2) by (simp add: map_filter_simps)
    have "consum_loop True re ps ?st = Some (consumed ?st (List.map_filter (\<lambda>r. r) rs))"
      using Cons.prems len by (intro Cons.IH) (auto simp: roomy_def)
    moreover have "consum_loop True re (p # ps) st = consum_loop True re ps ?st"
      using Some Cons.hyps Cons.prems(1) len by (simp add: alloc_roomy consum_room_def)
    moreover have "consumed ?st (List.map_filter (\<lambda>r. r) rs) = consumed st (List.map_filter (\<lambda>r. r) (r # rs))"
      using Some len by (simp add: consumed_def map_filter_simps take_Suc_conv_app_nth)
    ultimately show ?thesis
      by simp
  qed
qed

definition recipe :: "nat \<Rightarrow> string list \<Rightarrow> string list \<Rightarrow> string" where
  "recipe i fs qs = concat (map (\<lambda>(i, f, q). consum_text i f q) (List.enumerate i (zip fs qs)))"

lemma amount_loop_recipe:
  "it_loc_2 st + length fs \<le> length (it_ptr3 st) \<Longrightarrow> \<forall>i < length fs. it_ptr3 st ! (it_loc_2 st + i) = Some (Some (fs ! i)) \<Longrightarrow>
   length qs \<le> length fs \<Longrightarrow> \<exists>st1. amount_loop qs st = Some st1 \<and> it_out st1 = it_out st @ recipe (it_loc_2 st) fs qs"
proof (induction qs arbitrary: st fs)
  case Nil
  then show ?case by (simp add: recipe_def)
next
  case (Cons q qs)
  then obtain f gs where fs: "fs = f # gs" by (cases fs) auto
  let ?i = "it_loc_2 st"
  let ?st = "(say (consum_text ?i f q) st)\<lparr>it_ptr3 := (it_ptr3 st)[?i := Some None], it_loc_2 := Suc ?i\<rparr>"
  have "it_ptr3 st ! ?i = Some (Some f)"
    using Cons.prems(2) fs by fastforce
  then have "amount_loop (q # qs) st = amount_loop qs ?st"
    using Cons.prems(1) fs by simp
  moreover have "\<forall>i < length gs. it_ptr3 ?st ! (it_loc_2 ?st + i) = Some (Some (gs ! i))"
    using Cons.prems(2) fs by fastforce
  then have "\<exists>st1. amount_loop qs ?st = Some st1 \<and> it_out st1 = it_out ?st @ recipe (it_loc_2 ?st) gs qs"
    using Cons.prems(1,3) fs by (intro Cons.IH) auto
  ultimately show ?case
    by (simp add: fs recipe_def say_def)
qed

section \<open>Effects\<close>

definition effects_text :: "regex \<Rightarrow> nat \<Rightarrow> string list \<Rightarrow> string" where
  "effects_text re i ps = concat (map (\<lambda>(i, p). (if i > 0 then '','' else []) @
     quoted (case filter_regex re regex_patten p of Some (Some t) \<Rightarrow> t | _ \<Rightarrow> [])) (List.enumerate i ps))"

lemma effects_loop_same:
  "\<forall>p \<in> set ps. filter_regex re regex_patten p \<noteq> None \<Longrightarrow> effects_loop re (\<lambda>p. p) i ps = Some (effects_text re i ps)"
  by (induction ps arbitrary: i) (auto simp: effects_text_def quoted_def split: option.splits)

lemma effects_loop_whole:
  "\<forall>p \<in> insert s (set ps). filter_regex re regex_patten p \<noteq> None \<Longrightarrow>
   effects_loop re (\<lambda>_. s) i ps = None \<longleftrightarrow> filter_regex re regex_patten s \<noteq> Some None \<and> (\<exists>p \<in> set ps. filter_regex re regex_patten p = Some None)"
  by (induction ps arbitrary: i) (auto simp: bind_eq_None_conv split: option.splits)

section \<open>Properties\<close>

text \<open>
  C34: Whatever its arguments, its tables, the regular expressions and the outcomes of \<^verbatim>\<open>malloc\<close> are, none of the six programs that convert
  tables returns 0 on a table that it can open: each ends, either with the value 1 or in undefined behaviour. The loop tests for the end of the
  file before it reads, so that its last turn works on an empty or unterminated line.
\<close>

theorem bns_programs_never_succeed:
  assumes "\<not> f_eof f"
    and "main \<in> {gem_handle_main argv (Some f) failing, weapon_info_main argv (Some f) icons failing, weapon_handle_main re argv (Some f) icons failing,
      real_weapon_main re argv (Some f) icons failing, real_gem_main meant re argv (Some f) icons failing,
      gem_effect_main meant re argv (Some f) icons sets failing}"
  shows "\<exists>r st. main = Some (r, st) \<and> r \<in> {Undefined, Returned 1}"
proof -
  note ends = item_main_ends_badly [OF _ assms(1)] print_fields_return item_fields_return
  have "ends_badly (gem_handle_main argv (Some f) failing)" "ends_badly (weapon_info_main argv (Some f) icons failing)"
    "ends_badly (weapon_handle_main re argv (Some f) icons failing)" "ends_badly (real_weapon_main re argv (Some f) icons failing)"
    "ends_badly (real_gem_main meant re argv (Some f) icons failing)" "ends_badly (gem_effect_main meant re argv (Some f) icons sets failing)"
    unfolding gem_handle_main_def weapon_info_main_def weapon_handle_main_def real_weapon_main_def real_gem_main_def gem_effect_main_def
    by (auto intro!: with_file_ends_badly with_icons_ends_badly ends simp: ends_badly_def [of "Some _"] split: option.split)
  then show ?thesis
    using assms(2) unfolding ends_badly_def by blast
qed

theorem bns_programs_never_succeed_witness:
  "\<exists>r st. real_weapon_main (\<lambda>_ _. No_match) [] (Some ex_file) (None, None, ex_m0, ex_m0) (\<lambda>_. False) = Some (r, st) \<and> r \<in> {Undefined, Returned 1}"
  by (rule bns_programs_never_succeed [of ex_file]) (auto simp: ex_file_def)

text \<open>
  C35: The recipe of a gem. As written the allocation for an item is too small, and a recipe with an item is undefined behaviour. With the
  allocation as it is meant, the items of column 287 are printed with the amounts of column 288, the first with the first and so on,
  as long as there are at most six items and no more amounts than items.
\<close>

theorem gem_recipe:
  assumes "strntok_all '',1,'' 3 (Some s) = Some ps" "list_all2 (\<lambda>p r. filter_regex re regex_consum p = Some r) ps rs"
    "fs = List.map_filter (\<lambda>r. r) rs" "fs \<noteq> []" "length fs \<le> 6" "length (it_ptr3 st) = 6" "it_fail st = (\<lambda>_. False)"
    "strntok_all '','' 1 (Some a) = Some qs" "length qs \<le> length fs"
  shows "real_gem_field False re t 287 s st = None \<and>
    (\<exists>st1 st2. real_gem_field True re t 287 s st = Some (None, st1) \<and> real_gem_field True re t 288 a st1 = Some (None, st2) \<and>
      it_out st2 = it_out st @ quoted ''consumable'' @ '':['' @ recipe 0 fs qs @ ''],'')"
proof -
  have "\<exists>p \<in> set ps. \<exists>f. filter_regex re regex_consum p = Some (Some f)"
    using assms(2-4) by (induction ps rs rule: list_all2_induct) (auto simp: map_filter_simps split: option.splits)
  then have "consum_loop False re ps st0 = None" for st0
    using consum_loop_written [of re ps st0] by (cases "consum_loop False re ps st0") auto
  then have written: "real_gem_field False re t 287 s st = None"
    using assms(1) by (simp add: real_gem_field_def consum_field_def)
  let ?st1 = "consumed (st\<lparr>it_loc_2 := 0\<rparr>) fs"
  have "consum_loop True re ps (st\<lparr>it_loc_2 := 0\<rparr>) = Some ?st1"
    using consum_loop_meant [OF assms(2), of "st\<lparr>it_loc_2 := 0\<rparr>"] assms(3,5-7) by (simp add: roomy_def)
  then have st1: "real_gem_field True re t 287 s st = Some (None, ?st1)"
    using assms(1) by (simp add: real_gem_field_def consum_field_def)
  let ?st = "(say (DQ @ ''consumable'' @ DQ @ '':['') ?st1)\<lparr>it_loc_2 := 0\<rparr>"
  have "\<exists>st2. amount_loop qs ?st = Some st2 \<and> it_out st2 = it_out ?st @ recipe (it_loc_2 ?st) fs qs"
    using assms(5,6,9) by (intro amount_loop_recipe) (auto simp: say_def consumed_def nth_append)
  then obtain st2 where "amount_loop qs ?st = Some st2" "it_out st2 = it_out ?st @ recipe 0 fs qs"
    by auto
  then have "real_gem_field True re t 288 a ?st1 = Some (None, say ''],'' st2)"
    using assms(4,8) by (simp add: real_gem_field_def amount_field_def print_def consumed_def say_def Let_def)
  moreover have "it_out (say ''],'' st2) = it_out st @ quoted ''consumable'' @ '':['' @ recipe 0 fs qs @ ''],''"
    using \<open>it_out st2 = _\<close> by (simp add: say_def quoted_def consumed_def)
  ultimately show ?thesis
    using written st1 by blast
qed

text \<open>
  The effects of a weapon. \<^verbatim>\<open>weapon_handle\<close> prints for every part the text in its tag, or an empty one. \<^verbatim>\<open>real_weapon\<close> looks for the tag in
  the whole field instead of the part: it prints a null pointer exactly when the field has a tag and some part has none.
\<close>

theorem weapon_effects:
  assumes "strntok_all ''><br/>'' 6 (Some s) = Some ps" "\<forall>p \<in> insert s (set ps). filter_regex re regex_patten p \<noteq> None"
  shows "(\<exists>st1. weapon_handle_field re t 267 s st = Some (None, st1) \<and>
      it_out st1 = it_out st @ quoted k_effects @ '':['' @ effects_text re 0 ps @ '']}'' @ [NL])
    \<and> (real_weapon_field re t 267 s st = None \<longleftrightarrow>
        filter_regex re regex_patten s \<noteq> Some None \<and> (\<exists>p \<in> set ps. filter_regex re regex_patten p = Some None))"
  using effects_loop_same [of ps re 0] effects_loop_whole [of s ps re 0] assms
  by (simp add: weapon_handle_field_def real_weapon_field_def effects_field_def print_def say_def quoted_def bind_eq_None_conv)

section \<open>Instances\<close>

text \<open>A matcher for texts of the form \<^verbatim>\<open>item:n\<close> and \<^verbatim>\<open><b c>n</font\<close>: the group is what follows the first five characters.\<close>

definition ex_regex :: regex where
  "ex_regex pat src =
     (if take 5 src = ''item:'' \<or> take 5 src = ''<b c>'' then Groups [(0, length src), (5, length src)] else No_match)"

lemma ex_regex_laws: "regex_laws ex_regex"
proof -
  have "5 \<le> length src" if "take 5 src = ''item:'' \<or> take 5 src = ''<b c>''" for src :: string
  proof -
    have "length (take 5 src) = 5"
      using that by (elim disjE) (simp_all only:, simp_all)
    then show ?thesis
      by simp
  qed
  then show ?thesis
    unfolding regex_laws_def ex_regex_def by simp
qed

lemma ex_tokens:
  "strntok_all '',1,'' 3 (Some ''item:7,1,item:8'') = Some [''item:7'', ''item:8'']"
  "strntok_all '','' 1 (Some ''2,3'') = Some [''2'', ''3'']"
  "strntok_all ''><br/>'' 6 (Some ''<b c>x><br/>y'') = Some [''<b c>x'', ''y'']"
proof -
  show "strntok_all '',1,'' 3 (Some ''item:7,1,item:8'') = Some [''item:7'', ''item:8'']"
    using strntok_all_splits_joined_tokens [of "[''item:7'', ''item:8'']" "CHR '',''" "CHR ''1''" "'',''"]
    by (simp add: good_token_def NUL_def INT_MAX_def)
  show "strntok_all ''><br/>'' 6 (Some ''<b c>x><br/>y'') = Some [''<b c>x'', ''y'']"
    using strntok_all_splits_joined_tokens [of "[''<b c>x'', ''y'']" "CHR ''>''" "CHR ''<''" "''br/>''"]
    by (simp add: good_token_def NUL_def INT_MAX_def)
  show "strntok_all '','' 1 (Some ''2,3'') = Some [''2'', ''3'']"
    by (simp add: strntok_all.simps [of _ _ "Some _"] strntok_all.simps [of _ _ None] strntok_def put_char_def c_hd_def cstr_res_buf NUL_def INT_MAX_def)
qed

lemma ex_filter:
  "filter_regex ex_regex pat ''item:7'' = Some (Some ''7'')" "filter_regex ex_regex pat ''item:8'' = Some (Some ''8'')"
  "filter_regex ex_regex pat ''<b c>x'' = Some (Some ''x'')" "filter_regex ex_regex pat ''y'' = Some None"
  "filter_regex ex_regex pat ''<b c>x><br/>y'' = Some (Some ''x><br/>y'')"
  by (simp_all add: filter_regex_def ex_regex_def)

theorem gem_recipe_witness:
  "real_gem_field False ex_regex (ex_m0, ex_kvt) 287 ''item:7,1,item:8'' (item_new 400 (\<lambda>_. False)) = None \<and>
   (\<exists>st1 st2. real_gem_field True ex_regex (ex_m0, ex_kvt) 287 ''item:7,1,item:8'' (item_new 400 (\<lambda>_. False)) = Some (None, st1) \<and>
      real_gem_field True ex_regex (ex_m0, ex_kvt) 288 ''2,3'' st1 = Some (None, st2) \<and>
      it_out st2 = quoted ''consumable'' @ '':['' @ ''[['' @ quoted ''7'' @ '','' @ quoted ''grocery'' @ ''],2]'' @ '',''
        @ ''[['' @ quoted ''8'' @ '','' @ quoted ''grocery'' @ ''],3]'' @ ''],'')"
  using gem_recipe [OF ex_tokens(1) _ _ _ _ _ _ ex_tokens(2), of ex_regex "[Some ''7'', Some ''8'']" "[''7'', ''8'']" "item_new 400 (\<lambda>_. False)"]
  by (simp add: ex_filter map_filter_simps item_new_def recipe_def consum_text_def)

theorem weapon_effects_witness:
  "(\<exists>st1. weapon_handle_field ex_regex (ex_m0, ex_kvt) 267 ''<b c>x><br/>y'' (item_new 300 (\<lambda>_. False)) = Some (None, st1) \<and>
      it_out st1 = quoted k_effects @ '':['' @ quoted ''x'' @ '','' @ quoted [] @ '']}'' @ [NL])
   \<and> real_weapon_field ex_regex (ex_m0, ex_kvt) 267 ''<b c>x><br/>y'' (item_new 300 (\<lambda>_. False)) = None"
  using weapon_effects [OF ex_tokens(3), of ex_regex "(ex_m0, ex_kvt)" "item_new 300 (\<lambda>_. False)"]
  by (simp add: ex_filter item_new_def effects_text_def)

end
