(* ===== verification/Bitree.thy ===== *)
theory Bitree
  imports Linked_List "HOL-Library.Tree"
begin

text \<open>
  The binary tree of \<^verbatim>\<open>lib/_structs/bitree.c\<close> and the traversals of
  \<^verbatim>\<open>lib/_structs/traverse.c\<close>. The nodes live in a block memory; the abstract value of a tree is a
  library tree whose labels pair the address of a node with its datum.
\<close>

section \<open>Data\<close>

record 'd BiTreeNode =
  n_data :: 'd
  n_left :: ptr
  n_right :: ptr

record BiTree =
  bt_size :: int
  bt_compare :: ptr
  bt_destroy :: ptr
  bt_root :: ptr

type_synonym 'd tmem = "'d BiTreeNode mem"

section \<open>Operations\<close>

definition bitree_init :: "BiTree \<Rightarrow> ptr \<Rightarrow> BiTree" where
  "bitree_init t destroy = t\<lparr>bt_size := 0, bt_destroy := destroy, bt_root := Null\<rparr>"

definition bitree_ins_left ::
  "'d tmem \<Rightarrow> BiTree \<Rightarrow> ptr \<Rightarrow> 'd \<Rightarrow> (int \<times> BiTree \<times> 'd tmem) option" where
  "bitree_ins_left m t node d =
     (if node = Null then
        if bt_size t > 0 then Some (-1, t, m)
        else (case malloc \<lparr>n_data = d, n_left = Null, n_right = Null\<rparr> m of
                (Null, m1) \<Rightarrow> Some (-1, t, m1)
              | (new_node, m1) \<Rightarrow> do {
                  sz \<leftarrow> c_int (bt_size t + 1);
                  Some (0, t\<lparr>bt_root := new_node, bt_size := sz\<rparr>, m1)
                })
      else do {
        nd \<leftarrow> load m node;
        if n_left nd \<noteq> Null then Some (-1, t, m)
        else (case malloc \<lparr>n_data = d, n_left = Null, n_right = Null\<rparr> m of
                (Null, m1) \<Rightarrow> Some (-1, t, m1)
              | (new_node, m1) \<Rightarrow> do {
                  nd1 \<leftarrow> load m1 node;
                  m2 \<leftarrow> store m1 node (nd1\<lparr>n_left := new_node\<rparr>);
                  sz \<leftarrow> c_int (bt_size t + 1);
                  Some (0, t\<lparr>bt_size := sz\<rparr>, m2)
                })
      })"

definition bitree_ins_right ::
  "'d tmem \<Rightarrow> BiTree \<Rightarrow> ptr \<Rightarrow> 'd \<Rightarrow> (int \<times> BiTree \<times> 'd tmem) option" where
  "bitree_ins_right m t node d =
     (if node = Null then
        if bt_size t > 0 then Some (-1, t, m)
        else (case malloc \<lparr>n_data = d, n_left = Null, n_right = Null\<rparr> m of
                (Null, m1) \<Rightarrow> Some (-1, t, m1)
              | (new_node, m1) \<Rightarrow> do {
                  sz \<leftarrow> c_int (bt_size t + 1);
                  Some (0, t\<lparr>bt_root := new_node, bt_size := sz\<rparr>, m1)
                })
      else do {
        nd \<leftarrow> load m node;
        if n_right nd \<noteq> Null then Some (-1, t, m)
        else (case malloc \<lparr>n_data = d, n_left = Null, n_right = Null\<rparr> m of
                (Null, m1) \<Rightarrow> Some (-1, t, m1)
              | (new_node, m1) \<Rightarrow> do {
                  nd1 \<leftarrow> load m1 node;
                  m2 \<leftarrow> store m1 node (nd1\<lparr>n_right := new_node\<rparr>);
                  sz \<leftarrow> c_int (bt_size t + 1);
                  Some (0, t\<lparr>bt_size := sz\<rparr>, m2)
                })
      })"

text \<open>
  \<^verbatim>\<open>bitree_rem_left\<close> and \<^verbatim>\<open>bitree_rem_right\<close> call each other and differ in the field that
  \<open>position\<close> points to; \<open>lft\<close> selects it. \<open>get_pos\<close> and \<open>set_pos\<close> read and write
  \<open>*position\<close>. The calls of \<^verbatim>\<open>destroy\<close> are collected in \<open>calls\<close>.
\<close>

definition n_child :: "bool \<Rightarrow> 'd BiTreeNode \<Rightarrow> ptr" where
  "n_child lft nd = (if lft then n_left nd else n_right nd)"

definition set_child :: "bool \<Rightarrow> ptr \<Rightarrow> 'd BiTreeNode \<Rightarrow> 'd BiTreeNode" where
  "set_child lft p nd = (if lft then nd\<lparr>n_left := p\<rparr> else nd\<lparr>n_right := p\<rparr>)"

definition get_pos :: "bool \<Rightarrow> 'd tmem \<Rightarrow> BiTree \<Rightarrow> ptr \<Rightarrow> ptr option" where
  "get_pos lft m t node =
     (if node = Null then Some (bt_root t) else map_option (n_child lft) (load m node))"

definition set_pos :: "bool \<Rightarrow> 'd tmem \<Rightarrow> BiTree \<Rightarrow> ptr \<Rightarrow> ptr \<Rightarrow> (BiTree \<times> 'd tmem) option" where
  "set_pos lft m t node p =
     (if node = Null then Some (t\<lparr>bt_root := p\<rparr>, m)
      else do {
        nd \<leftarrow> load m node;
        m1 \<leftarrow> store m node (set_child lft p nd);
        Some (t, m1)
      })"

definition destroy_call :: "ptr \<Rightarrow> 'd \<Rightarrow> 'd call list" where
  "destroy_call f d = (case f of Null \<Rightarrow> [] | Ptr g \<Rightarrow> [(g, d)])"

partial_function (option) bitree_rem ::
  "bool \<Rightarrow> 'd tmem \<Rightarrow> BiTree \<Rightarrow> 'd call list \<Rightarrow> ptr \<Rightarrow> (BiTree \<times> 'd tmem \<times> 'd call list) option" where
  "bitree_rem lft m t calls node =
     (if bt_size t = 0 then Some (t, m, calls)
      else Option.bind (get_pos lft m t node) (\<lambda>p.
        if p = Null then Some (t, m, calls)
        else
          Option.bind (bitree_rem True m t calls p) (\<lambda>(t1, m1, calls1).
          Option.bind (bitree_rem False m1 t1 calls1 p) (\<lambda>(t2, m2, calls2).
          Option.bind (get_pos lft m2 t2 node) (\<lambda>p2.
          Option.bind (load m2 p2) (\<lambda>nd.
          Option.bind (mem_free m2 p2) (\<lambda>m3.
          Option.bind (set_pos lft m3 t2 node Null) (\<lambda>(t3, m4).
          Option.bind (c_int (bt_size t3 - 1)) (\<lambda>sz.
          Some (t3\<lparr>bt_size := sz\<rparr>, m4, calls2 @ destroy_call (bt_destroy t2) (n_data nd)))))))))))"

definition bitree_rem_left ::
  "'d tmem \<Rightarrow> BiTree \<Rightarrow> ptr \<Rightarrow> (BiTree \<times> 'd tmem \<times> 'd call list) option" where
  "bitree_rem_left m t node = bitree_rem True m t [] node"

definition bitree_rem_right ::
  "'d tmem \<Rightarrow> BiTree \<Rightarrow> ptr \<Rightarrow> (BiTree \<times> 'd tmem \<times> 'd call list) option" where
  "bitree_rem_right m t node = bitree_rem False m t [] node"

definition bitree_zero :: BiTree where
  "bitree_zero = \<lparr>bt_size = 0, bt_compare = Null, bt_destroy = Null, bt_root = Null\<rparr>"

definition bitree_destroy ::
  "'d tmem \<Rightarrow> BiTree \<Rightarrow> (BiTree \<times> 'd tmem \<times> 'd call list) option" where
  "bitree_destroy m t = do {
     (t1, m1, calls) \<leftarrow> bitree_rem_left m t Null;
     Some (bitree_zero, m1, calls)
   }"

text \<open>
  \<^verbatim>\<open>bitree_merge\<close> returns its code and the three headers. Its failure path calls
  \<^verbatim>\<open>bitree_destroy\<close> on the tree that is still empty.
\<close>

definition bitree_merge ::
  "'d tmem \<Rightarrow> BiTree \<Rightarrow> BiTree \<Rightarrow> BiTree \<Rightarrow> 'd
   \<Rightarrow> (int \<times> BiTree \<times> BiTree \<times> BiTree \<times> 'd tmem) option" where
  "bitree_merge m merge lt rt d = do {
     let mg = bitree_init merge (bt_destroy lt);
     (r, mg1, m1) \<leftarrow> bitree_ins_left m mg Null d;
     if r \<noteq> 0 then do {
       (mg2, m2, _) \<leftarrow> bitree_destroy m1 mg1;
       Some (-1, mg2, lt, rt, m2)
     } else do {
       nd \<leftarrow> load m1 (bt_root mg1);
       m2 \<leftarrow> store m1 (bt_root mg1) (nd\<lparr>n_left := bt_root lt\<rparr>);
       nd2 \<leftarrow> load m2 (bt_root mg1);
       m3 \<leftarrow> store m2 (bt_root mg1) (nd2\<lparr>n_right := bt_root rt\<rparr>);
       s1 \<leftarrow> c_int (bt_size mg1 + bt_size lt);
       s2 \<leftarrow> c_int (s1 + bt_size rt);
       Some (0, mg1\<lparr>bt_size := s2\<rparr>, lt\<lparr>bt_root := Null, bt_size := 0\<rparr>,
             rt\<lparr>bt_root := Null, bt_size := 0\<rparr>, m3)
     }
   }"

section \<open>Traversals\<close>

text \<open>
  The traversals append each datum to a list with \<^verbatim>\<open>list_ins_next(list, list_tail(list), ...)\<close>
  and stop at the first failure. Names carry \<open>_c\<close> where the tree library has the plain name.
  \<open>m\<close> is the memory of the tree, \<open>lm\<close> that of the list.
\<close>

partial_function (option) preorder_c ::
  "'d tmem \<Rightarrow> 'd lmem \<Rightarrow> List \<Rightarrow> ptr \<Rightarrow> (int \<times> List \<times> 'd lmem) option" where
  "preorder_c m lm l node =
     (if node = Null then Some (0, l, lm)
      else Option.bind (load m node) (\<lambda>nd.
        Option.bind (list_ins_next lm l (l_tail l) (n_data nd)) (\<lambda>(r, l1, lm1).
        if r \<noteq> 0 then Some (-1, l1, lm1)
        else
          Option.bind (if n_left nd \<noteq> Null then preorder_c m lm1 l1 (n_left nd)
                       else Some (0, l1, lm1)) (\<lambda>(r, l2, lm2).
          if r \<noteq> 0 then Some (-1, l2, lm2)
          else
            Option.bind (if n_right nd \<noteq> Null then preorder_c m lm2 l2 (n_right nd)
                         else Some (0, l2, lm2)) (\<lambda>(r, l3, lm3).
            if r \<noteq> 0 then Some (-1, l3, lm3) else Some (0, l3, lm3))))))"

partial_function (option) inorder_c ::
  "'d tmem \<Rightarrow> 'd lmem \<Rightarrow> List \<Rightarrow> ptr \<Rightarrow> (int \<times> List \<times> 'd lmem) option" where
  "inorder_c m lm l node =
     (if node = Null then Some (0, l, lm)
      else Option.bind (load m node) (\<lambda>nd.
        Option.bind (if n_left nd \<noteq> Null then inorder_c m lm l (n_left nd)
                     else Some (0, l, lm)) (\<lambda>(r, l1, lm1).
        if r \<noteq> 0 then Some (-1, l1, lm1)
        else
          Option.bind (list_ins_next lm1 l1 (l_tail l1) (n_data nd)) (\<lambda>(r, l2, lm2).
          if r \<noteq> 0 then Some (-1, l2, lm2)
          else
            Option.bind (if n_right nd \<noteq> Null then inorder_c m lm2 l2 (n_right nd)
                         else Some (0, l2, lm2)) (\<lambda>(r, l3, lm3).
            if r \<noteq> 0 then Some (-1, l3, lm3) else Some (0, l3, lm3))))))"

partial_function (option) postorder_c ::
  "'d tmem \<Rightarrow> 'd lmem \<Rightarrow> List \<Rightarrow> ptr \<Rightarrow> (int \<times> List \<times> 'd lmem) option" where
  "postorder_c m lm l node =
     (if node = Null then Some (0, l, lm)
      else Option.bind (load m node) (\<lambda>nd.
        Option.bind (if n_left nd \<noteq> Null then postorder_c m lm l (n_left nd)
                     else Some (0, l, lm)) (\<lambda>(r, l1, lm1).
        if r \<noteq> 0 then Some (-1, l1, lm1)
        else
          Option.bind (if n_right nd \<noteq> Null then postorder_c m lm1 l1 (n_right nd)
                       else Some (0, l1, lm1)) (\<lambda>(r, l2, lm2).
          if r \<noteq> 0 then Some (-1, l2, lm2)
          else
            Option.bind (list_ins_next lm2 l2 (l_tail l2) (n_data nd)) (\<lambda>(r, l3, lm3).
            if r \<noteq> 0 then Some (-1, l3, lm3) else Some (0, l3, lm3))))))"

section \<open>The tree that a node represents\<close>

fun trep :: "'d tmem \<Rightarrow> ptr \<Rightarrow> (nat \<times> 'd) tree \<Rightarrow> bool" where
  "trep m p Leaf \<longleftrightarrow> p = Null"
| "trep m p (Node l n r) \<longleftrightarrow> p = Ptr (fst n) \<and>
     (case cells m (fst n) of
        None \<Rightarrow> False
      | Some nd \<Rightarrow> n_data nd = snd n \<and> trep m (n_left nd) l \<and> trep m (n_right nd) r)"

definition addrs :: "(nat \<times> 'd) tree \<Rightarrow> nat set" where
  "addrs T = fst ` set_tree T"

definition tree_ok :: "(nat \<times> 'd) tree \<Rightarrow> bool" where
  "tree_ok T \<longleftrightarrow> distinct (map fst (inorder T))"

lemma addrs_simps [simp]:
  "addrs Leaf = {}" "addrs (Node l n r) = insert (fst n) (addrs l \<union> addrs r)"
  by (auto simp: addrs_def)

lemma tree_ok_simps [simp]:
  "tree_ok Leaf"
  "tree_ok (Node l n r) \<longleftrightarrow>
     tree_ok l \<and> tree_ok r \<and> fst n \<notin> addrs l \<and> fst n \<notin> addrs r \<and> addrs l \<inter> addrs r = {}"
  by (auto simp: tree_ok_def addrs_def)

text \<open>The child of the node at address \<open>a\<close>, and its replacement by another tree.\<close>

fun child_at :: "bool \<Rightarrow> nat \<Rightarrow> (nat \<times> 'd) tree \<Rightarrow> (nat \<times> 'd) tree" where
  "child_at lft a Leaf = Leaf"
| "child_at lft a (Node l n r) =
     (if fst n = a then (if lft then l else r)
      else if a \<in> addrs l then child_at lft a l else child_at lft a r)"

fun upd_at :: "bool \<Rightarrow> nat \<Rightarrow> (nat \<times> 'd) tree \<Rightarrow> (nat \<times> 'd) tree \<Rightarrow> (nat \<times> 'd) tree" where
  "upd_at lft a S Leaf = Leaf"
| "upd_at lft a S (Node l n r) =
     (if fst n = a then (if lft then Node S n r else Node l n S)
      else if a \<in> addrs l then Node (upd_at lft a S l) n r else Node l n (upd_at lft a S r))"

definition bitree_rep :: "'d tmem \<Rightarrow> BiTree \<Rightarrow> (nat \<times> 'd) tree \<Rightarrow> bool" where
  "bitree_rep m t T \<longleftrightarrow> trep m (bt_root t) T \<and> tree_ok T \<and> bt_size t = int (size T) \<and>
     int (size T) \<le> INT_MAX \<and> mem_wf m"

lemma trep_frame:
  "trep m p T \<Longrightarrow> (\<And>a. a \<in> addrs T \<Longrightarrow> cells m' a = cells m a) \<Longrightarrow> trep m' p T"
  by (induction T arbitrary: p) (auto split: option.splits)

lemma trep_live: "trep m p T \<Longrightarrow> a \<in> addrs T \<Longrightarrow> \<exists>nd. cells m a = Some nd"
  by (induction T arbitrary: p) (auto split: option.splits)

lemma trep_below: "trep m p T \<Longrightarrow> mem_wf m \<Longrightarrow> nextblock m \<le> a \<Longrightarrow> a \<notin> addrs T"
  using trep_live [of m p T a] by (auto simp: mem_wf_def)

lemma child_sub: "addrs (child_at lft a T) \<subseteq> addrs T"
  by (induction T) auto

lemma child_ok: "tree_ok T \<Longrightarrow> tree_ok (child_at lft a T) \<and> a \<notin> addrs (child_at lft a T)"
  by (induction T) auto

lemma child_trep:
  "trep m p T \<Longrightarrow> a \<in> addrs T \<Longrightarrow> cells m a = Some nd \<Longrightarrow> trep m (n_child lft nd) (child_at lft a T)"
  by (induction T arbitrary: p) (auto simp: n_child_def split: option.splits)

lemma upd_addrs:
  assumes "tree_ok T" and "a \<in> addrs T"
  shows "addrs (upd_at lft a S T) = addrs T - addrs (child_at lft a T) \<union> addrs S"
  using assms
proof (induction T)
  case (Node l n r)
  then show ?case
    using child_sub [of lft a l] child_sub [of lft a r] by (auto; blast)
qed simp

lemma upd_size: "a \<in> addrs T \<Longrightarrow> size (upd_at lft a S T) + size (child_at lft a T) = size T + size S"
  by (induction T) auto

lemma upd_ok:
  "tree_ok T \<Longrightarrow> tree_ok S \<Longrightarrow> a \<in> addrs T \<Longrightarrow> addrs S \<inter> (addrs T - addrs (child_at lft a T)) = {} \<Longrightarrow>
   tree_ok (upd_at lft a S T)"
proof (induction T)
  case (Node l n r)
  show ?case
  proof (cases "fst n = a")
    case False
    show ?thesis
    proof (cases "a \<in> addrs l")
      case True
      with Node False have "tree_ok (upd_at lft a S l)"
        by auto
      moreover have "addrs (upd_at lft a S l) = addrs l - addrs (child_at lft a l) \<union> addrs S"
        using Node.prems(1) True by (intro upd_addrs) auto
      ultimately show ?thesis
        using Node.prems True False child_sub [of lft a l] by auto
    next
      case False': False
      with Node False have ok: "tree_ok (upd_at lft a S r)" and ar: "a \<in> addrs r"
        by auto
      moreover have "addrs (upd_at lft a S r) = addrs r - addrs (child_at lft a r) \<union> addrs S"
        using Node.prems(1) ar by (intro upd_addrs) auto
      ultimately show ?thesis
        using Node.prems False' False child_sub [of lft a r] by auto
    qed
  qed (use Node.prems in \<open>auto; blast\<close>)
qed simp

lemma upd_trep:
  assumes "trep m p T" and "tree_ok T" and "a \<in> addrs T" and "cells m a = Some nd"
    and "cells m' a = Some (set_child lft q nd)" and "trep m' q S"
    and "\<And>b. b \<in> addrs T \<Longrightarrow> b \<noteq> a \<Longrightarrow> b \<notin> addrs (child_at lft a T) \<Longrightarrow> cells m' b = cells m b"
  shows "trep m' p (upd_at lft a S T)"
  using assms
proof (induction T arbitrary: p)
  case (Node l n r)
  obtain d where nd: "cells m (fst n) = Some d" "n_data d = snd n" "trep m (n_left d) l"
    "trep m (n_right d) r" "p = Ptr (fst n)"
    using Node.prems(1) by (auto split: option.splits)
  show ?case
  proof (cases "fst n = a")
    case True
    have "trep m' (n_right d) r" if lft
      using that True Node.prems(2,7) nd(4) by (intro trep_frame [OF nd(4)]) auto
    moreover have "trep m' (n_left d) l" if "\<not> lft"
      using that True Node.prems(2,7) nd(3) by (intro trep_frame [OF nd(3)]) auto
    ultimately show ?thesis
      using True Node.prems(4,5,6) nd by (auto simp: set_child_def)
  next
    case False
    show ?thesis
    proof (cases "a \<in> addrs l")
      case True
      have "trep m' (n_left d) (upd_at lft a S l)"
        using Node.IH(1) [OF nd(3)] Node.prems False True by auto
      moreover have "trep m' (n_right d) r"
        using True False Node.prems(2,7) child_sub [of lft a l] by (intro trep_frame [OF nd(4)]) auto
      moreover have "cells m' (fst n) = cells m (fst n)"
        using True False Node.prems(2,7) child_sub [of lft a l] by auto
      ultimately show ?thesis
        using True False nd by auto
    next
      case False': False
      have "trep m' (n_right d) (upd_at lft a S r)"
        using Node.IH(2) [OF nd(4)] Node.prems False False' by auto
      moreover have "trep m' (n_left d) l"
        using False' False Node.prems(2,3,7) child_sub [of lft a r] by (intro trep_frame [OF nd(3)]) auto
      moreover have "cells m' (fst n) = cells m (fst n)"
        using False' False Node.prems(2,7) child_sub [of lft a r] by auto
      ultimately show ?thesis
        using False' False nd by auto
    qed
  qed
qed simp

section \<open>Insertion\<close>

text \<open>
  Both insertions are the same function of the side; the next three lemmas are stated once
  for the two.
\<close>

definition bitree_ins ::
  "bool \<Rightarrow> 'd tmem \<Rightarrow> BiTree \<Rightarrow> ptr \<Rightarrow> 'd \<Rightarrow> (int \<times> BiTree \<times> 'd tmem) option" where
  "bitree_ins lft = (if lft then bitree_ins_left else bitree_ins_right)"

lemma bitree_ins_root:
  assumes "bitree_rep m t T"
  shows "bitree_ins lft m t Null d =
    (if T \<noteq> Leaf then Some (-1, t, m)
     else if fails m (nextblock m) then Some (-1, t, m\<lparr>nextblock := Suc (nextblock m)\<rparr>)
     else Some (0, t\<lparr>bt_root := Ptr (nextblock m), bt_size := 1\<rparr>,
       m\<lparr>cells := (cells m)(nextblock m \<mapsto> \<lparr>n_data = d, n_left = Null, n_right = Null\<rparr>),
         nextblock := Suc (nextblock m)\<rparr>))"
  using assms
  by (auto simp: bitree_ins_def bitree_ins_left_def bitree_ins_right_def bitree_rep_def malloc_def
      c_int_def INT_MAX_def INT_MIN_def)

lemma bitree_ins_node:
  assumes "cells m a = Some nd" and "mem_wf m" and "INT_MIN \<le> bt_size t" and "bt_size t < INT_MAX"
  shows "bitree_ins lft m t (Ptr a) d =
    (if n_child lft nd \<noteq> Null then Some (-1, t, m)
     else if fails m (nextblock m) then Some (-1, t, m\<lparr>nextblock := Suc (nextblock m)\<rparr>)
     else Some (0, t\<lparr>bt_size := bt_size t + 1\<rparr>,
       m\<lparr>cells := (cells m)(nextblock m \<mapsto> \<lparr>n_data = d, n_left = Null, n_right = Null\<rparr>,
                            a \<mapsto> set_child lft (Ptr (nextblock m)) nd),
         nextblock := Suc (nextblock m)\<rparr>))"
proof -
  have "a \<noteq> nextblock m"
    using assms(1,2) by (auto simp: mem_wf_def)
  then show ?thesis
    using assms
    by (auto simp: bitree_ins_def bitree_ins_left_def bitree_ins_right_def malloc_def c_int_def
        n_child_def set_child_def)
qed

lemma bitree_rep_nextblock:
  "bitree_rep m t T \<Longrightarrow> bitree_rep (m\<lparr>nextblock := Suc (nextblock m)\<rparr>) t T"
  by (auto simp: bitree_rep_def mem_wf_def intro: trep_frame)

text \<open>The tree after an insertion, and whether there is a free position.\<close>

definition free_pos :: "bool \<Rightarrow> ptr \<Rightarrow> (nat \<times> 'd) tree \<Rightarrow> bool" where
  "free_pos lft node T \<longleftrightarrow> (case node of Null \<Rightarrow> T = Leaf | Ptr a \<Rightarrow> child_at lft a T = Leaf)"

definition put_at :: "bool \<Rightarrow> ptr \<Rightarrow> (nat \<times> 'd) tree \<Rightarrow> (nat \<times> 'd) tree \<Rightarrow> (nat \<times> 'd) tree" where
  "put_at lft node S T = (case node of Null \<Rightarrow> S | Ptr a \<Rightarrow> upd_at lft a S T)"

definition pos_in :: "ptr \<Rightarrow> (nat \<times> 'd) tree \<Rightarrow> bool" where
  "pos_in node T \<longleftrightarrow> (case node of Null \<Rightarrow> True | Ptr a \<Rightarrow> a \<in> addrs T)"

lemma trep_Null [simp]: "trep m Null T \<longleftrightarrow> T = Leaf"
  by (cases T) auto

lemma child_Null:
  "trep m p T \<Longrightarrow> a \<in> addrs T \<Longrightarrow> cells m a = Some nd \<Longrightarrow> child_at lft a T = Leaf \<longleftrightarrow> n_child lft nd = Null"
  using child_trep [of m p T a nd lft] by auto

lemma bitree_ins_rep:
  assumes rep: "bitree_rep m t T" and pos: "pos_in node T" and room: "int (size T) < INT_MAX"
  shows "\<exists>r t' m'. bitree_ins lft m t node d = Some (r, t', m') \<and>
    (if free_pos lft node T \<and> \<not> fails m (nextblock m)
     then r = 0 \<and> bitree_rep m' t' (put_at lft node (Node Leaf (nextblock m, d) Leaf) T)
     else r = -1 \<and> t' = t \<and> cells m' = cells m \<and> bitree_rep m' t T)"
proof (cases node)
  case Null
  show ?thesis
    using rep bitree_rep_nextblock [OF rep]
    unfolding Null bitree_ins_root [OF rep]
    by (auto simp: free_pos_def put_at_def bitree_rep_def mem_wf_def INT_MAX_def)
next
  case (Ptr a)
  let ?new = "Node Leaf (nextblock m, d) Leaf"
  have T: "trep m (bt_root t) T" "tree_ok T" "bt_size t = int (size T)" "mem_wf m" and a: "a \<in> addrs T"
    using rep pos Ptr by (auto simp: bitree_rep_def pos_in_def)
  obtain nd where nd: "cells m a = Some nd"
    using trep_live [OF T(1) a] by blast
  have sz: "INT_MIN \<le> bt_size t" "bt_size t < INT_MAX"
    using T(3) room by (auto simp: INT_MIN_def)
  note run = bitree_ins_node [OF nd T(4) sz, of lft d]
  have free: "free_pos lft node T \<longleftrightarrow> n_child lft nd = Null"
    using child_Null [OF T(1) a nd] by (simp add: free_pos_def Ptr)
  show ?thesis
  proof (cases "free_pos lft node T \<and> \<not> fails m (nextblock m)")
    case False
    then show ?thesis
      using run rep bitree_rep_nextblock [OF rep] free by (auto simp: Ptr)
  next
    case True
    let ?m = "m\<lparr>cells := (cells m)(nextblock m \<mapsto> \<lparr>n_data = d, n_left = Null, n_right = Null\<rparr>,
                            a \<mapsto> set_child lft (Ptr (nextblock m)) nd),
         nextblock := Suc (nextblock m)\<rparr>"
    have new: "nextblock m \<notin> addrs T"
      using trep_below [OF T(1,4)] by blast
    have leaf: "child_at lft a T = Leaf"
      using True by (simp add: free_pos_def Ptr)
    have na: "a < nextblock m"
      using trep_below [OF T(1,4), of a] a by force
    have "trep ?m (bt_root t) (upd_at lft a ?new T)"
      using na new by (intro upd_trep [OF T(1,2) a nd, of _ lft "Ptr (nextblock m)"]) auto
    moreover have "tree_ok (upd_at lft a ?new T)"
      using new T(2) a by (intro upd_ok) auto
    moreover have "size (upd_at lft a ?new T) = Suc (size T)"
      using upd_size [OF a, of lft ?new] leaf by simp
    ultimately have "bitree_rep ?m (t\<lparr>bt_size := bt_size t + 1\<rparr>) (upd_at lft a ?new T)"
      using T(3,4) room na by (auto simp: bitree_rep_def mem_wf_def)
    then show ?thesis
      using True run free by (auto simp: Ptr put_at_def)
  qed
qed

section \<open>Removal\<close>

definition tree_calls :: "BiTree \<Rightarrow> (nat \<times> 'd) tree \<Rightarrow> 'd call list" where
  "tree_calls t T = concat (map (destroy_call (bt_destroy t) \<circ> snd) (postorder T))"

lemma tree_calls_simps [simp]:
  "tree_calls t Leaf = []"
  "tree_calls t (Node l n r) = tree_calls t l @ tree_calls t r @ destroy_call (bt_destroy t) (snd n)"
  "tree_calls (t\<lparr>bt_size := k\<rparr>) T = tree_calls t T"
  by (simp_all add: tree_calls_def)

lemma set_child_same: "n_child lft nd = p \<Longrightarrow> set_child lft p nd = nd"
  by (cases lft) (simp_all add: set_child_def n_child_def)

lemma child_set [simp]:
  "n_child lft (set_child lft p nd) = p" "n_child (\<not> lft) (set_child lft p nd) = n_child (\<not> lft) nd"
  "n_data (set_child lft p nd) = n_data nd" "set_child lft p (set_child lft q nd) = set_child lft p nd"
  by (simp_all add: set_child_def n_child_def)

text \<open>What freeing the nodes of a subtree leaves of a memory.\<close>

definition freed :: "nat set \<Rightarrow> 'a mem \<Rightarrow> 'a mem \<Rightarrow> bool" where
  "freed A m m' \<longleftrightarrow> (\<forall>b\<in>A. cells m' b = None) \<and> nextblock m' = nextblock m \<and> fails m' = fails m"

lemma bitree_rem_node:
  assumes "cells m a = Some nd" and "trep m (n_child lft nd) S" and "tree_ok S" and "a \<notin> addrs S"
    and "int (size S) \<le> bt_size t" and "bt_size t \<le> INT_MAX"
  shows "\<exists>m'. bitree_rem lft m t calls (Ptr a) =
       Some (t\<lparr>bt_size := bt_size t - int (size S)\<rparr>, m', calls @ tree_calls t S) \<and>
     cells m' a = Some (set_child lft Null nd) \<and> freed (addrs S) m m' \<and>
     (\<forall>b. b \<notin> addrs S \<longrightarrow> b \<noteq> a \<longrightarrow> cells m' b = cells m b)"
  using assms
proof (induction S arbitrary: lft m t calls a nd)
  case Leaf
  then show ?case
    by (auto simp: bitree_rem.simps [of lft m] get_pos_def freed_def set_child_same)
next
  case (Node l n r)
  obtain b d where n: "n = (b, d)" by (cases n)
  obtain nb where nb: "cells m b = Some nb" "n_data nb = d" "trep m (n_child True nb) l"
    "trep m (n_child False nb) r" and p: "n_child lft nd = Ptr b"
    using Node.prems(2) n by (auto simp: n_child_def split: option.splits)
  have ok: "tree_ok l" "tree_ok r" "b \<notin> addrs l" "b \<notin> addrs r" "addrs l \<inter> addrs r = {}"
    "a \<noteq> b" "a \<notin> addrs l" "a \<notin> addrs r"
    using Node.prems(3,4) n by auto
  have sz: "int (size l) \<le> bt_size t" "int (size r) \<le> bt_size t - int (size l)"
    "bt_size t - int (size l) - int (size r) \<ge> 1" "bt_size t \<le> INT_MAX"
    using Node.prems(5,6) by auto
  from Node.IH(1) [OF nb(1,3) ok(1,3) sz(1,4)] obtain m1 where
    m1: "bitree_rem True m t calls (Ptr b) =
        Some (t\<lparr>bt_size := bt_size t - int (size l)\<rparr>, m1, calls @ tree_calls t l)"
      "cells m1 b = Some (set_child True Null nb)" "freed (addrs l) m m1"
      "\<forall>c. c \<notin> addrs l \<longrightarrow> c \<noteq> b \<longrightarrow> cells m1 c = cells m c"
    by blast
  let ?nb1 = "set_child True Null nb"
  let ?t1 = "t\<lparr>bt_size := bt_size t - int (size l)\<rparr>"
  have "n_child False ?nb1 = n_child False nb"
    by (simp add: n_child_def set_child_def)
  moreover have "trep m1 (n_child False nb) r"
    using m1(4) ok(4,5) by (intro trep_frame [OF nb(4)]) auto
  ultimately have "trep m1 (n_child False ?nb1) r"
    by simp
  from Node.IH(2) [OF m1(2) this ok(2,4), of ?t1 "calls @ tree_calls t l"] sz obtain m2 where
    m2: "bitree_rem False m1 ?t1 (calls @ tree_calls t l) (Ptr b) =
        Some (?t1\<lparr>bt_size := bt_size ?t1 - int (size r)\<rparr>, m2, (calls @ tree_calls t l) @ tree_calls t r)"
      "cells m2 b = Some (set_child False Null ?nb1)" "freed (addrs r) m1 m2"
      "\<forall>c. c \<notin> addrs r \<longrightarrow> c \<noteq> b \<longrightarrow> cells m2 c = cells m1 c"
    by auto
  let ?m3 = "m2\<lparr>cells := (cells m2)(b := None, a \<mapsto> set_child lft Null nd)\<rparr>"
  have a2: "cells m2 a = Some nd"
    using m1(4) m2(4) ok Node.prems(1) by simp
  have "bitree_rem lft m t calls (Ptr a) =
      Some (t\<lparr>bt_size := bt_size t - int (size (Node l n r))\<rparr>, ?m3, calls @ tree_calls t (Node l n r))"
    using sz p m1(1) m2(1,2) Node.prems(1) a2 ok(6) nb(2) n
    by (subst bitree_rem.simps) (simp add: get_pos_def set_pos_def c_int_def INT_MIN_def algebra_simps)
  moreover have "freed (addrs (Node l n r)) m ?m3"
    using m1(3) m2(3,4) ok n by (auto simp: freed_def)
  moreover have "\<forall>c. c \<notin> addrs (Node l n r) \<longrightarrow> c \<noteq> a \<longrightarrow> cells ?m3 c = cells m c"
    using m1(4) m2(4) n by auto
  ultimately show ?case by fastforce
qed

lemma bitree_rem_root:
  assumes "bitree_rep m t T"
  shows "\<exists>m'. bitree_rem lft m t calls Null =
       Some (t\<lparr>bt_root := Null, bt_size := 0\<rparr>, m', calls @ tree_calls t T) \<and>
     freed (addrs T) m m' \<and> (\<forall>b. b \<notin> addrs T \<longrightarrow> cells m' b = cells m b)"
proof (cases T)
  case Leaf
  then show ?thesis
    using assms by (auto simp: bitree_rem.simps [of lft m] bitree_rep_def freed_def)
next
  case (Node l n r)
  obtain b d where n: "n = (b, d)" by (cases n)
  obtain nb where nb: "cells m b = Some nb" "n_data nb = d" "trep m (n_child True nb) l"
    "trep m (n_child False nb) r" and p: "bt_root t = Ptr b"
    using assms Node n by (auto simp: bitree_rep_def n_child_def split: option.splits)
  have ok: "tree_ok l" "tree_ok r" "b \<notin> addrs l" "b \<notin> addrs r" "addrs l \<inter> addrs r = {}"
    using assms Node n by (auto simp: bitree_rep_def)
  have sz: "bt_size t = int (size l) + int (size r) + 1" "bt_size t \<le> INT_MAX"
    using assms Node by (auto simp: bitree_rep_def)
  from bitree_rem_node [OF nb(1,3) ok(1,3), of t calls] sz obtain m1 where
    m1: "bitree_rem True m t calls (Ptr b) =
        Some (t\<lparr>bt_size := bt_size t - int (size l)\<rparr>, m1, calls @ tree_calls t l)"
      "cells m1 b = Some (set_child True Null nb)" "freed (addrs l) m m1"
      "\<forall>c. c \<notin> addrs l \<longrightarrow> c \<noteq> b \<longrightarrow> cells m1 c = cells m c"
    by auto
  let ?nb1 = "set_child True Null nb"
  let ?t1 = "t\<lparr>bt_size := bt_size t - int (size l)\<rparr>"
  have "n_child False ?nb1 = n_child False nb"
    by (simp add: n_child_def set_child_def)
  moreover have "trep m1 (n_child False nb) r"
    using m1(4) ok(4,5) by (intro trep_frame [OF nb(4)]) auto
  ultimately have r: "trep m1 (n_child False ?nb1) r"
    by simp
  from bitree_rem_node [OF m1(2) r ok(2,4), of ?t1 "calls @ tree_calls t l"] sz obtain m2 where
    m2: "bitree_rem False m1 ?t1 (calls @ tree_calls t l) (Ptr b) =
        Some (?t1\<lparr>bt_size := bt_size ?t1 - int (size r)\<rparr>, m2, (calls @ tree_calls t l) @ tree_calls t r)"
      "cells m2 b = Some (set_child False Null ?nb1)" "freed (addrs r) m1 m2"
      "\<forall>c. c \<notin> addrs r \<longrightarrow> c \<noteq> b \<longrightarrow> cells m2 c = cells m1 c"
    by auto
  let ?m3 = "m2\<lparr>cells := (cells m2)(b := None)\<rparr>"
  have "bitree_rem lft m t calls Null =
      Some (t\<lparr>bt_root := Null, bt_size := 0\<rparr>, ?m3, calls @ tree_calls t T)"
    using sz p m1(1) m2(1,2) nb(2) n Node
    by (subst bitree_rem.simps) (simp add: get_pos_def set_pos_def c_int_def INT_MIN_def INT_MAX_def)
  moreover have "freed (addrs T) m ?m3"
    using m1(3) m2(3,4) ok n Node by (auto simp: freed_def)
  moreover have "\<forall>c. c \<notin> addrs T \<longrightarrow> cells ?m3 c = cells m c"
    using m1(4) m2(4) n Node by auto
  ultimately show ?thesis by blast
qed

text \<open>The subtree at a position, and the tree without it.\<close>

definition sub_at :: "bool \<Rightarrow> ptr \<Rightarrow> (nat \<times> 'd) tree \<Rightarrow> (nat \<times> 'd) tree" where
  "sub_at lft node T = (case node of Null \<Rightarrow> T | Ptr a \<Rightarrow> child_at lft a T)"

lemma bitree_rem_rep:
  assumes rep: "bitree_rep m t T" and pos: "pos_in node T"
  shows "\<exists>t' m'. bitree_rem lft m t calls node = Some (t', m', calls @ tree_calls t (sub_at lft node T)) \<and>
     bitree_rep m' t' (put_at lft node Leaf T) \<and> bt_destroy t' = bt_destroy t \<and>
     freed (addrs (sub_at lft node T)) m m' \<and>
     (\<forall>b. b \<notin> addrs T \<longrightarrow> cells m' b = cells m b)"
proof (cases node)
  case Null
  obtain m' where m': "bitree_rem lft m t calls Null =
       Some (t\<lparr>bt_root := Null, bt_size := 0\<rparr>, m', calls @ tree_calls t T)"
     "freed (addrs T) m m'" "\<forall>b. b \<notin> addrs T \<longrightarrow> cells m' b = cells m b"
    using bitree_rem_root [OF rep] by blast
  have wf: "mem_wf m"
    using rep by (simp add: bitree_rep_def)
  have "cells m' a = None" if "nextblock m \<le> a" for a
    using m'(2,3) wf that by (cases "a \<in> addrs T") (auto simp: freed_def mem_wf_def)
  then have "mem_wf m'"
    using m'(2) by (simp add: mem_wf_def freed_def)
  then show ?thesis
    using m' by (auto simp: Null sub_at_def put_at_def bitree_rep_def INT_MAX_def)
next
  case (Ptr a)
  have T: "trep m (bt_root t) T" "tree_ok T" "bt_size t = int (size T)" "mem_wf m"
      "int (size T) \<le> INT_MAX" and a: "a \<in> addrs T"
    using rep pos Ptr by (auto simp: bitree_rep_def pos_in_def)
  obtain nd where nd: "cells m a = Some nd"
    using trep_live [OF T(1) a] by blast
  let ?S = "child_at lft a T"
  have S: "tree_ok ?S" "a \<notin> addrs ?S"
    using child_ok [OF T(2)] by auto
  have sz: "size (upd_at lft a Leaf T) + size ?S = size T"
    using upd_size [OF a, of lft Leaf] by simp
  from bitree_rem_node [OF nd child_trep [OF T(1) a nd] S, of t calls] sz T(3,5) obtain m' where
    m': "bitree_rem lft m t calls (Ptr a) =
       Some (t\<lparr>bt_size := bt_size t - int (size ?S)\<rparr>, m', calls @ tree_calls t ?S)"
     "cells m' a = Some (set_child lft Null nd)" "freed (addrs ?S) m m'"
     "\<forall>b. b \<notin> addrs ?S \<longrightarrow> b \<noteq> a \<longrightarrow> cells m' b = cells m b"
    by auto
  have "trep m' (bt_root t) (upd_at lft a Leaf T)"
    using m'(2,4) by (intro upd_trep [OF T(1,2) a nd]) auto
  moreover have "tree_ok (upd_at lft a Leaf T)"
    using T(2) a by (intro upd_ok) auto
  moreover have "cells m' b = None" if "nextblock m \<le> b" for b
    using m'(3,4) T(4) that trep_below [OF T(1,4) that] a
    by (cases "b \<in> addrs ?S") (auto simp: freed_def mem_wf_def)
  then have "mem_wf m'"
    using m'(3) by (simp add: mem_wf_def freed_def)
  moreover have "bt_size t - int (size ?S) = int (size (upd_at lft a Leaf T))"
    using sz T(3) by linarith
  ultimately have "bitree_rep m' (t\<lparr>bt_size := bt_size t - int (size ?S)\<rparr>) (upd_at lft a Leaf T)"
    using T(5) sz by (auto simp: bitree_rep_def)
  then show ?thesis
    using m' a child_sub [of lft a T] by (auto simp: Ptr sub_at_def put_at_def)
qed

section \<open>Merge\<close>

lemma bitree_merge_rep:
  assumes L: "bitree_rep m lt L" and R: "bitree_rep m rt R" and disj: "addrs L \<inter> addrs R = {}"
    and ok: "\<not> fails m (nextblock m)" and room: "int (size L) + int (size R) < INT_MAX"
  shows "\<exists>mg m'. bitree_merge m merge lt rt d =
       Some (0, mg, lt\<lparr>bt_root := Null, bt_size := 0\<rparr>, rt\<lparr>bt_root := Null, bt_size := 0\<rparr>, m') \<and>
     bitree_rep m' mg (Node L (nextblock m, d) R) \<and> bt_destroy mg = bt_destroy lt"
proof -
  let ?a = "nextblock m"
  let ?m = "m\<lparr>cells := (cells m)(?a \<mapsto> \<lparr>n_data = d, n_left = bt_root lt, n_right = bt_root rt\<rparr>),
    nextblock := Suc ?a\<rparr>"
  let ?mg = "(bitree_init merge (bt_destroy lt))\<lparr>bt_root := Ptr ?a,
    bt_size := int (size L) + int (size R) + 1\<rparr>"
  have T: "trep m (bt_root lt) L" "trep m (bt_root rt) R" "mem_wf m"
      "bt_size lt = int (size L)" "bt_size rt = int (size R)"
    using L R by (auto simp: bitree_rep_def)
  have new: "?a \<notin> addrs L" "?a \<notin> addrs R"
    using trep_below [OF T(1,3)] trep_below [OF T(2,3)] by auto
  then have "trep ?m (bt_root lt) L" "trep ?m (bt_root rt) R"
    by (auto intro: trep_frame [OF T(1)] trep_frame [OF T(2)])
  then have "bitree_rep ?m ?mg (Node L (?a, d) R)"
    using L R disj new room T(3) by (auto simp: bitree_rep_def mem_wf_def)
  moreover have "bitree_merge m merge lt rt d =
      Some (0, ?mg, lt\<lparr>bt_root := Null, bt_size := 0\<rparr>, rt\<lparr>bt_root := Null, bt_size := 0\<rparr>, ?m)"
    using ok room T(4,5)
    by (simp add: bitree_merge_def bitree_ins_left_def bitree_init_def malloc_succeed c_int_def
        INT_MAX_def INT_MIN_def)
  ultimately show ?thesis
    by (auto simp: bitree_init_def)
qed

lemma bitree_merge_fail:
  assumes "fails m (nextblock m)"
  shows "bitree_merge m merge lt rt d =
    Some (-1, bitree_zero, lt, rt, m\<lparr>nextblock := Suc (nextblock m)\<rparr>)"
  using assms
  by (simp add: bitree_merge_def bitree_ins_left_def bitree_init_def malloc_fail bitree_destroy_def
      bitree_rem_left_def bitree_rem.simps)

section \<open>Traversals\<close>

lemma append_tail:
  assumes "seq_rep (l, lm) xs" and "room (Suc n) (l, lm)"
  shows "\<exists>l' lm'. list_ins_next lm l (l_tail l) d = Some (0, l', lm') \<and>
     seq_rep (l', lm') (xs @ [d]) \<and> room n (l', lm')"
  using queue_enqueue_ok [OF assms, of d] by (auto simp: queue_enqueue_def)

lemma preorder_c_rep:
  assumes "trep m p T" and "seq_rep (l, lm) xs" and "room (size T + n) (l, lm)"
  shows "\<exists>l' lm'. preorder_c m lm l p = Some (0, l', lm') \<and>
     seq_rep (l', lm') (xs @ map snd (preorder T)) \<and> room n (l', lm')"
  using assms
proof (induction T arbitrary: p l lm xs n)
  case Leaf
  then show ?case by (simp add: preorder_c.simps [of m])
next
  case (Node tl nn tr)
  obtain nd where nd: "load m p = Some nd" "p \<noteq> Null" "n_data nd = snd nn" "trep m (n_left nd) tl"
    "trep m (n_right nd) tr"
    using Node.prems(1) by (auto split: option.splits)
  obtain l1 lm1 where s1: "list_ins_next lm l (l_tail l) (snd nn) = Some (0, l1, lm1)"
    "seq_rep (l1, lm1) (xs @ [snd nn])" "room (size tl + (size tr + n)) (l1, lm1)"
    using append_tail [OF Node.prems(2), of "size tl + (size tr + n)" "snd nn"] Node.prems(3)
    by (auto simp: ac_simps)
  obtain l2 lm2 where s2: "preorder_c m lm1 l1 (n_left nd) = Some (0, l2, lm2)"
    "seq_rep (l2, lm2) ((xs @ [snd nn]) @ map snd (preorder tl))" "room (size tr + n) (l2, lm2)"
    using Node.IH(1) [OF nd(4) s1(2,3)] by blast
  obtain l3 lm3 where s3: "preorder_c m lm2 l2 (n_right nd) = Some (0, l3, lm3)"
    "seq_rep (l3, lm3) (((xs @ [snd nn]) @ map snd (preorder tl)) @ map snd (preorder tr))"
    "room n (l3, lm3)"
    using Node.IH(2) [OF nd(5) s2(2,3)] by blast
  have skip: "(if q \<noteq> Null then preorder_c m lmx lx q else Some (0, lx, lmx)) = preorder_c m lmx lx q"
    for q lmx lx by (simp add: preorder_c.simps [of m lmx lx])
  show ?case
    using nd s1(1) s2(1) s3 by (subst preorder_c.simps) (simp add: skip)
qed

lemma inorder_c_rep:
  assumes "trep m p T" and "seq_rep (l, lm) xs" and "room (size T + n) (l, lm)"
  shows "\<exists>l' lm'. inorder_c m lm l p = Some (0, l', lm') \<and>
     seq_rep (l', lm') (xs @ map snd (inorder T)) \<and> room n (l', lm')"
  using assms
proof (induction T arbitrary: p l lm xs n)
  case Leaf
  then show ?case by (simp add: inorder_c.simps [of m])
next
  case (Node tl nn tr)
  obtain nd where nd: "load m p = Some nd" "p \<noteq> Null" "n_data nd = snd nn" "trep m (n_left nd) tl"
    "trep m (n_right nd) tr"
    using Node.prems(1) by (auto split: option.splits)
  have "room (size tl + Suc (size tr + n)) (l, lm)"
    using Node.prems(3) by (simp add: ac_simps)
  from Node.IH(1) [OF nd(4) Node.prems(2) this] obtain l1 lm1 where
    s1: "inorder_c m lm l (n_left nd) = Some (0, l1, lm1)"
      "seq_rep (l1, lm1) (xs @ map snd (inorder tl))" "room (Suc (size tr + n)) (l1, lm1)"
    by blast
  obtain l2 lm2 where s2: "list_ins_next lm1 l1 (l_tail l1) (snd nn) = Some (0, l2, lm2)"
    "seq_rep (l2, lm2) ((xs @ map snd (inorder tl)) @ [snd nn])" "room (size tr + n) (l2, lm2)"
    using append_tail [OF s1(2,3)] by blast
  obtain l3 lm3 where s3: "inorder_c m lm2 l2 (n_right nd) = Some (0, l3, lm3)"
    "seq_rep (l3, lm3) (((xs @ map snd (inorder tl)) @ [snd nn]) @ map snd (inorder tr))"
    "room n (l3, lm3)"
    using Node.IH(2) [OF nd(5) s2(2,3)] by blast
  have skip: "(if q \<noteq> Null then inorder_c m lmx lx q else Some (0, lx, lmx)) = inorder_c m lmx lx q"
    for q lmx lx by (simp add: inorder_c.simps [of m lmx lx])
  show ?case
    using nd s1(1) s2(1) s3 by (subst inorder_c.simps) (simp add: skip)
qed

lemma postorder_c_rep:
  assumes "trep m p T" and "seq_rep (l, lm) xs" and "room (size T + n) (l, lm)"
  shows "\<exists>l' lm'. postorder_c m lm l p = Some (0, l', lm') \<and>
     seq_rep (l', lm') (xs @ map snd (postorder T)) \<and> room n (l', lm')"
  using assms
proof (induction T arbitrary: p l lm xs n)
  case Leaf
  then show ?case by (simp add: postorder_c.simps [of m])
next
  case (Node tl nn tr)
  obtain nd where nd: "load m p = Some nd" "p \<noteq> Null" "n_data nd = snd nn" "trep m (n_left nd) tl"
    "trep m (n_right nd) tr"
    using Node.prems(1) by (auto split: option.splits)
  have "room (size tl + (size tr + Suc n)) (l, lm)"
    using Node.prems(3) by (simp add: ac_simps)
  from Node.IH(1) [OF nd(4) Node.prems(2) this] obtain l1 lm1 where
    s1: "postorder_c m lm l (n_left nd) = Some (0, l1, lm1)"
      "seq_rep (l1, lm1) (xs @ map snd (postorder tl))" "room (size tr + Suc n) (l1, lm1)"
    by blast
  obtain l2 lm2 where s2: "postorder_c m lm1 l1 (n_right nd) = Some (0, l2, lm2)"
    "seq_rep (l2, lm2) ((xs @ map snd (postorder tl)) @ map snd (postorder tr))" "room (Suc n) (l2, lm2)"
    using Node.IH(2) [OF nd(5) s1(2,3)] by blast
  obtain l3 lm3 where s3: "list_ins_next lm2 l2 (l_tail l2) (snd nn) = Some (0, l3, lm3)"
    "seq_rep (l3, lm3) (((xs @ map snd (postorder tl)) @ map snd (postorder tr)) @ [snd nn])"
    "room n (l3, lm3)"
    using append_tail [OF s2(2,3)] by blast
  have skip: "(if q \<noteq> Null then postorder_c m lmx lx q else Some (0, lx, lmx)) = postorder_c m lmx lx q"
    for q lmx lx by (simp add: postorder_c.simps [of m lmx lx])
  show ?case
    using nd s1(1) s2(1) s3 by (subst postorder_c.simps) (simp add: skip)
qed

section \<open>Properties\<close>

definition ins_outcome ::
  "bool \<Rightarrow> 'd tmem \<Rightarrow> BiTree \<Rightarrow> ptr \<Rightarrow> 'd \<Rightarrow> (nat \<times> 'd) tree \<Rightarrow> int \<times> BiTree \<times> 'd tmem \<Rightarrow> bool" where
  "ins_outcome lft m t node d T = (\<lambda>(r, t', m').
     if free_pos lft node T \<and> \<not> fails m (nextblock m)
     then r = 0 \<and> bitree_rep m' t' (put_at lft node (Node Leaf (nextblock m, d) Leaf) T)
     else r = -1 \<and> t' = t \<and> cells m' = cells m \<and> bitree_rep m' t T)"

text \<open>
  C28: \<^verbatim>\<open>bitree_ins_left\<close> and \<^verbatim>\<open>bitree_ins_right\<close> attach a new leaf at the position they are
  given (the root for NULL) when that position is free and the allocator succeeds, and return 0;
  otherwise they return -1 and leave header, nodes and tree as they were.
\<close>

theorem bitree_ins_attaches_leaf:
  assumes "bitree_rep m t T" and "pos_in node T" and "int (size T) < INT_MAX"
  shows "\<exists>res res'. bitree_ins_left m t node d = Some res \<and> ins_outcome True m t node d T res \<and>
    bitree_ins_right m t node d = Some res' \<and> ins_outcome False m t node d T res'"
  using bitree_ins_rep [OF assms, of True d] bitree_ins_rep [OF assms, of False d]
  by (auto simp: bitree_ins_def ins_outcome_def)

text \<open>
  \<^verbatim>\<open>bitree_rem_left\<close> and \<^verbatim>\<open>bitree_rem_right\<close> end, cut off the subtree at their position, free
  each of its nodes exactly once, call \<^verbatim>\<open>destroy\<close> on its data in postorder, and
  leave every other node, the count and the tree well formed.
\<close>

theorem bitree_rem_frees_subtree:
  assumes "bitree_rep m t T" and "pos_in node T"
  shows "(\<exists>t' m'. bitree_rem_left m t node = Some (t', m', tree_calls t (sub_at True node T)) \<and>
       bitree_rep m' t' (put_at True node Leaf T) \<and> freed (addrs (sub_at True node T)) m m' \<and>
       (\<forall>b. b \<notin> addrs T \<longrightarrow> cells m' b = cells m b)) \<and>
    (\<exists>t' m'. bitree_rem_right m t node = Some (t', m', tree_calls t (sub_at False node T)) \<and>
       bitree_rep m' t' (put_at False node Leaf T) \<and> freed (addrs (sub_at False node T)) m m' \<and>
       (\<forall>b. b \<notin> addrs T \<longrightarrow> cells m' b = cells m b))"
  using bitree_rem_rep [OF assms, of True "[]"] bitree_rem_rep [OF assms, of False "[]"]
  unfolding bitree_rem_left_def bitree_rem_right_def by auto

text \<open>
  \<^verbatim>\<open>bitree_destroy\<close> frees every node of the tree and no other block, calls \<^verbatim>\<open>destroy\<close> on
  every datum once, children before their parent, and leaves a zeroed header.
\<close>

theorem bitree_destroy_frees_all:
  assumes "bitree_rep m t T"
  shows "\<exists>m'. bitree_destroy m t = Some (bitree_zero, m', tree_calls t T) \<and>
     freed (addrs T) m m' \<and> (\<forall>b. b \<notin> addrs T \<longrightarrow> cells m' b = cells m b)"
  using bitree_rem_root [OF assms, of True "[]"]
  by (auto simp: bitree_destroy_def bitree_rem_left_def)

text \<open>
  \<^verbatim>\<open>bitree_merge\<close> of two trees without common nodes makes one tree of them under a new root
  and empties both; when the allocator fails it returns -1, the merged header is zeroed and both
  trees are as before.
\<close>

theorem bitree_merge_joins:
  assumes "bitree_rep m lt L" and "bitree_rep m rt R" and "addrs L \<inter> addrs R = {}"
    and "int (size L) + int (size R) < INT_MAX"
  shows "if fails m (nextblock m)
    then \<exists>m'. bitree_merge m merge lt rt d = Some (-1, bitree_zero, lt, rt, m') \<and>
           bitree_rep m' lt L \<and> bitree_rep m' rt R
    else \<exists>mg lt' rt' m'. bitree_merge m merge lt rt d = Some (0, mg, lt', rt', m') \<and>
           bitree_rep m' mg (Node L (nextblock m, d) R) \<and> bitree_rep m' lt' Leaf \<and> bitree_rep m' rt' Leaf"
proof (cases "fails m (nextblock m)")
  case True
  then show ?thesis
    using bitree_merge_fail [OF True, of merge lt rt d] assms(1,2)
    by (auto intro!: bitree_rep_nextblock)
next
  case False
  then show ?thesis
    using bitree_merge_rep [OF assms(1-3) False assms(4), of merge d]
    by (fastforce simp: bitree_rep_def INT_MAX_def)
qed

text \<open>
  The three traversals end with 0 when the list has room for the whole tree, and append the
  data of the tree to the list in preorder, inorder and postorder.
\<close>

theorem traversals_append_in_order:
  assumes "bitree_rep m t T" and "seq_rep (l, lm) xs" and "room (size T) (l, lm)"
  shows "(\<exists>s. preorder_c m lm l (bt_root t) = Some (0, s) \<and> seq_rep s (xs @ map snd (preorder T))) \<and>
    (\<exists>s. inorder_c m lm l (bt_root t) = Some (0, s) \<and> seq_rep s (xs @ map snd (inorder T))) \<and>
    (\<exists>s. postorder_c m lm l (bt_root t) = Some (0, s) \<and> seq_rep s (xs @ map snd (postorder T)))"
proof -
  have T: "trep m (bt_root t) T"
    using assms(1) by (simp add: bitree_rep_def)
  have r: "room (size T + 0) (l, lm)"
    using assms(3) by simp
  show ?thesis
    using preorder_c_rep [OF T assms(2) r] inorder_c_rep [OF T assms(2) r] postorder_c_rep [OF T assms(2) r]
    by blast
qed

section \<open>Instances\<close>

text \<open>A tree of two nodes: the root 10 at address 0 and its left child 20 at address 1.\<close>

definition ex_bmem :: "nat tmem" where
  "ex_bmem = \<lparr>cells = [0 \<mapsto> \<lparr>n_data = 10, n_left = Ptr 1, n_right = Null\<rparr>,
                       1 \<mapsto> \<lparr>n_data = 20, n_left = Null, n_right = Null\<rparr>],
     nextblock = 2, fails = (\<lambda>_. False)\<rparr>"

definition ex_bt :: BiTree where
  "ex_bt = \<lparr>bt_size = 2, bt_compare = Null, bt_destroy = Ptr 7, bt_root = Ptr 0\<rparr>"

definition ex_bT :: "(nat \<times> nat) tree" where
  "ex_bT = Node (Node Leaf (1, 20) Leaf) (0, 10) Leaf"

lemma ex_bt_rep: "bitree_rep ex_bmem ex_bt ex_bT"
  by (simp add: bitree_rep_def ex_bmem_def ex_bt_def ex_bT_def INT_MAX_def mem_wf_def)

theorem bitree_ins_attaches_leaf_witness:
  "\<exists>t' m'. bitree_ins_right ex_bmem ex_bt (Ptr 0) 30 = Some (0, t', m') \<and>
     bitree_rep m' t' (Node (Node Leaf (1, 20) Leaf) (0, 10) (Node Leaf (2, 30) Leaf)) \<and>
   bitree_ins_left ex_bmem ex_bt (Ptr 0) 30 = Some (-1, ex_bt, ex_bmem)"
  using bitree_ins_attaches_leaf [OF ex_bt_rep, of "Ptr 0" 30]
  by (auto simp: ins_outcome_def pos_in_def free_pos_def put_at_def ex_bT_def ex_bmem_def INT_MAX_def
      bitree_ins_left_def)

theorem bitree_rem_frees_subtree_witness:
  "\<exists>t' m'. bitree_rem_left ex_bmem ex_bt (Ptr 0) = Some (t', m', [(7, 20)]) \<and>
     bitree_rep m' t' (Node Leaf (0, 10) Leaf) \<and> cells m' 1 = None"
  using bitree_rem_frees_subtree [OF ex_bt_rep, of "Ptr 0"]
  by (auto simp: pos_in_def sub_at_def put_at_def ex_bT_def ex_bt_def freed_def destroy_call_def)

theorem bitree_destroy_frees_all_witness:
  "\<exists>m'. bitree_destroy ex_bmem ex_bt = Some (bitree_zero, m', [(7, 20), (7, 10)]) \<and>
     cells m' 0 = None \<and> cells m' 1 = None"
  using bitree_destroy_frees_all [OF ex_bt_rep]
  by (auto simp: ex_bT_def ex_bt_def freed_def destroy_call_def)

theorem bitree_merge_joins_witness:
  "\<exists>mg lt' rt' m'. bitree_merge ex_bmem bitree_zero ex_bt bitree_zero 5 = Some (0, mg, lt', rt', m') \<and>
     bitree_rep m' mg (Node ex_bT (2, 5) Leaf)"
proof -
  have "bitree_rep ex_bmem bitree_zero Leaf"
    using ex_bt_rep by (simp add: bitree_rep_def bitree_zero_def INT_MAX_def)
  from bitree_merge_joins [OF ex_bt_rep this, of bitree_zero 5] show ?thesis
    by (auto simp: ex_bT_def ex_bmem_def INT_MAX_def)
qed

theorem traversals_append_in_order_witness:
  "\<exists>s. postorder_c ex_bmem (empty_mem (\<lambda>_. False)) (list_init list_zero Null) (Ptr 0) = Some (0, s) \<and>
     seq_rep s [20, 10]"
  using traversals_append_in_order [OF ex_bt_rep seq_rep_init, of list_zero Null "\<lambda>_. False"]
  by (auto simp: ex_bt_def ex_bT_def room_def alloc_ok_def empty_mem_def list_init_def INT_MAX_def)

end
