(* ===== verification/Sort.thy ===== *)
theory Sort
  imports C_Strings "HOL-Library.Char_ord" "HOL-Library.List_Lexorder"
begin

text \<open>
  The insertion sort of \<^verbatim>\<open>lib/sort/issort.c\<close> on an array of bytes, with the comparison functions
  of \<^verbatim>\<open>lib/sort/test.c\<close>. The header \<^verbatim>\<open>sort.h\<close> declares four more sorts that have no
  definition in the repository.
\<close>

section \<open>The sort\<close>

text \<open>\<^verbatim>\<open>memcpy\<close> out of and into the array, with the bounds of the array.\<close>

definition slice :: "'b list \<Rightarrow> int \<Rightarrow> int \<Rightarrow> 'b list option" where
  "slice a off n = (if 0 \<le> off \<and> 0 \<le> n \<and> off + n \<le> int (length a)
     then Some (take (nat n) (drop (nat off) a)) else None)"

definition blit :: "'b list \<Rightarrow> int \<Rightarrow> 'b list \<Rightarrow> 'b list option" where
  "blit a off bs = (if 0 \<le> off \<and> off + int (length bs) \<le> int (length a)
     then Some (take (nat off) a @ bs @ drop (nat off + length bs) a) else None)"

text \<open>
  The inner loop. Its argument is \<open>i + 1\<close>, so 0 is the exit with \<open>i = -1\<close>; the result
  is the array and the final \<open>i + 1\<close>.
\<close>

fun issort_shift ::
  "int \<Rightarrow> ('b list \<Rightarrow> 'b list \<Rightarrow> int) \<Rightarrow> 'b list \<Rightarrow> 'b list \<Rightarrow> nat \<Rightarrow> ('b list \<times> nat) option" where
  "issort_shift esize compare key a 0 = Some (a, 0)"
| "issort_shift esize compare key a (Suc i) = do {
     off \<leftarrow> c_int (int i * esize);
     e \<leftarrow> slice a off esize;
     if compare e key > 0 then do {
       off1 \<leftarrow> c_int ((int i + 1) * esize);
       a1 \<leftarrow> blit a off1 e;
       issort_shift esize compare key a1 i
     } else Some (a, Suc i)
   }"

fun issort_outer ::
  "int \<Rightarrow> ('b list \<Rightarrow> 'b list \<Rightarrow> int) \<Rightarrow> 'b list \<Rightarrow> nat list \<Rightarrow> 'b list option" where
  "issort_outer esize compare a [] = Some a"
| "issort_outer esize compare a (j # js) = do {
     off \<leftarrow> c_int (int j * esize);
     key \<leftarrow> slice a off esize;
     (a1, i1) \<leftarrow> issort_shift esize compare key a j;
     off1 \<leftarrow> c_int (int i1 * esize);
     a2 \<leftarrow> blit a1 off1 key;
     issort_outer esize compare a2 js
   }"

text \<open>\<open>ok\<close> says whether the allocation of the key buffer succeeds.\<close>

definition issort ::
  "bool \<Rightarrow> 'b list \<Rightarrow> int \<Rightarrow> int \<Rightarrow> ('b list \<Rightarrow> 'b list \<Rightarrow> int) \<Rightarrow> (int \<times> 'b list) option" where
  "issort ok a sz esize compare =
     (if \<not> ok then Some (-1, a)
      else do {
        a1 \<leftarrow> issort_outer esize compare a [1..<nat sz];
        Some (0, a1)
      })"

section \<open>Comparison functions\<close>

text \<open>An \<^verbatim>\<open>int\<close> in memory: four bytes, the least significant first.\<close>

definition int_of_bytes :: "8 word list \<Rightarrow> int" where
  "int_of_bytes bs = sint (word_of_int (horner_sum uint 256 (take 4 bs)) :: 32 word)"

definition compare_int :: "8 word list \<Rightarrow> 8 word list \<Rightarrow> int" where
  "compare_int int1 int2 =
     (if int_of_bytes int1 > int_of_bytes int2 then 1
      else if int_of_bytes int1 < int_of_bytes int2 then -1 else 0)"

definition compare_str :: "string \<Rightarrow> string \<Rightarrow> int" where
  "compare_str str1 str2 =
     (let retval = strcmp str1 str2 in if retval > 0 then 1 else if retval < 0 then -1 else 0)"

interpretation cmpint: comparator compare_int int_of_bytes
  by unfold_locales (auto simp: compare_int_def)

lemma of_char_int: "(of_char c :: int) = int (of_char c)"
  by (rule of_nat_of_char [symmetric])

lemma of_char_not_neg [simp]: "\<not> (of_char c :: int) < 0"
  by (simp add: of_char_int del: of_nat_of_char)

lemma of_char_less [simp]: "(of_char c :: int) < of_char d \<longleftrightarrow> c < d"
  unfolding of_char_int less_char_def by (rule of_nat_less_iff)

lemma NUL_least [simp]: "0 < (of_char c :: int) \<longleftrightarrow> c \<noteq> NUL"
  using of_char_eq_0 [of c] by (simp add: of_char_int order.strict_iff_order)

lemma strcmp_order:
  "(strcmp a b < 0 \<longleftrightarrow> c_prefix a < c_prefix b) \<and> (strcmp a b > 0 \<longleftrightarrow> c_prefix b < c_prefix a)"
proof (induction a b rule: strcmp.induct)
  case (4 c cs d ds)
  have "c \<noteq> NUL \<Longrightarrow> NUL < c" for c
    using of_char_less [of NUL c] NUL_least [of c] by (simp add: NUL_def)
  moreover have "\<not> c < NUL" for c
    using of_char_less [of c NUL] by (simp add: NUL_def of_char_int del: of_char_less)
  ultimately show ?case
    using 4 by (auto simp del: of_char_diff)
qed (auto simp: NUL_def)

interpretation cmpstr: comparator compare_str c_prefix
  by unfold_locales (auto simp: compare_str_def Let_def strcmp_order)

section \<open>Arrays of elements\<close>

text \<open>The bytes of elements of one size, and access to one of them.\<close>

definition elems :: "int \<Rightarrow> 'b list list \<Rightarrow> bool" where
  "elems esize es \<longleftrightarrow> 0 < esize \<and> (\<forall>e\<in>set es. int (length e) = esize) \<and>
     int (length es) * esize \<le> INT_MAX"

lemma elems_append: "elems esize (xs @ ys) \<Longrightarrow> elems esize xs"
  by (auto simp: elems_def algebra_simps intro: order_trans [rotated])

lemma length_concat_elems:
  assumes "\<forall>e\<in>set es. int (length e) = esize"
  shows "int (length (concat es)) = int (length es) * esize"
  using assms by (induction es) (auto simp: algebra_simps)

lemma offset_ok:
  assumes "elems esize es" and "k \<le> length es"
  shows "c_int (int k * esize) = Some (int k * esize)" "0 \<le> int k * esize"
proof -
  have le: "int k * esize \<le> int (length es) * esize"
    using assms by (intro mult_right_mono) (auto simp: elems_def)
  show pos: "0 \<le> int k * esize"
    using assms by (simp add: elems_def)
  show "c_int (int k * esize) = Some (int k * esize)"
    using assms(1) le pos unfolding c_int_def elems_def INT_MIN_def by (intro if_P conjI) linarith+
qed

lemma slice_elem:
  assumes "elems esize (xs @ e # ys)"
  shows "slice (concat (xs @ e # ys)) (int (length xs) * esize) esize = Some e"
proof -
  have len: "int (length (concat xs)) = int (length xs) * esize" "int (length e) = esize" "0 < esize"
    using assms length_concat_elems [of xs esize] by (auto simp: elems_def)
  then have "nat (int (length xs) * esize) = length (concat xs)" "nat esize = length e"
    by linarith+
  then show ?thesis
    using len by (simp add: slice_def)
qed

lemma blit_elem:
  assumes "elems esize (xs @ e # ys)" and "int (length e') = esize"
  shows "blit (concat (xs @ e # ys)) (int (length xs) * esize) e' = Some (concat (xs @ e' # ys))"
proof -
  have len: "int (length (concat xs)) = int (length xs) * esize" "int (length e) = esize"
    using assms length_concat_elems [of xs esize] by (auto simp: elems_def)
  then have "nat (int (length xs) * esize) = length (concat xs)" "length e' = length e"
    using assms(2) by linarith+
  then show ?thesis
    using len by (simp add: blit_def)
qed

section \<open>Insertion into the sorted prefix\<close>

text \<open>
  \<open>ins_back cmp x ys\<close> puts \<open>x\<close> before the longest run of greater elements at the end
  of \<open>ys\<close>.
\<close>

definition ins_back :: "('e \<Rightarrow> 'e \<Rightarrow> int) \<Rightarrow> 'e \<Rightarrow> 'e list \<Rightarrow> 'e list" where
  "ins_back cmp x ys =
     (let zs = dropWhile (\<lambda>y. cmp y x > 0) (rev ys); ws = takeWhile (\<lambda>y. cmp y x > 0) (rev ys)
      in rev zs @ x # rev ws)"

lemma ins_back_Nil [simp]: "ins_back cmp x [] = [x]"
  by (simp add: ins_back_def)

lemma ins_back_snoc:
  "ins_back cmp x (ys @ [y]) = (if cmp y x > 0 then ins_back cmp x ys @ [y] else ys @ [y, x])"
  by (simp add: ins_back_def)

lemma set_ins_back [simp]: "set (ins_back cmp x ys) = insert x (set ys)"
  by (induction ys rule: rev_induct) (auto simp: ins_back_snoc)

lemma length_ins_back [simp]: "length (ins_back cmp x ys) = Suc (length ys)"
  by (induction ys rule: rev_induct) (auto simp: ins_back_snoc)

lemma issort_shift_elems:
  assumes "elems esize (xs @ g # ys)" and "int (length x) = esize"
  shows "\<exists>us g' vs. issort_shift esize cmp x (concat (xs @ g # ys)) (length xs) =
       Some (concat (us @ g' # vs @ ys), length us) \<and> ins_back cmp x xs = us @ x # vs \<and>
     elems esize (us @ g' # vs @ ys)"
  using assms
proof (induction xs arbitrary: g ys rule: rev_induct)
  case Nil
  then show ?case by (intro exI [of _ "[]"] exI [of _ g]) simp
next
  case (snoc e xs)
  have el: "elems esize (xs @ e # g # ys)"
    using snoc.prems(1) by simp
  have sl: "slice (concat (xs @ e # g # ys)) (int (length xs) * esize) esize = Some e"
    by (rule slice_elem [OF el])
  have len: "int (length e) = esize"
    using el by (simp add: elems_def)
  have off: "c_int (int (length xs) * esize) = Some (int (length xs) * esize)"
    "c_int (int (length (xs @ [e])) * esize) = Some (int (length (xs @ [e])) * esize)"
    using offset_ok(1) [OF el, of "length xs"] offset_ok(1) [OF el, of "length (xs @ [e])"] by simp_all
  show ?case
  proof (cases "cmp e x > 0")
    case False
    then show ?thesis
      using sl off(1) snoc.prems(1)
      by (intro exI [of _ "xs @ [e]"] exI [of _ g] exI [of _ "[]"]) (simp add: ins_back_snoc)
  next
    case True
    have bl: "blit (concat ((xs @ [e]) @ g # ys)) (int (length (xs @ [e])) * esize) e =
        Some (concat ((xs @ [e]) @ e # ys))"
      by (rule blit_elem [OF snoc.prems(1) len])
    have "elems esize (xs @ e # e # ys)"
      using el by (auto simp: elems_def)
    from snoc.IH [OF this snoc.prems(2)] obtain us g' vs where
      ih: "issort_shift esize cmp x (concat (xs @ e # e # ys)) (length xs) =
          Some (concat (us @ g' # vs @ e # ys), length us)" "ins_back cmp x xs = us @ x # vs"
        "elems esize (us @ g' # vs @ e # ys)"
      by blast
    then show ?thesis
      using sl off bl True
      by (intro exI [of _ us] exI [of _ g'] exI [of _ "vs @ [e]"]) (simp add: ins_back_snoc algebra_simps)
  qed
qed

lemma issort_outer_elems:
  assumes "elems esize (xs @ ys)"
  shows "issort_outer esize cmp (concat (xs @ ys)) [length xs..<length xs + length ys] =
    Some (concat (fold (ins_back cmp) ys xs))"
  using assms
proof (induction ys arbitrary: xs)
  case (Cons y ys)
  note el = Cons.prems
  have y: "int (length y) = esize"
    using el by (simp add: elems_def)
  obtain us g' vs where sh: "issort_shift esize cmp y (concat (xs @ y # ys)) (length xs) =
       Some (concat (us @ g' # vs @ ys), length us)" "ins_back cmp y xs = us @ y # vs"
     "elems esize (us @ g' # vs @ ys)"
    using issort_shift_elems [OF el y] by blast
  have bl: "blit (concat (us @ g' # vs @ ys)) (int (length us) * esize) y =
      Some (concat (us @ y # vs @ ys))"
    by (rule blit_elem [OF sh(3) y])
  have el': "elems esize (ins_back cmp y xs @ ys)"
    using el by (auto simp: elems_def)
  have "issort_outer esize cmp (concat (ins_back cmp y xs @ ys))
      [length (ins_back cmp y xs)..<length (ins_back cmp y xs) + length ys] =
    Some (concat (fold (ins_back cmp) ys (ins_back cmp y xs)))"
    by (rule Cons.IH [OF el'])
  moreover have "[length xs..<length xs + length (y # ys)] =
      length xs # [length (ins_back cmp y xs)..<length (ins_back cmp y xs) + length ys]"
    by (subst upt_conv_Cons) simp_all
  ultimately show ?case
    using slice_elem [OF el] offset_ok(1) [OF el, of "length xs"] sh(1,2) bl
      offset_ok(1) [OF sh(3), of "length us"]
    by simp
qed simp

context comparator
begin

lemma ins_back_sorted: "sorted (map key ys) \<Longrightarrow> sorted (map key (ins_back cmp x ys))"
proof (induction ys rule: rev_induct)
  case (snoc y ys)
  then show ?case
    using cmp_greater [of y x] by (auto simp: ins_back_snoc sorted_append)
qed simp

lemma ins_back_filter:
  "sorted (map key ys) \<Longrightarrow>
   filter (\<lambda>z. k = key z) (ins_back cmp x ys) = filter (\<lambda>z. k = key z) (ys @ [x])"
proof (induction ys rule: rev_induct)
  case (snoc y ys)
  then show ?case
    using cmp_greater [of y x] by (auto simp: ins_back_snoc sorted_append)
qed simp

lemma fold_ins_back:
  "sorted (map key acc) \<Longrightarrow> sorted (map key (fold (ins_back cmp) xs acc)) \<and>
   (\<forall>k. filter (\<lambda>z. k = key z) (fold (ins_back cmp) xs acc) = filter (\<lambda>z. k = key z) (acc @ xs))"
  by (induction xs arbitrary: acc) (simp_all add: ins_back_sorted ins_back_filter)

lemma fold_ins_back_sort: "fold (ins_back cmp) xs [] = sort_key key xs"
proof -
  let ?ys = "fold (ins_back cmp) xs []"
  have f: "sorted (map key ?ys)" "\<forall>k. filter (\<lambda>z. k = key z) ?ys = filter (\<lambda>z. k = key z) xs"
    using fold_ins_back [of "[]" xs] by simp_all
  have "mset ?ys = mset xs"
  proof (rule multiset_eqI)
    fix z
    have "count (mset l) z = count (mset (filter (\<lambda>y. key z = key y) l)) z" for l
      by simp
    then show "count (mset ?ys) z = count (mset xs) z"
      using f(2) by metis
  qed
  then show ?thesis
    using f by (intro properties_for_sort_key [symmetric]) auto
qed

end

section \<open>Properties\<close>

text \<open>
  C21: On an array of elements and a \<^verbatim>\<open>compare\<close> that orders them by a key, \<^verbatim>\<open>issort\<close> stays within
  the array, ends with 0 and leaves exactly the stable sort of the elements; when its buffer
  cannot be allocated it returns -1 and the array is unchanged.
\<close>

theorem issort_sorts_stably:
  assumes "comparator cmp key" and "elems esize es"
  shows "issort True (concat es) (int (length es)) esize cmp = Some (0, concat (sort_key key es)) \<and>
    issort False (concat es) (int (length es)) esize cmp = Some (-1, concat es)"
proof (cases es)
  case Nil
  then show ?thesis by (simp add: issort_def)
next
  case (Cons e rest)
  have "issort_outer esize cmp (concat ([e] @ rest)) [length [e]..<length [e] + length rest] =
      Some (concat (fold (ins_back cmp) rest [e]))"
    using assms(2) Cons by (intro issort_outer_elems) simp
  moreover have "fold (ins_back cmp) rest [e] = sort_key key es"
    using comparator.fold_ins_back_sort [OF assms(1), of es] Cons by simp
  moreover have "[1..<nat (int (length es))] = [length [e]..<length [e] + length rest]"
    by (simp only: nat_int Cons) simp
  moreover have "concat ([e] @ rest) = concat es"
    by (simp add: Cons)
  ultimately show ?thesis
    unfolding issort_def by simp
qed

theorem issort_sorts_stably_witness:
  "issort True [3, 0, 0, 0, 255, 255, 255, 255] 2 4 compare_int =
     Some (0, [255, 255, 255, 255, 3, 0, 0, 0 :: 8 word])"
  using issort_sorts_stably [OF cmpint.comparator_axioms, of 4 "[[3, 0, 0, 0], [255, 255, 255, 255]]"]
  by (simp add: elems_def INT_MAX_def int_of_bytes_def)

end
