(* ===== verification/Bistree.thy ===== *)
theory Bistree
  imports Bitree Sort
begin

text \<open>
  The AVL search tree of \<^verbatim>\<open>lib/_structs/bistree.c\<close>. A node owns its children and its
  \<^verbatim>\<open>AvlNode\<close>, and no two pointers of the tree share a node, so a subtree is a value:
  a library tree labelled with \<^verbatim>\<open>AvlNode\<close> records, and an assignment to a child pointer
  rebuilds the node. The source does not compile as it stands; where a name or a token is misspelt
  (\<^verbatim>\<open>cpmval\<close>, \<^verbatim>\<open>val_data\<close>, \<^verbatim>\<open>bistree_ins_right\<close>, \<^verbatim>\<open>bitree_node\<close>, \<^verbatim>\<open>&tree->right\<close>, \<^verbatim>\<open>return -\<close>,
  the second \<^verbatim>\<open>else\<close> of \<^verbatim>\<open>lookup\<close>) the model takes the name or the branch that is meant.
\<close>

section \<open>Data\<close>

definition AVL_LFT_HEAVY :: int where "AVL_LFT_HEAVY = 1"
definition AVL_BALANCED :: int where "AVL_BALANCED = 0"
definition AVL_RGT_HEAVY :: int where "AVL_RGT_HEAVY = - 1"

lemmas avl_factors = AVL_LFT_HEAVY_def AVL_BALANCED_def AVL_RGT_HEAVY_def

record 'd AvlNode =
  av_data :: 'd
  av_hidden :: int
  av_factor :: int

type_synonym 'd avlt = "'d AvlNode tree"

record 'd BisTree =
  bs_size :: int
  bs_compare :: "('d \<Rightarrow> 'd \<Rightarrow> int) option"
  bs_destroy :: ptr
  bs_root :: "'d avlt"

section \<open>Rotations\<close>

text \<open>
  \<^verbatim>\<open>rotate_left\<close> and \<^verbatim>\<open>rotate_right\<close> work on the subtree that \<open>*node\<close> points to. A missing
  child that they dereference is undefined.
\<close>

abbreviation set_factor :: "int \<Rightarrow> 'd AvlNode \<Rightarrow> 'd AvlNode" where
  "set_factor f n \<equiv> n\<lparr>av_factor := f\<rparr>"

fun rotate_left :: "'d avlt \<Rightarrow> 'd avlt option" where
  "rotate_left (Node (Node ll lx lr) x r) =
     (if av_factor lx = AVL_LFT_HEAVY
      then Some (Node ll (set_factor AVL_BALANCED lx) (Node lr (set_factor AVL_BALANCED x) r))
      else (case lr of
              Leaf \<Rightarrow> None
            | Node gl g gr \<Rightarrow>
                let (x', lx') =
                  (if av_factor g = AVL_LFT_HEAVY then (set_factor AVL_RGT_HEAVY x, set_factor AVL_BALANCED lx)
                   else if av_factor g = AVL_BALANCED then (set_factor AVL_BALANCED x, set_factor AVL_BALANCED lx)
                   else if av_factor g = AVL_RGT_HEAVY then (set_factor AVL_BALANCED x, set_factor AVL_LFT_HEAVY lx)
                   else (x, lx))
                in Some (Node (Node ll lx' gl) (set_factor AVL_BALANCED g) (Node gr x' r))))"
| "rotate_left _ = None"

fun rotate_right :: "'d avlt \<Rightarrow> 'd avlt option" where
  "rotate_right (Node l x (Node rl rx rr)) =
     (if av_factor rx = AVL_RGT_HEAVY
      then Some (Node (Node l (set_factor AVL_BALANCED x) rl) (set_factor AVL_BALANCED rx) rr)
      else (case rl of
              Leaf \<Rightarrow> None
            | Node gl g gr \<Rightarrow>
                let (x', rx') =
                  (if av_factor g = AVL_LFT_HEAVY then (set_factor AVL_BALANCED x, set_factor AVL_RGT_HEAVY rx)
                   else if av_factor g = AVL_BALANCED then (set_factor AVL_BALANCED x, set_factor AVL_BALANCED rx)
                   else if av_factor g = AVL_RGT_HEAVY then (set_factor AVL_LFT_HEAVY x, set_factor AVL_BALANCED rx)
                   else (x, rx))
                in Some (Node (Node l x' gl) (set_factor AVL_BALANCED g) (Node gr rx' rr))))"
| "rotate_right _ = None"

section \<open>Operations\<close>

text \<open>
  An insertion allocates at most one \<^verbatim>\<open>AvlNode\<close> and one \<^verbatim>\<open>BiTreeNode\<close>; the two booleans say
  which of these allocations succeed. \<open>new_leaf\<close> is the allocation followed by
  \<^verbatim>\<open>bitree_ins_left\<close> or \<^verbatim>\<open>bitree_ins_right\<close> at an empty child; it returns the code, the child and
  the count of the tree.
\<close>

definition new_leaf :: "bool \<times> bool \<Rightarrow> int \<Rightarrow> 'd \<Rightarrow> (int \<times> 'd avlt \<times> int) option" where
  "new_leaf ok sz d =
     (if \<not> fst ok then Some (-1, Leaf, sz)
      else if \<not> snd ok then Some (-1, Leaf, sz)
      else do {
        sz1 \<leftarrow> c_int (sz + 1);
        Some (0, Node Leaf \<lparr>av_data = d, av_hidden = 0, av_factor = AVL_BALANCED\<rparr> Leaf, sz1)
      })"

text \<open>The \<^verbatim>\<open>switch\<close> after a left (right) subtree has been updated.\<close>

definition balance_left :: "'d avlt \<Rightarrow> bool \<Rightarrow> ('d avlt \<times> bool) option" where
  "balance_left t balanced =
     (case t of
        Leaf \<Rightarrow> None
      | Node l x r \<Rightarrow>
          if balanced then Some (t, balanced)
          else if av_factor x = AVL_LFT_HEAVY then map_option (\<lambda>t'. (t', True)) (rotate_left t)
          else if av_factor x = AVL_BALANCED then Some (Node l (set_factor AVL_LFT_HEAVY x) r, balanced)
          else if av_factor x = AVL_RGT_HEAVY then Some (Node l (set_factor AVL_BALANCED x) r, True)
          else Some (t, balanced))"

definition balance_right :: "'d avlt \<Rightarrow> bool \<Rightarrow> ('d avlt \<times> bool) option" where
  "balance_right t balanced =
     (case t of
        Leaf \<Rightarrow> None
      | Node l x r \<Rightarrow>
          if balanced then Some (t, balanced)
          else if av_factor x = AVL_LFT_HEAVY then Some (Node l (set_factor AVL_BALANCED x) r, True)
          else if av_factor x = AVL_BALANCED then Some (Node l (set_factor AVL_RGT_HEAVY x) r, balanced)
          else if av_factor x = AVL_RGT_HEAVY then map_option (\<lambda>t'. (t', True)) (rotate_right t)
          else Some (t, balanced))"

text \<open>
  \<^verbatim>\<open>insert\<close>: the code, the subtree, \<open>*balanced\<close>, the count and the calls of \<^verbatim>\<open>destroy\<close>.
\<close>

type_synonym 'd ins_result = "int \<times> 'd avlt \<times> bool \<times> int \<times> 'd call list"

fun insert_avl ::
  "('d \<Rightarrow> 'd \<Rightarrow> int) \<Rightarrow> ptr \<Rightarrow> bool \<times> bool \<Rightarrow> 'd \<Rightarrow> 'd avlt \<Rightarrow> bool \<Rightarrow> int \<Rightarrow> 'd ins_result option" where
  "insert_avl compare destroy ok d Leaf balanced sz =
     (if \<not> fst ok then Some (-1, Leaf, balanced, sz, [])
      else if sz > 0 then Some (-1, Leaf, balanced, sz, [])
      else do {
        (r, t, sz1) \<leftarrow> new_leaf ok sz d;
        Some (r, t, balanced, sz1, [])
      })"
| "insert_avl compare destroy ok d (Node l x r) balanced sz =
     (let cmpval = compare d (av_data x) in
      if cmpval < 0 then do {
        (ret, l1, bal1, sz1, calls) \<leftarrow>
          (if l = Leaf then do {
             (ret, l1, sz1) \<leftarrow> new_leaf ok sz d;
             Some (ret, l1, if ret = 0 then False else balanced, sz1, [])
           } else insert_avl compare destroy ok d l balanced sz);
        if ret \<noteq> 0 then Some (ret, Node l1 x r, bal1, sz1, calls)
        else do {
          (t2, bal2) \<leftarrow> balance_left (Node l1 x r) bal1;
          Some (0, t2, bal2, sz1, calls)
        }
      }
      else if cmpval > 0 then do {
        (ret, r1, bal1, sz1, calls) \<leftarrow>
          (if r = Leaf then do {
             (ret, r1, sz1) \<leftarrow> new_leaf ok sz d;
             Some (ret, r1, if ret = 0 then False else balanced, sz1, [])
           } else insert_avl compare destroy ok d r balanced sz);
        if ret \<noteq> 0 then Some (ret, Node l x r1, bal1, sz1, calls)
        else do {
          (t2, bal2) \<leftarrow> balance_right (Node l x r1) bal1;
          Some (0, t2, bal2, sz1, calls)
        }
      }
      else if av_hidden x = 0 then Some (1, Node l x r, balanced, sz, [])
      else Some (0, Node l (x\<lparr>av_data := d, av_hidden := 0\<rparr>) r, True, sz,
                 destroy_call destroy (av_data x)))"

fun hide :: "('d \<Rightarrow> 'd \<Rightarrow> int) \<Rightarrow> 'd \<Rightarrow> 'd avlt \<Rightarrow> int \<times> 'd avlt" where
  "hide compare d Leaf = (-1, Leaf)"
| "hide compare d (Node l x r) =
     (let cmpval = compare d (av_data x) in
      if cmpval < 0 then (let (ret, l1) = hide compare d l in (ret, Node l1 x r))
      else if cmpval > 0 then (let (ret, r1) = hide compare d r in (ret, Node l x r1))
      else (0, Node l (x\<lparr>av_hidden := 1\<rparr>) r))"

text \<open>\<^verbatim>\<open>lookup\<close>: the code and what \<open>*data\<close> points to afterwards.\<close>

fun lookup_avl :: "('d \<Rightarrow> 'd \<Rightarrow> int) \<Rightarrow> 'd \<Rightarrow> 'd avlt \<Rightarrow> int \<times> 'd" where
  "lookup_avl compare d Leaf = (-1, d)"
| "lookup_avl compare d (Node l x r) =
     (let cmpval = compare d (av_data x) in
      if cmpval < 0 then lookup_avl compare d l
      else if cmpval > 0 then lookup_avl compare d r
      else if av_hidden x = 0 then (0, av_data x) else (-1, d))"

text \<open>
  \<^verbatim>\<open>destroy_left\<close> and \<^verbatim>\<open>destroy_right\<close> empty the subtree at their position, unless the
  count is already 0: what is left of the subtree, the count and the calls of \<^verbatim>\<open>destroy\<close>.
\<close>

fun destroy_sub :: "ptr \<Rightarrow> 'd avlt \<Rightarrow> int \<Rightarrow> ('d avlt \<times> int \<times> 'd call list) option" where
  "destroy_sub destroy Leaf sz = Some (Leaf, sz, [])"
| "destroy_sub destroy (Node l x r) sz =
     (if sz = 0 then Some (Node l x r, sz, [])
      else do {
        (l1, sz1, calls1) \<leftarrow> destroy_sub destroy l sz;
        (r1, sz2, calls2) \<leftarrow> destroy_sub destroy r sz1;
        sz3 \<leftarrow> c_int (sz2 - 1);
        Some (Leaf, sz3, calls1 @ calls2 @ destroy_call destroy (av_data x))
      })"

definition bistree_init ::
  "'d BisTree \<Rightarrow> ('d \<Rightarrow> 'd \<Rightarrow> int) \<Rightarrow> ptr \<Rightarrow> 'd BisTree" where
  "bistree_init tree compare destroy =
     tree\<lparr>bs_size := 0, bs_destroy := destroy, bs_root := Leaf, bs_compare := Some compare\<rparr>"

definition bistree_destroy :: "'d BisTree \<Rightarrow> ('d BisTree \<times> 'd call list) option" where
  "bistree_destroy tree = do {
     (rest, sz, calls) \<leftarrow> destroy_sub (bs_destroy tree) (bs_root tree) (bs_size tree);
     Some (\<lparr>bs_size = 0, bs_compare = None, bs_destroy = Null, bs_root = Leaf\<rparr>, calls)
   }"

definition bistree_insert ::
  "'d BisTree \<Rightarrow> bool \<times> bool \<Rightarrow> 'd \<Rightarrow> (int \<times> 'd BisTree \<times> 'd call list) option" where
  "bistree_insert tree ok d = do {
     compare \<leftarrow> (if bs_root tree = Leaf then Some (\<lambda>_ _. 0) else bs_compare tree);
     (ret, t, _, sz, calls) \<leftarrow>
       insert_avl compare (bs_destroy tree) ok d (bs_root tree) False (bs_size tree);
     Some (ret, tree\<lparr>bs_root := t, bs_size := sz\<rparr>, calls)
   }"

definition bistree_remove :: "'d BisTree \<Rightarrow> 'd \<Rightarrow> (int \<times> 'd BisTree) option" where
  "bistree_remove tree d = do {
     compare \<leftarrow> (if bs_root tree = Leaf then Some (\<lambda>_ _. 0) else bs_compare tree);
     let (ret, t) = hide compare d (bs_root tree);
     Some (ret, tree\<lparr>bs_root := t\<rparr>)
   }"

definition bistree_lookup :: "'d BisTree \<Rightarrow> 'd \<Rightarrow> (int \<times> 'd) option" where
  "bistree_lookup tree d = do {
     compare \<leftarrow> (if bs_root tree = Leaf then Some (\<lambda>_ _. 0) else bs_compare tree);
     Some (lookup_avl compare d (bs_root tree))
   }"

section \<open>Invariants\<close>

text \<open>
  The balance factor of every node is the difference of the heights of its subtrees, at most one;
  the data are in the order of their keys. \<open>items\<close> is the abstract contents: the data with
  their hidden flags.
\<close>

fun avl :: "'d avlt \<Rightarrow> bool" where
  "avl Leaf \<longleftrightarrow> True"
| "avl (Node l x r) \<longleftrightarrow> avl l \<and> avl r \<and> av_factor x = int (height l) - int (height r) \<and>
     \<bar>int (height l) - int (height r)\<bar> \<le> 1"

definition items :: "'d avlt \<Rightarrow> ('d \<times> int) set" where
  "items t = (\<lambda>n. (av_data n, av_hidden n)) ` set_tree t"

lemma items_simps [simp]:
  "items Leaf = {}"
  "items (Node l x r) = insert (av_data x, av_hidden x) (items l \<union> items r)"
  by (auto simp: items_def)

fun bst_by :: "('d \<Rightarrow> 'k :: linorder) \<Rightarrow> 'd avlt \<Rightarrow> bool" where
  "bst_by key Leaf \<longleftrightarrow> True"
| "bst_by key (Node l x r) \<longleftrightarrow> bst_by key l \<and> bst_by key r \<and>
     (\<forall>i\<in>items l. key (fst i) < key (av_data x)) \<and> (\<forall>i\<in>items r. key (av_data x) < key (fst i))"

definition root_factor :: "'d avlt \<Rightarrow> int" where
  "root_factor t = (case t of Leaf \<Rightarrow> 0 | Node l x r \<Rightarrow> av_factor x)"

lemma root_factor_Node [simp]: "root_factor (Node l x r) = av_factor x"
  by (simp add: root_factor_def)

text \<open>How \<open>*balanced\<close> records whether a subtree has grown.\<close>

definition grown :: "'d avlt \<Rightarrow> 'd avlt \<Rightarrow> bool \<Rightarrow> bool" where
  "grown t t' b \<longleftrightarrow> (if b then height t' = height t
     else height t' = Suc (height t) \<and> (t = Leaf \<or> root_factor t' \<noteq> 0))"

lemma bst_rotate_left:
  "bst_by key (Node (Node ll lx lr) x r) \<Longrightarrow>
   bst_by key (Node ll (set_factor f1 lx) (Node lr (set_factor f2 x) r))"
  "bst_by key (Node (Node ll lx (Node gl g gr)) x r) \<Longrightarrow>
   bst_by key (Node (Node ll (set_factor f1 lx) gl) (set_factor f2 g) (Node gr (set_factor f3 x) r))"
  by (simp_all add: ball_Un) (blast intro: less_trans)+

lemma bst_rotate_right:
  "bst_by key (Node l x (Node rl rx rr)) \<Longrightarrow>
   bst_by key (Node (Node l (set_factor f1 x) rl) (set_factor f2 rx) rr)"
  "bst_by key (Node l x (Node (Node gl g gr) rx rr)) \<Longrightarrow>
   bst_by key (Node (Node l (set_factor f1 x) gl) (set_factor f2 g) (Node gr (set_factor f3 rx) rr))"
  by (simp_all add: ball_Un) (blast intro: less_trans)+

lemma balance_left_spec:
  assumes "avl l1" and "avl (Node l x r)" and "grown l l1 False" and "bst_by key (Node l1 x r)"
  shows "\<exists>t' b. balance_left (Node l1 x r) False = Some (t', b) \<and> avl t' \<and> bst_by key t' \<and>
     items t' = items (Node l1 x r) \<and> size t' = size (Node l1 x r) \<and> grown (Node l x r) t' b"
proof -
  have f: "av_factor x \<in> {- 1, 0, 1}"
    using assms(2) by auto
  show ?thesis
  proof (cases "av_factor x = 1")
    case False
    then show ?thesis
      using f assms by (auto simp: balance_left_def avl_factors grown_def)
  next
    case True
    then have hl: "height l = Suc (height r)" "height l1 = Suc (height l)" "l \<noteq> Leaf"
      using assms(2,3) by (auto simp: grown_def)
    then obtain ll lx lr where l1: "l1 = Node ll lx lr"
      by (cases l1) auto
    have "av_factor lx \<noteq> 0" "\<bar>av_factor lx\<bar> \<le> 1"
      using assms(1,3) l1 hl(3) by (auto simp: grown_def)
    then have lx: "av_factor lx = 1 \<or> av_factor lx = -1"
      by linarith
    show ?thesis
    proof (cases "av_factor lx = 1")
      case True': True
      then have "height ll = Suc (height r)" "height lr = height r"
        using l1 assms(1) hl by (auto simp: max_def split: if_splits)
      then show ?thesis
        using True True' l1 assms(1-3) bst_rotate_left(1) [OF assms(4) [unfolded l1]]
        by (simp add: balance_left_def avl_factors grown_def insert_commute Un_assoc ex_bool_eq)
    next
      case False
      then have lx1: "av_factor lx = -1"
        using lx by simp
      then have h: "height ll = height r" "height lr = Suc (height r)"
        using l1 assms(1) hl by (auto simp: max_def split: if_splits)
      then obtain gl g gr where lr: "lr = Node gl g gr"
        by (cases lr) auto
      have hg: "av_factor g = int (height gl) - int (height gr)" "\<bar>av_factor g\<bar> \<le> 1"
        "max (height gl) (height gr) = height r"
        using assms(1) l1 lr h by auto
      then consider "av_factor g = 1" "height gl = height r" "height r = Suc (height gr)"
        | "av_factor g = 0" "height gl = height r" "height gr = height r"
        | "av_factor g = -1" "height gr = height r" "height r = Suc (height gl)"
        by linarith
      then show ?thesis
        using True lx1 l1 lr h assms(1-3) bst_rotate_left(2) [OF assms(4) [unfolded l1 lr]]
        by cases (simp_all add: balance_left_def avl_factors grown_def insert_commute Un_assoc ex_bool_eq)
    qed
  qed
qed

lemma balance_right_spec:
  assumes "avl r1" and "avl (Node l x r)" and "grown r r1 False" and "bst_by key (Node l x r1)"
  shows "\<exists>t' b. balance_right (Node l x r1) False = Some (t', b) \<and> avl t' \<and> bst_by key t' \<and>
     items t' = items (Node l x r1) \<and> size t' = size (Node l x r1) \<and> grown (Node l x r) t' b"
proof -
  have f: "av_factor x \<in> {- 1, 0, 1}"
    using assms(2) by auto
  show ?thesis
  proof (cases "av_factor x = -1")
    case False
    then show ?thesis
      using f assms by (auto simp: balance_right_def avl_factors grown_def)
  next
    case True
    then have hl: "height r = Suc (height l)" "height r1 = Suc (height r)" "r \<noteq> Leaf"
      using assms(2,3) by (auto simp: grown_def)
    then obtain rl rx rr where r1: "r1 = Node rl rx rr"
      by (cases r1) auto
    have "av_factor rx \<noteq> 0" "\<bar>av_factor rx\<bar> \<le> 1"
      using assms(1,3) r1 hl(3) by (auto simp: grown_def)
    then have rx: "av_factor rx = 1 \<or> av_factor rx = -1"
      by linarith
    show ?thesis
    proof (cases "av_factor rx = -1")
      case True': True
      then have "height rr = Suc (height l)" "height rl = height l"
        using r1 assms(1) hl by (auto simp: max_def split: if_splits)
      then show ?thesis
        using True True' r1 assms(1-3) bst_rotate_right(1) [OF assms(4) [unfolded r1]]
        by (simp add: balance_right_def avl_factors grown_def insert_commute Un_assoc ex_bool_eq)
    next
      case False
      then have rx1: "av_factor rx = 1"
        using rx by simp
      then have h: "height rr = height l" "height rl = Suc (height l)"
        using r1 assms(1) hl by (auto simp: max_def split: if_splits)
      then obtain gl g gr where rl: "rl = Node gl g gr"
        by (cases rl) auto
      have hg: "av_factor g = int (height gl) - int (height gr)" "\<bar>av_factor g\<bar> \<le> 1"
        "max (height gl) (height gr) = height l"
        using assms(1) r1 rl h by auto
      then consider "av_factor g = 1" "height gl = height l" "height l = Suc (height gr)"
        | "av_factor g = 0" "height gl = height l" "height gr = height l"
        | "av_factor g = -1" "height gr = height l" "height l = Suc (height gl)"
        by linarith
      then show ?thesis
        using True rx1 r1 rl h assms(1-3) bst_rotate_right(2) [OF assms(4) [unfolded r1 rl]]
        by cases (simp_all add: balance_right_def avl_factors grown_def insert_commute Un_assoc ex_bool_eq)
    qed
  qed
qed

section \<open>Insertion\<close>

definition absent :: "('d \<Rightarrow> 'k :: linorder) \<Rightarrow> 'd \<Rightarrow> 'd avlt \<Rightarrow> bool" where
  "absent key d t \<longleftrightarrow> (\<forall>i\<in>items t. key (fst i) \<noteq> key d)"

text \<open>
  The contract of \<^verbatim>\<open>insert\<close>: a new key is added when both allocations succeed and nothing changes
  otherwise; a visible key gives 1; a hidden one is replaced and its datum destroyed.
\<close>

definition ins_spec ::
  "('d \<Rightarrow> 'k :: linorder) \<Rightarrow> ptr \<Rightarrow> bool \<Rightarrow> 'd \<Rightarrow> 'd avlt \<Rightarrow> int \<Rightarrow> 'd ins_result \<Rightarrow> bool" where
  "ins_spec key f alloc d t sz = (\<lambda>(ret, t', b, sz', calls). avl t' \<and> bst_by key t' \<and>
     ((absent key d t \<and> alloc \<and> ret = 0 \<and> items t' = insert (d, 0) (items t) \<and>
         size t' = Suc (size t) \<and> sz' = sz + 1 \<and> grown t t' b \<and> calls = []) \<or>
      (absent key d t \<and> \<not> alloc \<and> ret = -1 \<and> t' = t \<and> sz' = sz \<and> calls = []) \<or>
      (\<exists>x. (x, 0) \<in> items t \<and> key x = key d \<and> ret = 1 \<and> t' = t \<and> sz' = sz \<and> calls = []) \<or>
      (\<exists>x h. (x, h) \<in> items t \<and> h \<noteq> 0 \<and> key x = key d \<and> ret = 0 \<and>
         items t' = insert (d, 0) (items t - {(x, h)}) \<and> size t' = size t \<and> sz' = sz \<and> b \<and>
         height t' = height t \<and> calls = destroy_call f x)))"

lemma ins_spec_cases:
  assumes "ins_spec key f alloc d t sz (ret, t', b, sz', calls)"
  obtains (new) "absent key d t" "alloc" "ret = 0" "items t' = insert (d, 0) (items t)"
      "size t' = Suc (size t)" "sz' = sz + 1" "grown t t' b" "calls = []"
  | (fail) "absent key d t" "\<not> alloc" "ret = -1" "t' = t" "sz' = sz" "calls = []"
  | (dup) x where "(x, 0) \<in> items t" "key x = key d" "ret = 1" "t' = t" "sz' = sz" "calls = []"
  | (hidden) x h where "(x, h) \<in> items t" "h \<noteq> 0" "key x = key d" "ret = 0"
      "items t' = insert (d, 0) (items t - {(x, h)})" "size t' = size t" "sz' = sz" "b"
      "height t' = height t" "calls = destroy_call f x"
  using assms unfolding ins_spec_def by auto

lemma ins_spec_newI:
  "avl t' \<Longrightarrow> bst_by key t' \<Longrightarrow> absent key d t \<Longrightarrow> alloc \<Longrightarrow> items t' = insert (d, 0) (items t) \<Longrightarrow>
   size t' = Suc (size t) \<Longrightarrow> grown t t' b \<Longrightarrow> ins_spec key f alloc d t sz (0, t', b, sz + 1, [])"
  by (simp add: ins_spec_def)

lemma ins_spec_failI:
  "avl t \<Longrightarrow> bst_by key t \<Longrightarrow> absent key d t \<Longrightarrow> \<not> alloc \<Longrightarrow>
   ins_spec key f alloc d t sz (-1, t, b, sz, [])"
  by (simp add: ins_spec_def)

lemma ins_spec_dupI:
  "avl t \<Longrightarrow> bst_by key t \<Longrightarrow> (x, 0) \<in> items t \<Longrightarrow> key x = key d \<Longrightarrow>
   ins_spec key f alloc d t sz (1, t, b, sz, [])"
  unfolding ins_spec_def by auto

lemma ins_spec_hiddenI:
  "avl t' \<Longrightarrow> bst_by key t' \<Longrightarrow> (x, h) \<in> items t \<Longrightarrow> h \<noteq> 0 \<Longrightarrow> key x = key d \<Longrightarrow>
   items t' = insert (d, 0) (items t - {(x, h)}) \<Longrightarrow> size t' = size t \<Longrightarrow> height t' = height t \<Longrightarrow>
   ins_spec key f alloc d t sz (0, t', True, sz, destroy_call f x)"
  unfolding ins_spec_def by blast

lemma absent_left:
  "bst_by key (Node l x r) \<Longrightarrow> key d < key (av_data x) \<Longrightarrow> absent key d (Node l x r) \<longleftrightarrow> absent key d l"
  by (fastforce simp: absent_def)

lemma absent_right:
  "bst_by key (Node l x r) \<Longrightarrow> key (av_data x) < key d \<Longrightarrow> absent key d (Node l x r) \<longleftrightarrow> absent key d r"
  by (fastforce simp: absent_def)

lemma ins_spec_left:
  assumes spec: "ins_spec key f alloc d l sz (ret, l1, b, sz', calls)"
    and t: "avl (Node l x r)" "bst_by key (Node l x r)" "key d < key (av_data x)"
  shows "\<exists>res. (if ret \<noteq> 0 then Some (ret, Node l1 x r, b, sz', calls)
      else do { (t2, b2) \<leftarrow> balance_left (Node l1 x r) b; Some (0, t2, b2, sz', calls) }) = Some res \<and>
    ins_spec key f alloc d (Node l x r) sz res"
  using spec
proof (cases rule: ins_spec_cases)
  case new
  have l1: "avl l1" "bst_by key l1"
    using spec by (auto simp: ins_spec_def)
  then have bst: "bst_by key (Node l1 x r)"
    using t new(4) by auto
  show ?thesis
  proof (cases b)
    case True
    then have "height l1 = height l"
      using new(7) by (simp add: grown_def)
    then have "avl (Node l1 x r)" "grown (Node l x r) (Node l1 x r) True"
      using l1(1) t(1) by (auto simp: grown_def)
    from ins_spec_newI [OF this(1) bst _ new(2) _ _ this(2)] show ?thesis
      using True new absent_left [OF t(2,3)] by (simp add: balance_left_def insert_commute)
  next
    case False
    then show ?thesis
      using balance_left_spec [OF l1(1) t(1) _ bst] new absent_left [OF t(2,3)]
      by (fastforce intro!: ins_spec_newI simp: insert_commute)
  qed
next
  case fail
  then show ?thesis
    using ins_spec_failI [OF t(1,2)] absent_left [OF t(2,3)] by simp
next
  case (dup y)
  then show ?thesis
    using ins_spec_dupI [OF t(1,2), of y d] by simp
next
  case (hidden y h)
  have l1: "avl l1" "bst_by key l1"
    using spec by (auto simp: ins_spec_def)
  then have bst: "bst_by key (Node l1 x r)"
    using t hidden(5) by auto
  have "(y, h) \<notin> items r" "(y, h) \<noteq> (av_data x, av_hidden x)"
    using t(2,3) hidden(3) by (fastforce dest: bspec [of "items r" _ "(y, h)"])+
  then have "items (Node l1 x r) = insert (d, 0) (items (Node l x r) - {(y, h)})"
    using hidden(5) by auto
  moreover have "avl (Node l1 x r)" "height (Node l1 x r) = height (Node l x r)"
    using l1 hidden(9) t(1) by auto
  moreover have "(y, h) \<in> items (Node l x r)" "size (Node l1 x r) = size (Node l x r)"
    using hidden(1,6) by auto
  ultimately have "ins_spec key f alloc d (Node l x r) sz (0, Node l1 x r, True, sz, destroy_call f y)"
    using hidden(2,3) bst by (intro ins_spec_hiddenI)
  then show ?thesis
    using hidden by (simp add: balance_left_def)
qed

lemma ins_spec_right:
  assumes spec: "ins_spec key f alloc d r sz (ret, r1, b, sz', calls)"
    and t: "avl (Node l x r)" "bst_by key (Node l x r)" "key (av_data x) < key d"
  shows "\<exists>res. (if ret \<noteq> 0 then Some (ret, Node l x r1, b, sz', calls)
      else do { (t2, b2) \<leftarrow> balance_right (Node l x r1) b; Some (0, t2, b2, sz', calls) }) = Some res \<and>
    ins_spec key f alloc d (Node l x r) sz res"
  using spec
proof (cases rule: ins_spec_cases)
  case new
  have r1: "avl r1" "bst_by key r1"
    using spec by (auto simp: ins_spec_def)
  then have bst: "bst_by key (Node l x r1)"
    using t new(4) by auto
  show ?thesis
  proof (cases b)
    case True
    then have "height r1 = height r"
      using new(7) by (simp add: grown_def)
    then have "avl (Node l x r1)" "grown (Node l x r) (Node l x r1) True"
      using r1(1) t(1) by (auto simp: grown_def)
    from ins_spec_newI [OF this(1) bst _ new(2) _ _ this(2)] show ?thesis
      using True new absent_right [OF t(2,3)] by (simp add: balance_right_def insert_commute)
  next
    case False
    then show ?thesis
      using balance_right_spec [OF r1(1) t(1) _ bst] new absent_right [OF t(2,3)]
      by (fastforce intro!: ins_spec_newI simp: insert_commute)
  qed
next
  case fail
  then show ?thesis
    using ins_spec_failI [OF t(1,2)] absent_right [OF t(2,3)] by simp
next
  case (dup y)
  then show ?thesis
    using ins_spec_dupI [OF t(1,2), of y d] by simp
next
  case (hidden y h)
  have r1: "avl r1" "bst_by key r1"
    using spec by (auto simp: ins_spec_def)
  then have bst: "bst_by key (Node l x r1)"
    using t hidden(5) by auto
  have "(y, h) \<notin> items l" "(y, h) \<noteq> (av_data x, av_hidden x)"
    using t(2,3) hidden(3) by (fastforce dest: bspec [of "items l" _ "(y, h)"])+
  then have "items (Node l x r1) = insert (d, 0) (items (Node l x r) - {(y, h)})"
    using hidden(5) by auto
  moreover have "avl (Node l x r1)" "height (Node l x r1) = height (Node l x r)"
    using r1 hidden(9) t(1) by auto
  moreover have "(y, h) \<in> items (Node l x r)" "size (Node l x r1) = size (Node l x r)"
    using hidden(1,6) by auto
  ultimately have "ins_spec key f alloc d (Node l x r) sz (0, Node l x r1, True, sz, destroy_call f y)"
    using hidden(2,3) bst by (intro ins_spec_hiddenI)
  then show ?thesis
    using hidden by (simp add: balance_right_def)
qed

lemma ins_spec_new_leaf:
  assumes "0 \<le> sz" and "sz < INT_MAX"
  shows "\<exists>ret t' sz'. new_leaf ok sz d = Some (ret, t', sz') \<and>
    ins_spec key f (fst ok \<and> snd ok) d Leaf sz (ret, t', if ret = 0 then False else b, sz', [])"
  using assms
  by (auto simp: new_leaf_def ins_spec_def absent_def grown_def c_int_def INT_MIN_def avl_factors)

context comparator
begin

lemma insert_avl_spec:
  assumes "avl t" and "bst_by key t" and "0 \<le> sz" and "sz < INT_MAX" and "t \<noteq> Leaf"
  shows "\<exists>res. insert_avl cmp f ok d t False sz = Some res \<and>
     ins_spec key f (fst ok \<and> snd ok) d t sz res"
  using assms
proof (induction t)
  case (Node l x r)
  consider "key d < key (av_data x)" | "key (av_data x) < key d" | "key d = key (av_data x)"
    by fastforce
  then show ?case
  proof cases
    case 1
    let ?sub = "if l = Leaf then do {
             (ret, l1, sz1) \<leftarrow> new_leaf ok sz d;
             Some (ret, l1, if ret = 0 then False else False, sz1, [])
           } else insert_avl cmp f ok d l False sz"
    have "\<exists>ret l1 b sz' calls. ?sub = Some (ret, l1, b, sz', calls) \<and>
        ins_spec key f (fst ok \<and> snd ok) d l sz (ret, l1, b, sz', calls)"
    proof (cases "l = Leaf")
      case True
      then show ?thesis
        using ins_spec_new_leaf [OF Node.prems(3,4), of ok d key f False] by auto
    next
      case False
      then show ?thesis
        using Node.IH(1) Node.prems by auto
    qed
    then obtain ret l1 b sz' calls where sub: "?sub = Some (ret, l1, b, sz', calls)"
      "ins_spec key f (fst ok \<and> snd ok) d l sz (ret, l1, b, sz', calls)"
      by blast
    have "cmp d (av_data x) < 0"
      using 1 by (simp add: cmp_less)
    then show ?thesis
      using ins_spec_left [OF sub(2) Node.prems(1,2) 1]
      unfolding insert_avl.simps Let_def sub(1) by (simp only: if_True bind.bind_lunit prod.case)
  next
    case 2
    let ?sub = "if r = Leaf then do {
             (ret, r1, sz1) \<leftarrow> new_leaf ok sz d;
             Some (ret, r1, if ret = 0 then False else False, sz1, [])
           } else insert_avl cmp f ok d r False sz"
    have "\<exists>ret r1 b sz' calls. ?sub = Some (ret, r1, b, sz', calls) \<and>
        ins_spec key f (fst ok \<and> snd ok) d r sz (ret, r1, b, sz', calls)"
    proof (cases "r = Leaf")
      case True
      then show ?thesis
        using ins_spec_new_leaf [OF Node.prems(3,4), of ok d key f False] by auto
    next
      case False
      then show ?thesis
        using Node.IH(2) Node.prems by auto
    qed
    then obtain ret r1 b sz' calls where sub: "?sub = Some (ret, r1, b, sz', calls)"
      "ins_spec key f (fst ok \<and> snd ok) d r sz (ret, r1, b, sz', calls)"
      by blast
    have "cmp d (av_data x) > 0" "\<not> cmp d (av_data x) < 0"
      using 2 cmp_greater [of d "av_data x"] by simp_all
    then show ?thesis
      using ins_spec_right [OF sub(2) Node.prems(1,2) 2]
      unfolding insert_avl.simps Let_def sub(1)
      by (simp only: if_True if_False bind.bind_lunit prod.case)
  next
    case 3
    have "items l \<inter> {i. key (fst i) = key d} = {}" "items r \<inter> {i. key (fst i) = key d} = {}"
      using Node.prems(2) 3 by auto
    then have "insert (d, 0) (items (Node l x r) - {(av_data x, av_hidden x)}) =
        insert (d, 0) (items l \<union> items r)"
      using 3 by auto
    moreover have "bst_by key (Node l (x\<lparr>av_data := d, av_hidden := 0\<rparr>) r)"
      "avl (Node l (x\<lparr>av_data := d, av_hidden := 0\<rparr>) r)"
      using Node.prems(1,2) 3 by auto
    ultimately have hid: "ins_spec key f (fst ok \<and> snd ok) d (Node l x r) sz
        (0, Node l (x\<lparr>av_data := d, av_hidden := 0\<rparr>) r, True, sz, destroy_call f (av_data x))"
      if "av_hidden x \<noteq> 0"
      using that 3 by (intro ins_spec_hiddenI [of _ _ "av_data x" "av_hidden x"]) simp_all
    have vis: "ins_spec key f (fst ok \<and> snd ok) d (Node l x r) sz (1, Node l x r, False, sz, [])"
      if "av_hidden x = 0"
      using that 3 by (intro ins_spec_dupI [OF Node.prems(1,2), of "av_data x"]) simp_all
    have "cmp d (av_data x) = 0"
      using 3 cmp_less [of d "av_data x"] cmp_greater [of d "av_data x"] by auto
    then show ?thesis
      using hid vis by (cases "av_hidden x = 0") simp_all
  qed
qed simp

lemma lookup_avl_spec:
  "bst_by key t \<Longrightarrow>
   (\<exists>x. (x, 0) \<in> items t \<and> key x = key d \<and> lookup_avl cmp d t = (0, x)) \<or>
   (\<forall>x. (x, 0) \<in> items t \<longrightarrow> key x \<noteq> key d) \<and> lookup_avl cmp d t = (-1, d)"
proof (induction t)
  case (Node l n r)
  consider "key d < key (av_data n)" | "key (av_data n) < key d" | "key d = key (av_data n)"
    by fastforce
  then show ?case
  proof cases
    case 1
    then have "cmp d (av_data n) < 0" by (simp add: cmp_less)
    with 1 Node show ?thesis by fastforce
  next
    case 2
    then have "cmp d (av_data n) > 0" by (simp add: cmp_greater)
    with 2 Node show ?thesis by fastforce
  next
    case 3
    then have "cmp d (av_data n) = 0"
      using cmp_less [of d "av_data n"] cmp_greater [of d "av_data n"] by auto
    with 3 Node.prems show ?thesis by fastforce
  qed
qed simp

lemma hide_Node:
  assumes "hide cmp d (Node l n r) = (ret, t')"
  obtains (less) l1 where "cmp d (av_data n) < 0" "hide cmp d l = (ret, l1)" "t' = Node l1 n r"
  | (greater) r1 where "cmp d (av_data n) > 0" "hide cmp d r = (ret, r1)" "t' = Node l n r1"
  | (equal) "cmp d (av_data n) = 0" "ret = 0" "t' = Node l (n\<lparr>av_hidden := 1\<rparr>) r"
  using assms by (auto simp: Let_def split: prod.splits if_splits)

lemma hide_shape:
  "hide cmp d t = (ret, t') \<Longrightarrow> height t' = height t \<and> size t' = size t \<and> (avl t \<longrightarrow> avl t') \<and>
   fst ` items t' = fst ` items t"
proof (induction t arbitrary: ret t')
  case (Node l n r)
  from Node.prems show ?case
  proof (cases rule: hide_Node)
    case (less l1)
    then show ?thesis using Node.IH(1) [OF less(2)] by (simp add: image_Un)
  next
    case (greater r1)
    then show ?thesis using Node.IH(2) [OF greater(2)] by (simp add: image_Un)
  qed simp
qed simp

text \<open>Every item with the key of \<open>d\<close> becomes hidden.\<close>

definition hide_key :: "'d \<Rightarrow> 'd \<times> int \<Rightarrow> 'd \<times> int" where
  "hide_key d i = (if key (fst i) = key d then (fst i, 1) else i)"

lemma hide_key_other: "\<forall>i\<in>A. key (fst i) \<noteq> key d \<Longrightarrow> hide_key d ` A = A"
  by (auto simp: hide_key_def image_iff)

lemma hide_items:
  "bst_by key t \<Longrightarrow> hide cmp d t = (ret, t') \<Longrightarrow>
   items t' = hide_key d ` items t \<and> (ret = 0 \<longleftrightarrow> \<not> absent key d t) \<and> (ret = 0 \<or> ret = -1)"
proof (induction t arbitrary: ret t')
  case (Node l n r)
  have b: "bst_by key l" "bst_by key r"
    "\<forall>i\<in>items l. key (fst i) < key (av_data n)" "\<forall>i\<in>items r. key (av_data n) < key (fst i)"
    using Node.prems(1) by auto
  consider "key d < key (av_data n)" | "key (av_data n) < key d" | "key d = key (av_data n)"
    by fastforce
  then show ?case
  proof cases
    case 1
    then have "cmp d (av_data n) < 0" by (simp add: cmp_less)
    then obtain l1 where l1: "hide cmp d l = (ret, l1)" "t' = Node l1 n r"
      using Node.prems(2) by (auto simp: Let_def split: prod.splits)
    have "hide_key d ` items r = items r"
      using b(4) 1 by (intro hide_key_other) auto
    then show ?thesis
      using Node.IH(1) [OF b(1) l1(1)] l1(2) 1 absent_left [OF Node.prems(1) 1]
      by (auto simp: hide_key_def image_Un)
  next
    case 2
    then have "cmp d (av_data n) > 0" by (simp add: cmp_greater)
    then obtain r1 where r1: "hide cmp d r = (ret, r1)" "t' = Node l n r1"
      using Node.prems(2) by (auto simp: Let_def split: prod.splits)
    have "hide_key d ` items l = items l"
      using b(3) 2 by (intro hide_key_other) auto
    then show ?thesis
      using Node.IH(2) [OF b(2) r1(1)] r1(2) 2 absent_right [OF Node.prems(1) 2]
      by (auto simp: hide_key_def image_Un)
  next
    case 3
    then have "cmp d (av_data n) = 0"
      using cmp_less [of d "av_data n"] cmp_greater [of d "av_data n"] by auto
    then have t': "ret = 0" "t' = Node l (n\<lparr>av_hidden := 1\<rparr>) r"
      using Node.prems(2) by (auto simp: Let_def)
    have "hide_key d ` items l = items l" "hide_key d ` items r = items r"
      using b(3,4) 3 by (intro hide_key_other; auto)+
    then show ?thesis
      using t' 3 by (auto simp: hide_key_def image_Un absent_def)
  qed
qed (simp add: absent_def)

lemma ball_keys:
  "fst ` items t1 = fst ` items t2 \<Longrightarrow>
   (\<forall>i\<in>items t1. P (key (fst i))) \<longleftrightarrow> (\<forall>i\<in>items t2. P (key (fst i)))"
  by (metis (no_types, lifting) image_iff)

lemma hide_bst: "bst_by key t \<Longrightarrow> hide cmp d t = (ret, t') \<Longrightarrow> bst_by key t'"
proof (induction t arbitrary: ret t')
  case (Node l n r)
  from Node.prems(2) show ?case
  proof (cases rule: hide_Node)
    case (less l1)
    then show ?thesis
      using Node.IH(1) [OF _ less(2)] Node.prems(1) hide_shape [OF less(2)]
        ball_keys [of l1 l "\<lambda>k. k < key (av_data n)"] by simp
  next
    case (greater r1)
    then show ?thesis
      using Node.IH(2) [OF _ greater(2)] Node.prems(1) hide_shape [OF greater(2)]
        ball_keys [of r1 r "\<lambda>k. key (av_data n) < k"] by simp
  qed (use Node.prems in simp)
qed simp

end

section \<open>Height and destruction\<close>

text \<open>The least number of leaves (size plus one) of a balanced tree of height \<open>h\<close>.\<close>

fun min_leaves :: "nat \<Rightarrow> nat" where
  "min_leaves 0 = 1"
| "min_leaves (Suc 0) = 2"
| "min_leaves (Suc (Suc h)) = min_leaves (Suc h) + min_leaves h"

lemma min_leaves_mono: "min_leaves h \<le> min_leaves (Suc h)"
  by (induction h rule: min_leaves.induct) auto

lemma min_leaves_pow: "2 ^ (h div 2) \<le> min_leaves h"
proof (induction h rule: min_leaves.induct)
  case (3 h)
  then show ?case
    using min_leaves_mono [of h] by simp
qed simp_all

lemma avl_min_leaves: "avl t \<Longrightarrow> min_leaves (height t) \<le> Suc (size t)"
proof (induction t)
  case (Node l x r)
  have IH: "min_leaves (height l) \<le> Suc (size l)" "min_leaves (height r) \<le> Suc (size r)"
    using Node by auto
  consider "height l = height r" | "height l = Suc (height r)" | "height r = Suc (height l)"
    using Node.prems by fastforce
  then show ?case
  proof cases
    case 1
    then show ?thesis
      using IH min_leaves_mono [of "height r - 1"] by (cases "height r") auto
  qed (use IH in auto)
qed simp

text \<open>The calls of \<^verbatim>\<open>destroy\<close> on all the data, children before their parent.\<close>

definition avl_calls :: "ptr \<Rightarrow> 'd avlt \<Rightarrow> 'd call list" where
  "avl_calls f t = concat (map (destroy_call f \<circ> av_data) (postorder t))"

lemma avl_calls_simps [simp]:
  "avl_calls f Leaf = []"
  "avl_calls f (Node l x r) = avl_calls f l @ avl_calls f r @ destroy_call f (av_data x)"
  by (simp_all add: avl_calls_def)

lemma destroy_sub_all:
  "int (size t) \<le> sz \<Longrightarrow> sz \<le> INT_MAX \<Longrightarrow>
   destroy_sub f t sz = Some (Leaf, sz - int (size t), avl_calls f t)"
proof (induction t arbitrary: sz)
  case (Node l x r)
  then show ?case
    by (simp add: c_int_def INT_MIN_def)
qed simp

lemma bst_unique:
  "bst_by key t \<Longrightarrow> (x, h) \<in> items t \<Longrightarrow> (y, h') \<in> items t \<Longrightarrow> key x = key y \<Longrightarrow> x = y \<and> h = h'"
proof (induction t)
  case (Node l n r)
  have "key (fst i) < key (av_data n)" if "i \<in> items l" for i
    using Node.prems(1) that by simp
  moreover have "key (av_data n) < key (fst i)" if "i \<in> items r" for i
    using Node.prems(1) that by simp
  ultimately show ?case
    using Node.prems Node.IH by (fastforce dest: less_trans)
qed simp

section \<open>Properties\<close>

text \<open>The representation invariant, and the data that are not hidden.\<close>

definition bis_ok :: "('d \<Rightarrow> 'd \<Rightarrow> int) \<Rightarrow> ('d \<Rightarrow> 'k :: linorder) \<Rightarrow> 'd BisTree \<Rightarrow> bool" where
  "bis_ok cmp key tree \<longleftrightarrow> bs_compare tree = Some cmp \<and> avl (bs_root tree) \<and> bst_by key (bs_root tree) \<and>
     bs_size tree = int (size (bs_root tree)) \<and> int (size (bs_root tree)) \<le> INT_MAX"

definition visible :: "'d BisTree \<Rightarrow> 'd set" where
  "visible tree = {x. (x, 0) \<in> items (bs_root tree)}"

lemma bistree_insert_ins_spec:
  assumes cb: "comparator cmp key" and ok: "bis_ok cmp key tree" and room: "bs_size tree < INT_MAX"
  shows "\<exists>ret t b sz calls. bistree_insert tree oom d =
       Some (ret, tree\<lparr>bs_root := t, bs_size := sz\<rparr>, calls) \<and>
     ins_spec key (bs_destroy tree) (fst oom \<and> snd oom) d (bs_root tree) (bs_size tree) (ret, t, b, sz, calls)"
proof (cases "bs_root tree = Leaf")
  case True
  then have "bs_size tree = 0"
    using ok by (simp add: bis_ok_def)
  moreover have "insert_avl c f oom d Leaf False 0 =
      do { (r, t, sz1) \<leftarrow> new_leaf oom 0 d; Some (r, t, False, sz1, []) }" for c f
    by (simp add: new_leaf_def)
  moreover obtain ret t' sz' where "new_leaf oom 0 d = Some (ret, t', sz')"
    "ins_spec key (bs_destroy tree) (fst oom \<and> snd oom) d Leaf 0 (ret, t', False, sz', [])"
    using ins_spec_new_leaf [of 0 oom d key "bs_destroy tree" False] by (auto simp: INT_MAX_def)
  ultimately show ?thesis
    using True by (auto simp: bistree_insert_def)
next
  case False
  have t: "avl (bs_root tree)" "bst_by key (bs_root tree)" "0 \<le> bs_size tree" "bs_compare tree = Some cmp"
    using ok by (auto simp: bis_ok_def)
  obtain ret t' b sz calls where
    "insert_avl cmp (bs_destroy tree) oom d (bs_root tree) False (bs_size tree) = Some (ret, t', b, sz, calls)"
    "ins_spec key (bs_destroy tree) (fst oom \<and> snd oom) d (bs_root tree) (bs_size tree) (ret, t', b, sz, calls)"
    using comparator.insert_avl_spec [OF cb t(1,2,3) room False, of "bs_destroy tree" oom d]
    by (metis prod_cases5)
  then show ?thesis
    using False t(4) by (auto simp: bistree_insert_def)
qed

lemma absent_not_visible: "absent key d (bs_root tree) \<Longrightarrow> \<not> (\<exists>x\<in>visible tree. key x = key d)"
  by (auto simp: absent_def visible_def)

lemma hidden_not_visible:
  assumes "bis_ok cmp key tree" and "(x, h) \<in> items (bs_root tree)" and "h \<noteq> 0"
  shows "\<not> (\<exists>y\<in>visible tree. key y = key x)"
  using assms bst_unique [of key "bs_root tree" _ 0 x h] by (auto simp: bis_ok_def visible_def)

text \<open>
  C7: \<^verbatim>\<open>bistree_insert\<close> keeps the tree a search tree, balanced and correctly counted. A datum whose
  key is visible gives 1 and no change. Otherwise the datum becomes visible: in the node of a
  hidden datum of the same key, which is then destroyed, or in a new node. When an
  allocation for the new node fails the result is -1 and nothing changes.
\<close>

theorem bistree_insert_correct:
  assumes cb: "comparator cmp key" and ok: "bis_ok cmp key tree" and room: "bs_size tree < INT_MAX"
  shows "\<exists>ret tree' calls. bistree_insert tree oom d = Some (ret, tree', calls) \<and> bis_ok cmp key tree' \<and>
    (if \<exists>x\<in>visible tree. key x = key d then ret = 1 \<and> tree' = tree \<and> calls = []
     else if absent key d (bs_root tree) then
       (if fst oom \<and> snd oom
        then ret = 0 \<and> visible tree' = insert d (visible tree) \<and> bs_size tree' = bs_size tree + 1 \<and> calls = []
        else ret = -1 \<and> tree' = tree \<and> calls = [])
     else ret = 0 \<and> visible tree' = insert d (visible tree) \<and> bs_size tree' = bs_size tree \<and>
       (\<exists>x h. (x, h) \<in> items (bs_root tree) \<and> h \<noteq> 0 \<and> key x = key d \<and>
              calls = destroy_call (bs_destroy tree) x))"
proof -
  from bistree_insert_ins_spec [OF assms, of oom d] obtain ret t b sz calls where
    run: "bistree_insert tree oom d = Some (ret, tree\<lparr>bs_root := t, bs_size := sz\<rparr>, calls)" and
    spec: "ins_spec key (bs_destroy tree) (fst oom \<and> snd oom) d (bs_root tree) (bs_size tree) (ret, t, b, sz, calls)"
    by blast
  let ?tree = "tree\<lparr>bs_root := t, bs_size := sz\<rparr>"
  have t: "avl t" "bst_by key t"
    using spec by (auto simp: ins_spec_def)
  have sz: "bs_size tree = int (size (bs_root tree))"
    using ok by (simp add: bis_ok_def)
  from spec show ?thesis
  proof (cases rule: ins_spec_cases)
    case new
    then have "bis_ok cmp key ?tree" "visible ?tree = insert d (visible tree)"
      using t ok room sz by (auto simp: bis_ok_def visible_def)
    then show ?thesis
      using run new absent_not_visible [OF new(1)] by simp
  next
    case fail
    then show ?thesis
      using run ok absent_not_visible [OF fail(1)] by simp
  next
    case (dup x)
    then have "\<exists>x\<in>visible tree. key x = key d"
      by (auto simp: visible_def)
    then show ?thesis
      using run ok dup by simp
  next
    case (hidden x h)
    have "\<not> absent key d (bs_root tree)"
      using hidden(1,3) by (force simp: absent_def)
    moreover have "\<not> (\<exists>x\<in>visible tree. key x = key d)"
      using hidden_not_visible [OF ok hidden(1,2)] hidden(3) by simp
    moreover have "bis_ok cmp key ?tree" "visible ?tree = insert d (visible tree)"
      using t ok hidden by (auto simp: bis_ok_def visible_def)
    ultimately show ?thesis
      using run hidden by auto
  qed
qed

text \<open>
  C23: \<^verbatim>\<open>bistree_lookup\<close> returns 0 and the visible datum of the key, or -1 and its argument.
  \<^verbatim>\<open>bistree_remove\<close> hides the datum of the key and keeps the tree, its balance and its count; it
  returns 0 whenever a node has the key, even when that node was hidden before, and -1 when none has.
\<close>

theorem bistree_lookup_remove_correct:
  assumes cb: "comparator cmp key" and ok: "bis_ok cmp key tree"
  shows "((\<exists>x\<in>visible tree. key x = key d \<and> bistree_lookup tree d = Some (0, x)) \<or>
      (\<forall>x\<in>visible tree. key x \<noteq> key d) \<and> bistree_lookup tree d = Some (-1, d)) \<and>
    (\<exists>ret tree'. bistree_remove tree d = Some (ret, tree') \<and> bis_ok cmp key tree' \<and>
       bs_size tree' = bs_size tree \<and> visible tree' = {x \<in> visible tree. key x \<noteq> key d} \<and>
       ret = (if absent key d (bs_root tree) then -1 else 0))"
proof
  have t: "avl (bs_root tree)" "bst_by key (bs_root tree)" "bs_compare tree = Some cmp"
    using ok by (auto simp: bis_ok_def)
  show "(\<exists>x\<in>visible tree. key x = key d \<and> bistree_lookup tree d = Some (0, x)) \<or>
      (\<forall>x\<in>visible tree. key x \<noteq> key d) \<and> bistree_lookup tree d = Some (-1, d)"
    using comparator.lookup_avl_spec [OF cb t(2), of d] t(3)
    by (cases "bs_root tree = Leaf") (auto simp: bistree_lookup_def visible_def)
  obtain ret t' where h: "hide cmp d (bs_root tree) = (ret, t')"
    by fastforce
  have run: "bistree_remove tree d = Some (ret, tree\<lparr>bs_root := t'\<rparr>)"
    using h t(3) by (cases "bs_root tree = Leaf") (auto simp: bistree_remove_def)
  have s: "avl t'" "bst_by key t'" "size t' = size (bs_root tree)"
    using comparator.hide_shape [OF cb h] comparator.hide_bst [OF cb t(2) h] t(1) by auto
  have i: "items t' = comparator.hide_key key d ` items (bs_root tree)"
    "ret = (if absent key d (bs_root tree) then -1 else 0)"
    using comparator.hide_items [OF cb t(2) h] by auto
  have "visible (tree\<lparr>bs_root := t'\<rparr>) = {x \<in> visible tree. key x \<noteq> key d}"
    unfolding visible_def by (auto simp: i(1) comparator.hide_key_def [OF cb] image_iff split: if_splits)
  then show "\<exists>ret tree'. bistree_remove tree d = Some (ret, tree') \<and> bis_ok cmp key tree' \<and>
       bs_size tree' = bs_size tree \<and> visible tree' = {x \<in> visible tree. key x \<noteq> key d} \<and>
       ret = (if absent key d (bs_root tree) then -1 else 0)"
    using run s i(2) ok by (auto simp: bis_ok_def)
qed


text \<open>
  \<^verbatim>\<open>bistree_destroy\<close> ends, calls \<^verbatim>\<open>destroy\<close> once on the datum of every node (hidden ones
  included), children before their parent, and leaves a zeroed header.
\<close>

theorem bistree_destroy_all:
  assumes "bis_ok cmp key tree"
  shows "bistree_destroy tree =
    Some (\<lparr>bs_size = 0, bs_compare = None, bs_destroy = Null, bs_root = Leaf\<rparr>,
          avl_calls (bs_destroy tree) (bs_root tree))"
  using assms by (simp add: bistree_destroy_def bis_ok_def destroy_sub_all)

section \<open>Instances\<close>

text \<open>Three strings inserted in ascending order: the last insertion rotates.\<close>

definition ex_bis0 :: "string BisTree" where
  "ex_bis0 = bistree_init \<lparr>bs_size = 0, bs_compare = None, bs_destroy = Null, bs_root = Leaf\<rparr> compare_str (Ptr 3)"

definition ex_bis :: "string BisTree" where
  "ex_bis = ex_bis0\<lparr>bs_size := 2,
     bs_root := Node Leaf \<lparr>av_data = ''a'', av_hidden = 0, av_factor = -1\<rparr>
       (Node Leaf \<lparr>av_data = ''b'', av_hidden = 1, av_factor = 0\<rparr> Leaf)\<rparr>"

lemma ex_bis_ok: "bis_ok compare_str c_prefix ex_bis"
  by (simp add: bis_ok_def ex_bis_def ex_bis0_def bistree_init_def INT_MAX_def NUL_def less_char_def)

lemma ex_bis_facts:
  "visible ex_bis = {''a''}" "absent c_prefix ''c'' (bs_root ex_bis)" "\<not> absent c_prefix ''b'' (bs_root ex_bis)"
  "bs_size ex_bis = 2"
  by (auto simp: visible_def absent_def ex_bis_def NUL_def)

theorem bistree_insert_correct_witness:
  "\<exists>tree' calls. bistree_insert ex_bis (True, True) ''c'' = Some (0, tree', calls) \<and>
     bis_ok compare_str c_prefix tree' \<and> visible tree' = {''c'', ''a''} \<and> bs_size tree' = 3"
proof -
  have "\<not> (\<exists>x\<in>visible ex_bis. c_prefix x = c_prefix ''c'')" "bs_size ex_bis < INT_MAX"
    by (simp_all add: ex_bis_facts NUL_def INT_MAX_def)
  then show ?thesis
    using bistree_insert_correct [OF cmpstr.comparator_axioms ex_bis_ok, of "(True, True)" "''c''"]
    by (simp only: if_False ex_bis_facts if_True fst_conv snd_conv simp_thms) fastforce
qed

theorem bistree_lookup_remove_correct_witness:
  "bistree_lookup ex_bis ''a'' = Some (0, ''a'') \<and> bistree_lookup ex_bis ''b'' = Some (-1, ''b'') \<and>
   (\<exists>tree'. bistree_remove ex_bis ''b'' = Some (0, tree') \<and> visible tree' = {''a''})"
proof -
  have "bistree_lookup ex_bis ''a'' = Some (0, ''a'')"
    using bistree_lookup_remove_correct [OF cmpstr.comparator_axioms ex_bis_ok, of "''a''"]
    by (simp add: ex_bis_facts)
  moreover have "c_prefix ''a'' \<noteq> c_prefix ''b''"
    by (simp add: NUL_def)
  then have "bistree_lookup ex_bis ''b'' = Some (-1, ''b'')"
    "\<exists>tree'. bistree_remove ex_bis ''b'' = Some (0, tree') \<and> visible tree' = {''a''}"
    using bistree_lookup_remove_correct [OF cmpstr.comparator_axioms ex_bis_ok, of "''b''"]
    by (auto simp: ex_bis_facts simp del: takeWhile.simps)
  ultimately show ?thesis by blast
qed


theorem bistree_destroy_all_witness:
  "map_option snd (bistree_destroy ex_bis) = Some [(3, ''b''), (3, ''a'')]"
  using bistree_destroy_all [OF ex_bis_ok]
  by (simp add: ex_bis_def ex_bis0_def bistree_init_def destroy_call_def)

end
