(* ===== verification/Czmq.thy ===== *)
theory Czmq
  imports C_Strings "HOL-Library.Word" "HOL-Library.AList"
begin

text \<open>
  The containers of the CZMQ library that the programs under \<^verbatim>\<open>lib/zeromq\<close> use. CZMQ is not
  part of the repository: each container has an abstract type, its calls are the fields of a
  record that is a parameter of the models, and a predicate states what the manual promises.
  A frame is represented by the bytes that \<^verbatim>\<open>zframe_data\<close> and \<^verbatim>\<open>zframe_size\<close> give.
\<close>

type_synonym byte = "8 word"

text \<open>The bytes of a C string.\<close>

definition c_bytes :: "byte list \<Rightarrow> byte list" where
  "c_bytes s = takeWhile (\<lambda>b. b \<noteq> 0) s"

definition bytes :: "string \<Rightarrow> byte list" where
  "bytes s = map of_char s"

text \<open>
  \<^verbatim>\<open>zmalloc\<close> gives zeroed memory and ends the program when there is none; the contents are the
  zeroes and what the caller stores at once.
\<close>

definition zmalloc :: "'a \<Rightarrow> 'a mem \<Rightarrow> (ptr \<times> 'a mem) option" where
  "zmalloc v m = (case malloc v m of (Null, _) \<Rightarrow> None | (p, m1) \<Rightarrow> Some (p, m1))"

lemma zmalloc_live:
  assumes "fails m = (\<lambda>_. False)" and "mem_wf m"
  shows "\<exists>p m'. zmalloc v m = Some (p, m') \<and> p \<noteq> Null \<and> load m p = None \<and> load m' = (load m)(p := Some v) \<and>
    fails m' = (\<lambda>_. False) \<and> mem_wf m'"
  using malloc_live [of m v] assms by (auto simp: zmalloc_def split: ptr.splits)

section \<open>Hash tables\<close>

text \<open>
  \<open>zh_items\<close> are the items in the order in which \<^verbatim>\<open>zhash_foreach\<close> visits them. \<open>zh_insert\<close>
  leaves an item that is there already. Keys are C strings.
\<close>

record ('v, 'h) zhash_api =
  zh_new :: 'h
  zh_update :: "byte list \<Rightarrow> 'v \<Rightarrow> 'h \<Rightarrow> 'h"
  zh_insert :: "byte list \<Rightarrow> 'v \<Rightarrow> 'h \<Rightarrow> 'h"
  zh_delete :: "byte list \<Rightarrow> 'h \<Rightarrow> 'h"
  zh_lookup :: "'h \<Rightarrow> byte list \<Rightarrow> 'v option"
  zh_items :: "'h \<Rightarrow> (byte list \<times> 'v) list"

definition zhash_laws :: "('v, 'h) zhash_api \<Rightarrow> bool" where
  "zhash_laws zh \<longleftrightarrow> zh_items zh (zh_new zh) = [] \<and>
     (\<forall>h. distinct (map fst (zh_items zh h))) \<and>
     (\<forall>k v h. map_of (zh_items zh (zh_update zh k v h)) = (map_of (zh_items zh h))(k \<mapsto> v)) \<and>
     (\<forall>k v h. map_of (zh_items zh (zh_insert zh k v h)) =
        (if map_of (zh_items zh h) k = None then (map_of (zh_items zh h))(k \<mapsto> v) else map_of (zh_items zh h))) \<and>
     (\<forall>k h. map_of (zh_items zh (zh_delete zh k h)) = (map_of (zh_items zh h))(k := None)) \<and>
     (\<forall>h. zh_lookup zh h = map_of (zh_items zh h))"

lemma zhash_facts:
  assumes "zhash_laws zh"
  shows zhash_new: "zh_items zh (zh_new zh) = []"
    and zhash_distinct: "distinct (map fst (zh_items zh h))"
    and zhash_update: "map_of (zh_items zh (zh_update zh k v h)) = (map_of (zh_items zh h))(k \<mapsto> v)"
    and zhash_insert: "map_of (zh_items zh (zh_insert zh k v h)) =
      (if map_of (zh_items zh h) k = None then (map_of (zh_items zh h))(k \<mapsto> v) else map_of (zh_items zh h))"
    and zhash_delete: "map_of (zh_items zh (zh_delete zh k h)) = (map_of (zh_items zh h))(k := None)"
    and zhash_lookup: "zh_lookup zh h = map_of (zh_items zh h)"
  using assms unfolding zhash_laws_def by blast+

lemma zhash_simps [simp]:
  assumes "zhash_laws zh"
  shows "zh_items zh (zh_new zh) = []" "distinct (map fst (zh_items zh h))"
    "zh_lookup zh (zh_new zh) k = None"
    "zh_lookup zh (zh_insert zh k v h) = (if zh_lookup zh h k = None then (zh_lookup zh h)(k \<mapsto> v) else zh_lookup zh h)"
    "zh_lookup zh (zh_delete zh k h) = (zh_lookup zh h)(k := None)"
  unfolding zhash_lookup [OF assms] zhash_insert [OF assms] zhash_delete [OF assms] zhash_new [OF assms]
  by (rule refl zhash_distinct [OF assms] | simp)+

lemma zhash_items_lookup: "zhash_laws zh \<Longrightarrow> (k, v) \<in> set (zh_items zh h) \<longleftrightarrow> zh_lookup zh h k = Some v"
  by (simp add: zhash_lookup)

section \<open>Lists\<close>

text \<open>
  \<open>zl_items\<close> are the items in the order in which \<^verbatim>\<open>zlist_first\<close> and \<^verbatim>\<open>zlist_next\<close> visit them.
  \<^verbatim>\<open>zlist_remove\<close> removes the first occurrence, if there is one.
\<close>

record ('a, 'l) zlist_api =
  zl_new :: 'l
  zl_append :: "'a \<Rightarrow> 'l \<Rightarrow> 'l"
  zl_pop :: "'l \<Rightarrow> 'a option \<times> 'l"
  zl_remove :: "'a \<Rightarrow> 'l \<Rightarrow> 'l"
  zl_first :: "'l \<Rightarrow> 'a option"
  zl_size :: "'l \<Rightarrow> nat"
  zl_items :: "'l \<Rightarrow> 'a list"

definition zlist_laws :: "('a, 'l) zlist_api \<Rightarrow> bool" where
  "zlist_laws zl \<longleftrightarrow> zl_items zl (zl_new zl) = [] \<and>
     (\<forall>x l. zl_items zl (zl_append zl x l) = zl_items zl l @ [x]) \<and>
     (\<forall>l. fst (zl_pop zl l) = (if zl_items zl l = [] then None else Some (hd (zl_items zl l)))) \<and>
     (\<forall>l. zl_items zl (snd (zl_pop zl l)) = tl (zl_items zl l)) \<and>
     (\<forall>x l. zl_items zl (zl_remove zl x l) = remove1 x (zl_items zl l)) \<and>
     (\<forall>l. zl_first zl l = (if zl_items zl l = [] then None else Some (hd (zl_items zl l)))) \<and>
     (\<forall>l. zl_size zl l = length (zl_items zl l))"

lemma zlist_simps [simp]:
  assumes "zlist_laws zl"
  shows "zl_items zl (zl_new zl) = []" "zl_items zl (zl_append zl x l) = zl_items zl l @ [x]"
    "fst (zl_pop zl l) = (if zl_items zl l = [] then None else Some (hd (zl_items zl l)))"
    "zl_items zl (snd (zl_pop zl l)) = tl (zl_items zl l)"
    "zl_items zl (zl_remove zl x l) = remove1 x (zl_items zl l)"
    "zl_first zl l = (if zl_items zl l = [] then None else Some (hd (zl_items zl l)))"
    "zl_size zl l = length (zl_items zl l)"
  using assms unfolding zlist_laws_def by blast+

section \<open>Messages\<close>

text \<open>
  \<open>zg_frames\<close> are the frames of a message. \<^verbatim>\<open>zmsg_push\<close>, \<^verbatim>\<open>zmsg_pushstr\<close> and \<^verbatim>\<open>zmsg_prepend\<close> put a
  frame in front, \<^verbatim>\<open>zmsg_wrap\<close> a frame and an empty frame; \<^verbatim>\<open>zmsg_unwrap\<close> takes the first frame
  and an empty frame after it off. \<open>zg_reset_last\<close> is \<^verbatim>\<open>zframe_reset\<close> of \<^verbatim>\<open>zmsg_last\<close>.
  \<open>zf_strhex\<close> is \<^verbatim>\<open>zframe_strhex\<close>, which gives different strings for different frames.
\<close>

record 'm zmsg_api =
  zg_new :: 'm
  zg_push :: "byte list \<Rightarrow> 'm \<Rightarrow> 'm"
  zg_pop :: "'m \<Rightarrow> byte list option \<times> 'm"
  zg_wrap :: "byte list \<Rightarrow> 'm \<Rightarrow> 'm"
  zg_unwrap :: "'m \<Rightarrow> byte list option \<times> 'm"
  zg_reset_last :: "byte list \<Rightarrow> 'm \<Rightarrow> 'm"
  zg_last :: "'m \<Rightarrow> byte list option"
  zg_dup :: "'m \<Rightarrow> 'm"
  zg_size :: "'m \<Rightarrow> nat"
  zg_frames :: "'m \<Rightarrow> byte list list"
  zf_strhex :: "byte list \<Rightarrow> byte list"

fun unwrapped :: "byte list list \<Rightarrow> byte list list" where
  "unwrapped (f # e # fs) = (if e = [] then fs else e # fs)"
| "unwrapped fs = tl fs"

definition zmsg_laws :: "'m zmsg_api \<Rightarrow> bool" where
  "zmsg_laws zg \<longleftrightarrow> zg_frames zg (zg_new zg) = [] \<and>
     (\<forall>f m. zg_frames zg (zg_push zg f m) = f # zg_frames zg m) \<and>
     (\<forall>m. fst (zg_pop zg m) = (if zg_frames zg m = [] then None else Some (hd (zg_frames zg m)))) \<and>
     (\<forall>m. zg_frames zg (snd (zg_pop zg m)) = tl (zg_frames zg m)) \<and>
     (\<forall>f m. zg_frames zg (zg_wrap zg f m) = f # [] # zg_frames zg m) \<and>
     (\<forall>m. fst (zg_unwrap zg m) = (if zg_frames zg m = [] then None else Some (hd (zg_frames zg m)))) \<and>
     (\<forall>m. zg_frames zg (snd (zg_unwrap zg m)) = unwrapped (zg_frames zg m)) \<and>
     (\<forall>f m. zg_frames zg m \<noteq> [] \<longrightarrow> zg_frames zg (zg_reset_last zg f m) = butlast (zg_frames zg m) @ [f]) \<and>
     (\<forall>m. zg_last zg m = (if zg_frames zg m = [] then None else Some (last (zg_frames zg m)))) \<and>
     (\<forall>m. zg_frames zg (zg_dup zg m) = zg_frames zg m) \<and>
     (\<forall>m. zg_size zg m = length (zg_frames zg m)) \<and> inj (zf_strhex zg)"

lemma zmsg_simps [simp]:
  assumes "zmsg_laws zg"
  shows "zg_frames zg (zg_new zg) = []" "zg_frames zg (zg_push zg f m) = f # zg_frames zg m"
    "fst (zg_pop zg m) = (if zg_frames zg m = [] then None else Some (hd (zg_frames zg m)))"
    "zg_frames zg (snd (zg_pop zg m)) = tl (zg_frames zg m)"
    "zg_frames zg (zg_wrap zg f m) = f # [] # zg_frames zg m"
    "fst (zg_unwrap zg m) = (if zg_frames zg m = [] then None else Some (hd (zg_frames zg m)))"
    "zg_frames zg (snd (zg_unwrap zg m)) = unwrapped (zg_frames zg m)"
    "zg_frames zg m \<noteq> [] \<Longrightarrow> zg_frames zg (zg_reset_last zg f m) = butlast (zg_frames zg m) @ [f]"
    "zg_last zg m = (if zg_frames zg m = [] then None else Some (last (zg_frames zg m)))"
    "zg_frames zg (zg_dup zg m) = zg_frames zg m" "zg_size zg m = length (zg_frames zg m)"
    "zf_strhex zg f = zf_strhex zg g \<longleftrightarrow> f = g"
  using assms unfolding zmsg_laws_def inj_def by blast+

section \<open>Instances\<close>

text \<open>Association lists, lists and lists of frames satisfy the laws.\<close>

definition ex_zhash :: "('v, (byte list \<times> 'v) list) zhash_api" where
  "ex_zhash = \<lparr>zh_new = [], zh_update = (\<lambda>k v h. (k, v) # h),
     zh_insert = (\<lambda>k v h. if map_of h k = None then (k, v) # h else h), zh_delete = AList.delete,
     zh_lookup = map_of, zh_items = AList.clearjunk\<rparr>"

lemma ex_zhash_laws: "zhash_laws ex_zhash"
  by (simp add: zhash_laws_def ex_zhash_def distinct_clearjunk map_of_clearjunk delete_conv')

definition ex_zlist :: "('a, 'a list) zlist_api" where
  "ex_zlist = \<lparr>zl_new = [], zl_append = (\<lambda>x l. l @ [x]),
     zl_pop = (\<lambda>l. (case l of [] \<Rightarrow> (None, []) | x # xs \<Rightarrow> (Some x, xs))), zl_remove = remove1,
     zl_first = (\<lambda>l. (case l of [] \<Rightarrow> None | x # _ \<Rightarrow> Some x)), zl_size = length, zl_items = id\<rparr>"

lemma ex_zlist_laws: "zlist_laws ex_zlist"
  by (auto simp: zlist_laws_def ex_zlist_def split: list.splits)

definition ex_zmsg :: "byte list list zmsg_api" where
  "ex_zmsg = \<lparr>zg_new = [], zg_push = (#),
     zg_pop = (\<lambda>m. (case m of [] \<Rightarrow> (None, []) | f # fs \<Rightarrow> (Some f, fs))),
     zg_wrap = (\<lambda>f m. f # [] # m), zg_unwrap = (\<lambda>m. (case m of [] \<Rightarrow> (None, []) | f # _ \<Rightarrow> (Some f, unwrapped m))),
     zg_reset_last = (\<lambda>f m. butlast m @ [f]),
     zg_last = (\<lambda>m. if m = [] then None else Some (last m)), zg_dup = id, zg_size = length, zg_frames = id, zf_strhex = id\<rparr>"

lemma ex_zmsg_laws: "zmsg_laws ex_zmsg"
  by (auto simp: zmsg_laws_def ex_zmsg_def split: list.splits)

end
