(* ===== verification/Kvmsg.thy ===== *)
theory Kvmsg
  imports Czmq
begin

text \<open>
  The key/value message of \<^verbatim>\<open>lib/zeromq/clone/kvsimple.c\<close>: three message frames (key, sequence
  number, body) and a cache of the key as a C string. ZeroMQ is not part of the repository: a
  frame has an abstract type, and the calls that make, copy and read frames are the fields of
  \<open>zmq_msg_api\<close>, a parameter of the operations. \<open>zmq_msg_laws\<close> states what their manual pages
  promise and the code relies on. A failed \<^verbatim>\<open>assert\<close> is \<^const>\<open>None\<close>.
\<close>

unbundle bit_operations_syntax

section \<open>The message library\<close>

text \<open>
  \<open>zm_make bs\<close> is \<^verbatim>\<open>zmq_msg_init_size(msg, n)\<close> followed by filling \<^verbatim>\<open>zmq_msg_data(msg)\<close> with the
  \<open>n\<close> bytes \<open>bs\<close>; \<open>zm_empty\<close> is \<^verbatim>\<open>zmq_msg_init\<close>; \<open>zm_copy\<close> is \<^verbatim>\<open>zmq_msg_copy\<close>; \<open>zm_data\<close> are the
  \<^verbatim>\<open>zmq_msg_size(msg)\<close> bytes at \<^verbatim>\<open>zmq_msg_data(msg)\<close>.
\<close>

record 'f zmq_msg_api =
  zm_make :: "byte list \<Rightarrow> 'f"
  zm_empty :: 'f
  zm_copy :: "'f \<Rightarrow> 'f"
  zm_data :: "'f \<Rightarrow> byte list"

definition zmq_msg_laws :: "'f zmq_msg_api \<Rightarrow> bool" where
  "zmq_msg_laws api \<longleftrightarrow> (\<forall>bs. zm_data api (zm_make api bs) = bs) \<and>
     zm_data api (zm_empty api) = [] \<and> (\<forall>f. zm_data api (zm_copy api f) = zm_data api f)"

section \<open>Data\<close>

definition KVMSG_KEY_MAX :: nat where "KVMSG_KEY_MAX = 255"

text \<open>
  \<^verbatim>\<open>present[i]\<close> and \<^verbatim>\<open>frame[i]\<close> together are an optional frame. \<open>km_cache\<close> are the
  characters of the array \<^verbatim>\<open>key\<close> before its terminating 0, none in a new message.
\<close>

record 'f kvmsg =
  km_key :: "'f option"
  km_seq :: "'f option"
  km_body :: "'f option"
  km_cache :: "byte list"

section \<open>Operations\<close>

definition seq_bytes :: "64 word \<Rightarrow> byte list" where
  "seq_bytes s =
     [ucast (drop_bit 56 s AND 255), ucast (drop_bit 48 s AND 255), ucast (drop_bit 40 s AND 255),
      ucast (drop_bit 32 s AND 255), ucast (drop_bit 24 s AND 255), ucast (drop_bit 16 s AND 255),
      ucast (drop_bit 8 s AND 255), ucast (s AND 255)]"

definition kvmsg_set_sequence :: "'f zmq_msg_api \<Rightarrow> 'f kvmsg \<Rightarrow> 64 word \<Rightarrow> 'f kvmsg" where
  "kvmsg_set_sequence api self sequence = self\<lparr>km_seq := Some (zm_make api (seq_bytes sequence))\<rparr>"

definition kvmsg_new :: "'f zmq_msg_api \<Rightarrow> 64 word \<Rightarrow> 'f kvmsg" where
  "kvmsg_new api sequence =
     kvmsg_set_sequence api \<lparr>km_key = None, km_seq = None, km_body = None, km_cache = []\<rparr> sequence"

text \<open>The sum of \<^verbatim>\<open>kvmsg_sequence\<close>, with the shift by 26 of the source.\<close>

definition seq_value :: "byte list \<Rightarrow> 64 word" where
  "seq_value source =
     push_bit 56 (ucast (source ! 0)) + push_bit 48 (ucast (source ! 1)) + push_bit 40 (ucast (source ! 2)) +
     push_bit 32 (ucast (source ! 3)) + push_bit 24 (ucast (source ! 4)) + push_bit 26 (ucast (source ! 5)) +
     push_bit 8 (ucast (source ! 6)) + ucast (source ! 7)"

definition kvmsg_sequence :: "'f zmq_msg_api \<Rightarrow> 'f kvmsg \<Rightarrow> 64 word option" where
  "kvmsg_sequence api self =
     (case km_seq self of
        Some f \<Rightarrow> if length (zm_data api f) = 8 then Some (seq_value (zm_data api f)) else None
      | None \<Rightarrow> Some 0)"

text \<open>
  \<^verbatim>\<open>kvmsg_free\<close>: the frames it passes to \<^verbatim>\<open>zmq_msg_close\<close>, in order. \<^verbatim>\<open>kvmsg_destroy\<close> also clears
  the pointer of its caller.
\<close>

definition kvmsg_free :: "'f kvmsg option \<Rightarrow> 'f list" where
  "kvmsg_free ptr = (case ptr of None \<Rightarrow> []
     | Some self \<Rightarrow> List.map_filter id [km_key self, km_seq self, km_body self])"

definition kvmsg_destroy :: "'f kvmsg option \<Rightarrow> 'f kvmsg option \<times> 'f list" where
  "kvmsg_destroy self_p = (None, kvmsg_free self_p)"

definition kvmsg_set_key :: "'f zmq_msg_api \<Rightarrow> 'f kvmsg \<Rightarrow> byte list \<Rightarrow> 'f kvmsg" where
  "kvmsg_set_key api self key = self\<lparr>km_key := Some (zm_make api (c_bytes key))\<rparr>"

text \<open>\<^verbatim>\<open>kvmsg_key\<close>: the returned C string (\<^const>\<open>None\<close> for NULL) and the message with its cache.\<close>

definition kvmsg_key :: "'f zmq_msg_api \<Rightarrow> 'f kvmsg \<Rightarrow> byte list option \<times> 'f kvmsg" where
  "kvmsg_key api self =
     (case km_key self of
        Some f \<Rightarrow>
          let self1 = (if c_bytes (km_cache self) = []
                       then self\<lparr>km_cache := take KVMSG_KEY_MAX (zm_data api f)\<rparr> else self)
          in (Some (c_bytes (km_cache self1)), self1)
      | None \<Rightarrow> (None, self))"

text \<open>
  \<^verbatim>\<open>vsnprintf(value, 255, ...)\<close> keeps at most 254 characters of the formatted text \<open>value\<close>.
\<close>

definition kvmsg_fmt_key :: "'f zmq_msg_api \<Rightarrow> 'f kvmsg \<Rightarrow> byte list \<Rightarrow> 'f kvmsg" where
  "kvmsg_fmt_key api self value = kvmsg_set_key api self (take (KVMSG_KEY_MAX - 1) value)"

definition kvmsg_body :: "'f zmq_msg_api \<Rightarrow> 'f kvmsg \<Rightarrow> byte list option" where
  "kvmsg_body api self = map_option (zm_data api) (km_body self)"

definition kvmsg_set_body :: "'f zmq_msg_api \<Rightarrow> 'f kvmsg \<Rightarrow> byte list \<Rightarrow> nat \<Rightarrow> 'f kvmsg option" where
  "kvmsg_set_body api self body sz =
     (if sz \<le> length body then Some (self\<lparr>km_body := Some (zm_make api (take sz body))\<rparr>) else None)"

definition kvmsg_fmt_body :: "'f zmq_msg_api \<Rightarrow> 'f kvmsg \<Rightarrow> byte list \<Rightarrow> 'f kvmsg option" where
  "kvmsg_fmt_body api self value =
     (let v = c_bytes (take 254 value) in kvmsg_set_body api self v (length v))"

definition kvmsg_size :: "'f zmq_msg_api \<Rightarrow> 'f kvmsg \<Rightarrow> nat" where
  "kvmsg_size api self = (case km_body self of Some f \<Rightarrow> length (zm_data api f) | None \<Rightarrow> 0)"

text \<open>
  \<^verbatim>\<open>kvmsg_send\<close> passes three frames to \<^verbatim>\<open>zmq_msg_send\<close>, the flag telling that more follow.
\<close>

definition kvmsg_send :: "'f zmq_msg_api \<Rightarrow> 'f kvmsg \<Rightarrow> ('f \<times> bool) list" where
  "kvmsg_send api self =
     (let copy = (\<lambda>f. case f of Some f \<Rightarrow> zm_copy api f | None \<Rightarrow> zm_empty api)
      in [(copy (km_key self), True), (copy (km_seq self), True), (copy (km_body self), False)])"

text \<open>
  \<^verbatim>\<open>kvmsg_recv\<close>, given what its calls of \<^verbatim>\<open>zmq_msg_recv\<close> deliver (a frame, or \<^const>\<open>None\<close> for the
  return value -1) and what \<^verbatim>\<open>zsocket_rcvmore\<close> says after each. The result is the message
  (\<^const>\<open>None\<close> for NULL).
\<close>

fun kvmsg_recv_loop :: "'f kvmsg \<Rightarrow> nat \<Rightarrow> ('f option \<times> bool) list \<Rightarrow> 'f kvmsg option" where
  "kvmsg_recv_loop self frame_nbr [] = None"
| "kvmsg_recv_loop self frame_nbr ((got, rcvmore) # input) =
     (case got of
        None \<Rightarrow> None
      | Some f \<Rightarrow>
          let self1 = (if frame_nbr = 0 then self\<lparr>km_key := Some f\<rparr>
                       else if frame_nbr = 1 then self\<lparr>km_seq := Some f\<rparr>
                       else self\<lparr>km_body := Some f\<rparr>)
          in if rcvmore \<noteq> (frame_nbr < 2) then None
             else if frame_nbr < 2 then kvmsg_recv_loop self1 (Suc frame_nbr) input
             else Some self1)"

definition kvmsg_recv :: "'f zmq_msg_api \<Rightarrow> ('f option \<times> bool) list \<Rightarrow> 'f kvmsg option" where
  "kvmsg_recv api input = kvmsg_recv_loop (kvmsg_new api 0) 0 input"

text \<open>
  \<^verbatim>\<open>kvmsg_store\<close> hands a message with key and body to the table. \<open>update\<close> is
  \<^verbatim>\<open>zhash_update\<close> followed by \<^verbatim>\<open>zhash_freefn\<close>.
\<close>

definition kvmsg_store ::
  "'f zmq_msg_api \<Rightarrow> (byte list \<Rightarrow> 'f kvmsg \<Rightarrow> 'h \<Rightarrow> 'h) \<Rightarrow> 'f kvmsg option \<Rightarrow> 'h \<Rightarrow> 'h" where
  "kvmsg_store api update self_p hash =
     (case self_p of
        None \<Rightarrow> hash
      | Some self \<Rightarrow>
          if km_key self \<noteq> None \<and> km_body self \<noteq> None
          then (case kvmsg_key api self of
                  (Some k, self1) \<Rightarrow> update k self1 hash
                | (None, _) \<Rightarrow> hash)
          else hash)"

text \<open>
  \<^verbatim>\<open>kvmsg_dump\<close>: what it writes to the standard error, and the message, whose key cache
  it may fill. Printing the key of a message without key is undefined (\<^verbatim>\<open>%s\<close> of NULL).
\<close>

definition hex_digit :: "nat \<Rightarrow> char" where
  "hex_digit d = (if d < 10 then char_of (48 + d) else char_of (55 + d))"

definition show_hex :: "byte \<Rightarrow> string" where
  "show_hex b = [hex_digit (unat b div 16), hex_digit (unat b mod 16)]"

definition kvmsg_dump :: "'f zmq_msg_api \<Rightarrow> 'f kvmsg option \<Rightarrow> (string \<times> 'f kvmsg option) option" where
  "kvmsg_dump api self_p =
     (case self_p of
        None \<Rightarrow> Some (''NULL message'' @ [NL], None)
      | Some self \<Rightarrow> do {
          seq \<leftarrow> kvmsg_sequence api self;
          let (k, self1) = kvmsg_key api self;
          key \<leftarrow> k;
          let body = (case kvmsg_body api self of Some b \<Rightarrow> b | None \<Rightarrow> []);
          Some (''[seq:'' @ show_int (sint seq) @ '']'' @ ''[key:'' @ map (char_of \<circ> unat) key @ '']'' @
                ''[size:'' @ show_int (int (kvmsg_size api self)) @ ''] '' @ concat (map show_hex body) @ [NL],
                Some self1)
        })"

section \<open>Sequence numbers\<close>

lemma div_mod_256: "(u :: int) div 2 ^ k mod 256 * 2 ^ k = u mod 2 ^ (k + 8) - u mod 2 ^ k"
proof -
  have "u mod (2 ^ k * 256) = 2 ^ k * (u div 2 ^ k mod 256) + u mod 2 ^ k"
    by (rule zmod_zmult2_eq) simp
  then show ?thesis
    by (simp add: power_add mult.commute)
qed

lemma mask8: "x AND 255 = take_bit 8 (x :: 64 word)"
proof -
  have "(255 :: 64 word) = mask 8"
    by (simp add: mask_numeral)
  then show ?thesis
    by (simp add: take_bit_eq_mask)
qed

lemma uint_byte: "uint (drop_bit k s AND 255 :: 64 word) = uint s div 2 ^ k mod 256"
proof -
  have "uint s mod 18446744073709551616 = uint s"
    using uint_bounded [of s] by simp
  then show ?thesis
    unfolding mask8 unsigned_take_bit_eq unsigned_drop_bit_eq
    by (simp add: take_bit_eq_mod drop_bit_eq_div)
qed

lemma byte_back: "(ucast (ucast (x AND 255 :: 64 word) :: byte) :: 64 word) = x AND 255"
  unfolding mask8 by (rule bit_word_eqI) (auto simp: bit_simps)

lemma push_byte:
  "push_bit n (ucast (ucast (drop_bit k s AND 255 :: 64 word) :: byte) :: 64 word) =
   of_int (uint s div 2 ^ k mod 256 * 2 ^ n)"
proof -
  have "push_bit n x = of_int (uint x * 2 ^ n)" for x :: "64 word"
    by (simp add: push_bit_eq_mult)
  then show ?thesis
    by (simp only: byte_back uint_byte)
qed

text \<open>What \<^verbatim>\<open>kvmsg_sequence\<close> makes of the bytes that \<^verbatim>\<open>kvmsg_set_sequence\<close> writes.\<close>

definition seq_decoded :: "int \<Rightarrow> int" where
  "seq_decoded u = u + u div 65536 mod 256 * 67043328"

lemma seq_value_bytes: "seq_value (seq_bytes s) = of_int (seq_decoded (uint s))"
proof -
  let ?u = "uint s"
  have lt: "?u mod 2 ^ 64 = ?u"
    using uint_bounded [of s] by simp
  have sum: "?u = (\<Sum>k\<leftarrow>[0, 8, 16, 24, 32, 40, 48, 56]. ?u div 2 ^ k mod 256 * 2 ^ k)"
    unfolding div_mod_256 using lt by simp
  have val: "seq_value (seq_bytes s) = of_int (?u div 2 ^ 56 mod 256 * 2 ^ 56) +
      of_int (?u div 2 ^ 48 mod 256 * 2 ^ 48) + of_int (?u div 2 ^ 40 mod 256 * 2 ^ 40) +
      of_int (?u div 2 ^ 32 mod 256 * 2 ^ 32) + of_int (?u div 2 ^ 24 mod 256 * 2 ^ 24) +
      of_int (?u div 2 ^ 16 mod 256 * 2 ^ 26) + of_int (?u div 2 ^ 8 mod 256 * 2 ^ 8) +
      of_int (?u div 2 ^ 0 mod 256 * 2 ^ 0)"
    using push_byte [of 56 56 s] push_byte [of 48 48 s] push_byte [of 40 40 s] push_byte [of 32 32 s]
      push_byte [of 24 24 s] push_byte [of 26 16 s] push_byte [of 8 8 s] push_byte [of 0 0 s]
    by (simp only: seq_value_def seq_bytes_def nth_Cons_0 nth_Cons_numeral) simp
  have "?u div 2 ^ 56 mod 256 * 2 ^ 56 + ?u div 2 ^ 48 mod 256 * 2 ^ 48 + ?u div 2 ^ 40 mod 256 * 2 ^ 40 +
      ?u div 2 ^ 32 mod 256 * 2 ^ 32 + ?u div 2 ^ 24 mod 256 * 2 ^ 24 + ?u div 2 ^ 16 mod 256 * 2 ^ 26 +
      ?u div 2 ^ 8 mod 256 * 2 ^ 8 + ?u div 2 ^ 0 mod 256 * 2 ^ 0 = seq_decoded ?u"
    using sum unfolding seq_decoded_def by simp
  then show ?thesis
    unfolding val of_int_add [symmetric] by (rule arg_cong)
qed

lemma seq_decoded_0: "0 \<le> u \<Longrightarrow> u < 65536 \<Longrightarrow> seq_decoded u = u"
  by (simp add: seq_decoded_def)

lemma seq_decoded_split: "seq_decoded u = u div 16777216 * 16777216 + u div 65536 mod 256 * 67108864 + u mod 65536"
proof -
  have "u div 65536 div 256 = u div 16777216"
    by (simp flip: zdiv_zmult2_eq)
  moreover have "u = u div 65536 * 65536 + u mod 65536"
    "u div 65536 = u div 65536 div 256 * 256 + u div 65536 mod 256"
    by simp_all
  ultimately show ?thesis
    unfolding seq_decoded_def by linarith
qed

lemma seq_decoded_mono:
  assumes "0 \<le> u" and "u < v" and "v < 16777216"
  shows "seq_decoded u < seq_decoded v"
proof -
  have "u div 65536 \<le> v div 65536"
    using assms by (intro zdiv_mono1) auto
  moreover have "u div 65536 mod 256 = u div 65536" "v div 65536 mod 256 = v div 65536"
    using assms by auto
  ultimately show ?thesis
    using assms unfolding seq_decoded_def by linarith
qed

lemma kvmsg_sequence_set:
  assumes "zmq_msg_laws api"
  shows "kvmsg_sequence api (kvmsg_set_sequence api self s) = Some (of_int (seq_decoded (uint s)))"
proof -
  have "length (seq_bytes s) = 8"
    by (simp add: seq_bytes_def)
  then show ?thesis
    using assms by (simp add: kvmsg_sequence_def kvmsg_set_sequence_def zmq_msg_laws_def seq_value_bytes)
qed

lemma seq_decoded_small:
  assumes "uint (s :: 64 word) < 16777216"
  shows "uint (of_int (seq_decoded (uint s)) :: 64 word) = seq_decoded (uint s)"
proof -
  have "seq_decoded (uint s) < seq_decoded 16777215 + 1"
    using seq_decoded_mono [of "uint s" 16777215] assms by (cases "uint s = 16777215") auto
  moreover have "seq_decoded 16777215 < 2 ^ 60"
    by (simp add: seq_decoded_def)
  moreover have "0 \<le> seq_decoded (uint s)"
    unfolding seq_decoded_def by (intro add_nonneg_nonneg mult_nonneg_nonneg) auto
  ultimately show ?thesis
    by (simp add: unsigned_of_int take_bit_int_eq_self)
qed

lemma seq_decoded_exact:
  "of_int (seq_decoded (uint s)) = (s :: 64 word) \<longleftrightarrow> uint s div 65536 mod 256 = 0"
proof -
  let ?d = "uint s div 65536 mod 256"
  have r: "0 \<le> ?d" "?d < 256"
    by simp_all
  have "of_int (seq_decoded (uint s)) = s + (of_int (?d * 67043328) :: 64 word)"
    by (simp add: seq_decoded_def)
  then have "of_int (seq_decoded (uint s)) = s \<longleftrightarrow> (of_int (?d * 67043328) :: 64 word) = 0"
    by (simp only: add_cancel_right_right eq_commute)
  also have "(of_int i :: 64 word) = 0 \<longleftrightarrow> take_bit 64 i = 0" for i :: int
    by (simp add: word_of_int_eq_0_iff take_bit_eq_mod dvd_eq_mod_eq_0)
  also have "take_bit 64 (?d * 67043328) = ?d * 67043328"
    using r by (intro take_bit_int_eq_self) auto
  finally show ?thesis
    by simp
qed

section \<open>Properties\<close>

text \<open>
  \<^verbatim>\<open>kvmsg_sequence\<close> does not invert \<^verbatim>\<open>kvmsg_set_sequence\<close>: the byte of bits 16 to 23 comes back
  shifted by 26. A sequence number survives exactly when that byte is 0. Below 2 to the 24
  the decoded numbers still grow with the sequence numbers.
\<close>

theorem kvmsg_sequence_roundtrip:
  assumes "zmq_msg_laws api"
  shows "kvmsg_sequence api (kvmsg_new api s) = Some (of_int (seq_decoded (uint s))) \<and>
    (kvmsg_sequence api (kvmsg_new api s) = Some s \<longleftrightarrow> uint s div 65536 mod 256 = 0) \<and>
    (\<forall>t. uint s < uint t \<and> uint t < 2 ^ 24 \<longrightarrow>
       uint (the (kvmsg_sequence api (kvmsg_new api s))) < uint (the (kvmsg_sequence api (kvmsg_new api t))))"
  using kvmsg_sequence_set [OF assms] seq_decoded_exact [of s] seq_decoded_small seq_decoded_mono
  by (auto simp: kvmsg_new_def)

text \<open>
  C32: A message that is sent and received frame by frame keeps its key, its sequence frame and its
  body; frames that were missing arrive as empty ones.
\<close>

theorem kvmsg_send_recv_roundtrip:
  assumes laws: "zmq_msg_laws api"
  shows "\<exists>m'. kvmsg_recv api (map (\<lambda>(f, m). (Some f, m)) (kvmsg_send api m)) = Some m' \<and>
    (\<forall>sel\<in>{km_key, km_seq, km_body}. map_option (zm_data api) (sel m') =
       Some (case sel m of Some f \<Rightarrow> zm_data api f | None \<Rightarrow> [])) \<and>
    fst (kvmsg_key api m') = Some (c_bytes (take KVMSG_KEY_MAX
       (case km_key m of Some f \<Rightarrow> zm_data api f | None \<Rightarrow> []))) \<and>
    (km_seq m \<noteq> None \<longrightarrow> kvmsg_sequence api m' = kvmsg_sequence api m)"
  using laws
  by (auto simp: kvmsg_recv_def kvmsg_send_def kvmsg_new_def kvmsg_set_sequence_def Let_def zmq_msg_laws_def
      kvmsg_key_def kvmsg_sequence_def c_bytes_def split: option.splits)

text \<open>
  \<^verbatim>\<open>kvmsg_key\<close> returns the key that was set when it has not been called before, cut at 255
  characters; once it has returned a key that is not empty, a later \<^verbatim>\<open>kvmsg_set_key\<close> does
  not change what it returns, although the frame that is sent carries the new key.
\<close>

theorem kvmsg_key_is_cached:
  assumes laws: "zmq_msg_laws api"
  shows "(km_cache self = [] \<longrightarrow>
      fst (kvmsg_key api (kvmsg_set_key api self k)) = Some (take KVMSG_KEY_MAX (c_bytes k))) \<and>
    (fst (kvmsg_key api self) = Some k0 \<and> k0 \<noteq> [] \<longrightarrow>
      (let self2 = kvmsg_set_key api (snd (kvmsg_key api self)) k in
       fst (kvmsg_key api self2) = Some k0 \<and> map_option (zm_data api) (km_key self2) = Some (c_bytes k)))"
proof -
  have idem: "takeWhile (\<lambda>b. b \<noteq> 0) (take n (c_bytes k)) = take n (c_bytes k)" for n
    by (auto simp: takeWhile_eq_all_conv c_bytes_def dest!: in_set_takeD set_takeWhileD)
  show ?thesis
    using laws idem
    by (auto simp: kvmsg_key_def kvmsg_set_key_def Let_def zmq_msg_laws_def c_bytes_def [of "[]"]
        c_bytes_def [of "take _ _"] split: option.splits if_splits)
qed

section \<open>Instances\<close>

text \<open>Frames that are their bytes satisfy the laws.\<close>

definition ex_api :: "byte list zmq_msg_api" where
  "ex_api = \<lparr>zm_make = id, zm_empty = [], zm_copy = id, zm_data = id\<rparr>"

lemma ex_api_laws: "zmq_msg_laws ex_api"
  by (simp add: zmq_msg_laws_def ex_api_def)

theorem kvmsg_sequence_roundtrip_witness:
  "kvmsg_sequence ex_api (kvmsg_new ex_api 65535) = Some 65535 \<and>
   kvmsg_sequence ex_api (kvmsg_new ex_api 65536) = Some 67108864"
  using kvmsg_sequence_roundtrip [OF ex_api_laws, of 65535] kvmsg_sequence_roundtrip [OF ex_api_laws, of 65536]
  by (simp add: seq_decoded_def)

theorem kvmsg_send_recv_roundtrip_witness:
  "\<exists>m'. kvmsg_recv ex_api (map (\<lambda>(f, m). (Some f, m)) (kvmsg_send ex_api
      \<lparr>km_key = Some [107], km_seq = None, km_body = Some [1, 2], km_cache = []\<rparr>)) = Some m' \<and>
    fst (kvmsg_key ex_api m') = Some [107] \<and> km_body m' = Some [1, 2] \<and> km_seq m' = Some []"
  using kvmsg_send_recv_roundtrip [OF ex_api_laws,
      of "\<lparr>km_key = Some [107], km_seq = None, km_body = Some [1, 2], km_cache = []\<rparr>"]
  by (auto simp: ex_api_def c_bytes_def KVMSG_KEY_MAX_def)

theorem kvmsg_key_is_cached_witness:
  "let m1 = kvmsg_set_key ex_api (kvmsg_new ex_api 1) [97];
       m2 = kvmsg_set_key ex_api (snd (kvmsg_key ex_api m1)) [98]
   in fst (kvmsg_key ex_api m1) = Some [97] \<and> fst (kvmsg_key ex_api m2) = Some [97]"
proof -
  have c: "km_cache (kvmsg_new ex_api 1) = []"
    by (simp add: kvmsg_new_def kvmsg_set_sequence_def)
  have a: "fst (kvmsg_key ex_api (kvmsg_set_key ex_api (kvmsg_new ex_api 1) [97])) = Some [97]"
    using kvmsg_key_is_cached [OF ex_api_laws, of "kvmsg_new ex_api 1" "[97]"] c
    by (simp add: c_bytes_def KVMSG_KEY_MAX_def)
  then show ?thesis
    using kvmsg_key_is_cached [OF ex_api_laws, of "kvmsg_set_key ex_api (kvmsg_new ex_api 1) [97]" "[98]" "[97]"]
    by (simp add: Let_def)
qed

end
