(* ===== verification/Clone.thy ===== *)
theory Clone
  imports Kvmsg
begin

text \<open>
  The clone pattern of \<^verbatim>\<open>lib/zeromq/clone\<close>: the publisher and the state manager of
  \<^verbatim>\<open>clonesrv2.c\<close>, and the client of \<^verbatim>\<open>clonecli2.c\<close>, which takes a snapshot and then applies
  the updates that are newer. The hash table of CZMQ is a parameter that satisfies
  \<open>zhash_laws\<close>. Each socket is the sequence of what its receive
  calls deliver. \<^verbatim>\<open>errno = ETERM\<close>, \<^verbatim>\<open>itmes\<close> and \<^verbatim>\<open>kvsmg_set_body\<close> are read as the comparison and the
  names that are meant.
\<close>

section \<open>The server\<close>

text \<open>
  One turn of the loop of \<^verbatim>\<open>main\<close>: the new sequence number and the message that is sent to
  the publisher socket and to the state manager; \<open>key\<close> and \<open>body\<close> are the texts that
  \<^verbatim>\<open>randof\<close> and the format give.
\<close>

definition server_publish ::
  "'f zmq_msg_api \<Rightarrow> 64 word \<Rightarrow> byte list \<Rightarrow> byte list \<Rightarrow> (64 word \<times> 'f kvmsg) option" where
  "server_publish api sequence key body = do {
     let sequence = sequence + 1;
     let kvmsg = kvmsg_fmt_key api (kvmsg_new api sequence) key;
     kvmsg \<leftarrow> kvmsg_fmt_body api kvmsg body;
     Some (sequence, kvmsg)
   }"

record 'h state_mgr =
  sm_map :: 'h
  sm_sequence :: "64 word"

definition sm_init :: "('f kvmsg, 'h) zhash_api \<Rightarrow> 'h state_mgr" where
  "sm_init zh = \<lparr>sm_map = zh_new zh, sm_sequence = 0\<rparr>"

text \<open>
  The handler of \<^verbatim>\<open>pipe\<close>. \<open>Some None\<close> is the \<^verbatim>\<open>break\<close> on a failed receive.
\<close>

definition sm_pipe ::
  "'f zmq_msg_api \<Rightarrow> ('f kvmsg, 'h) zhash_api \<Rightarrow> 'f kvmsg option \<Rightarrow> 'h state_mgr \<Rightarrow> 'h state_mgr option option" where
  "sm_pipe api zh kvmsg sm =
     (case kvmsg of
        None \<Rightarrow> Some None
      | Some m \<Rightarrow> do {
          s \<leftarrow> kvmsg_sequence api m;
          Some (Some \<lparr>sm_map = kvmsg_store api (zh_update zh) (Some m) (sm_map sm), sm_sequence = s\<rparr>)
        })"

text \<open>The texts \<^verbatim>\<open>ICANHAZ?\<close> and \<^verbatim>\<open>KTHXBAI\<close>.\<close>

definition ICANHAZ :: "byte list" where
  "ICANHAZ = map of_char ''ICANHAZ?''"

definition KTHXBAI :: "byte list" where
  "KTHXBAI = map of_char ''KTHXBAI''"

text \<open>
  The handler of \<^verbatim>\<open>snapshot\<close>: the multipart messages it sends, each routed to \<open>identity\<close>, or
  \<^const>\<open>None\<close> for the \<^verbatim>\<open>break\<close> on a bad request.
\<close>

definition s_send_single :: "'f zmq_msg_api \<Rightarrow> 'f kvmsg \<Rightarrow> 'i \<Rightarrow> 'i \<times> ('f \<times> bool) list" where
  "s_send_single api m identity = (identity, kvmsg_send api m)"

definition sm_snapshot ::
  "'f zmq_msg_api \<Rightarrow> ('f kvmsg, 'h) zhash_api \<Rightarrow> 'i \<Rightarrow> byte list \<Rightarrow> 'h state_mgr
   \<Rightarrow> ('i \<times> ('f \<times> bool) list) list option option" where
  "sm_snapshot api zh identity request sm =
     (if request \<noteq> ICANHAZ then Some None
      else do {
        let kvmsg = kvmsg_set_key api (kvmsg_new api (sm_sequence sm)) KTHXBAI;
        kvmsg \<leftarrow> kvmsg_set_body api kvmsg [] 0;
        Some (Some (map (\<lambda>(_, m). s_send_single api m identity) (zh_items zh (sm_map sm)) @
                    [(identity, kvmsg_send api kvmsg)]))
      })"

section \<open>The client\<close>

text \<open>
  The two loops of \<^verbatim>\<open>main\<close> in \<^verbatim>\<open>clonecli2.c\<close> on what \<^verbatim>\<open>kvmsg_recv\<close> returns turn by turn; the end of
  the input, like NULL, ends a loop. Comparing the key of a message without key is undefined.
\<close>

fun client_snapshot ::
  "'f zmq_msg_api \<Rightarrow> ('f kvmsg, 'h) zhash_api \<Rightarrow> 64 word \<Rightarrow> 'h \<Rightarrow> 'f kvmsg option list \<Rightarrow> ('h \<times> 64 word) option" where
  "client_snapshot api zh sequence kvmap [] = Some (kvmap, sequence)"
| "client_snapshot api zh sequence kvmap (None # _) = Some (kvmap, sequence)"
| "client_snapshot api zh sequence kvmap (Some m # ms) =
     (case kvmsg_key api m of
        (None, _) \<Rightarrow> None
      | (Some k, m1) \<Rightarrow>
          if k = KTHXBAI then do { s \<leftarrow> kvmsg_sequence api m1; Some (kvmap, s) }
          else client_snapshot api zh sequence (kvmsg_store api (zh_update zh) (Some m1) kvmap) ms)"

fun client_updates ::
  "'f zmq_msg_api \<Rightarrow> ('f kvmsg, 'h) zhash_api \<Rightarrow> 64 word \<Rightarrow> 'h \<Rightarrow> 'f kvmsg option list \<Rightarrow> ('h \<times> 64 word) option" where
  "client_updates api zh sequence kvmap [] = Some (kvmap, sequence)"
| "client_updates api zh sequence kvmap (None # _) = Some (kvmap, sequence)"
| "client_updates api zh sequence kvmap (Some m # ms) = do {
     s \<leftarrow> kvmsg_sequence api m;
     if sint s > sint sequence
     then client_updates api zh s (kvmsg_store api (zh_update zh) (Some m) kvmap) ms
     else client_updates api zh sequence kvmap ms
   }"

definition client_main ::
  "'f zmq_msg_api \<Rightarrow> ('f kvmsg, 'h) zhash_api \<Rightarrow> 'f kvmsg option list \<Rightarrow> 'f kvmsg option list
   \<Rightarrow> ('h \<times> 64 word) option" where
  "client_main api zh snapshot subscriber = do {
     (kvmap, sequence) \<leftarrow> client_snapshot api zh 0 (zh_new zh) snapshot;
     client_updates api zh sequence kvmap subscriber
   }"

section \<open>The first version of the pattern\<close>

text \<open>
  The loops of \<^verbatim>\<open>clonesrv1.c\<close>, which sends every update and stores it, on the texts of the
  updates, and of \<^verbatim>\<open>clonecli1.c\<close>, which stores what it receives and counts it.
\<close>

fun server1_run ::
  "'f zmq_msg_api \<Rightarrow> ('f kvmsg, 'h) zhash_api \<Rightarrow> 64 word \<Rightarrow> 'h \<Rightarrow> (byte list \<times> byte list) list
   \<Rightarrow> (('f \<times> bool) list list \<times> 'h \<times> 64 word) option" where
  "server1_run api zh sequence kvmap [] = Some ([], kvmap, sequence)"
| "server1_run api zh sequence kvmap ((key, body) # us) = do {
     let sequence = sequence + 1;
     let kvmsg = kvmsg_fmt_key api (kvmsg_new api sequence) key;
     kvmsg \<leftarrow> kvmsg_fmt_body api kvmsg body;
     let sent = kvmsg_send api kvmsg;
     let kvmap = kvmsg_store api (zh_update zh) (Some kvmsg) kvmap;
     (out, kvmap, sequence) \<leftarrow> server1_run api zh sequence kvmap us;
     Some (sent # out, kvmap, sequence)
   }"

fun client1_run ::
  "'f zmq_msg_api \<Rightarrow> ('f kvmsg, 'h) zhash_api \<Rightarrow> 64 word \<Rightarrow> 'h \<Rightarrow> 'f kvmsg option list \<Rightarrow> 'h \<times> 64 word" where
  "client1_run api zh sequence kvmap [] = (kvmap, sequence)"
| "client1_run api zh sequence kvmap (None # _) = (kvmap, sequence)"
| "client1_run api zh sequence kvmap (Some m # ms) =
     client1_run api zh (sequence + 1) (kvmsg_store api (zh_update zh) (Some m) kvmap) ms"

section \<open>What a message carries\<close>

text \<open>What \<^verbatim>\<open>kvmsg_recv\<close> returns for the frames of one \<^verbatim>\<open>kvmsg_send\<close>.\<close>

definition delivered :: "'f zmq_msg_api \<Rightarrow> ('f \<times> bool) list \<Rightarrow> 'f kvmsg option" where
  "delivered api frames = kvmsg_recv api (map (\<lambda>(f, m). (Some f, m)) frames)"

definition carries :: "'f zmq_msg_api \<Rightarrow> 'f kvmsg \<Rightarrow> 64 word \<Rightarrow> byte list \<Rightarrow> byte list \<Rightarrow> bool" where
  "carries api m s k b \<longleftrightarrow> kvmsg_sequence api m = Some s \<and>
     (\<exists>f. km_key m = Some f \<and> zm_data api f = k) \<and> (\<exists>f. km_body m = Some f \<and> zm_data api f = b) \<and>
     km_seq m \<noteq> None \<and> c_bytes (km_cache m) \<in> {[], k}"

definition good_key :: "byte list \<Rightarrow> bool" where
  "good_key k \<longleftrightarrow> c_bytes k = k \<and> length k \<le> KVMSG_KEY_MAX \<and> k \<noteq> KTHXBAI"

lemma carries_delivered:
  assumes "zmq_msg_laws api" and "carries api m s k b"
  shows "\<exists>m'. delivered api (kvmsg_send api m) = Some m' \<and> carries api m' s k b"
  using assms
  by (auto simp: delivered_def carries_def kvmsg_recv_def kvmsg_send_def kvmsg_new_def Let_def
      kvmsg_set_sequence_def zmq_msg_laws_def kvmsg_sequence_def c_bytes_def split: option.splits if_splits)

lemma carries_key:
  assumes "carries api m s k b" and "c_bytes k = k" and "length k \<le> KVMSG_KEY_MAX"
  shows "\<exists>m1. kvmsg_key api m = (Some k, m1) \<and> carries api m1 s k b"
  using assms
  by (auto simp: kvmsg_key_def carries_def Let_def kvmsg_sequence_def c_bytes_def [of "[]"])

section \<open>Sequence numbers on the wire\<close>

text \<open>The number that \<^verbatim>\<open>kvmsg_sequence\<close> reads from the message with sequence number \<open>n\<close>.\<close>

definition dseq :: "nat \<Rightarrow> 64 word" where
  "dseq n = of_int (seq_decoded (int n))"

definition SEQ_LIMIT :: nat where "SEQ_LIMIT = 2 ^ 24"

lemma seq_decoded_range:
  assumes "n < SEQ_LIMIT"
  shows "0 \<le> seq_decoded (int n)" "seq_decoded (int n) < 2 ^ 60"
proof -
  have "int n div 65536 mod 256 < 256" "0 \<le> int n div 65536 mod 256" "int n < 16777216"
    using assms by (simp_all add: SEQ_LIMIT_def)
  then show "0 \<le> seq_decoded (int n)" "seq_decoded (int n) < 2 ^ 60"
    unfolding seq_decoded_def by simp_all
qed

lemma uint_dseq: "n < SEQ_LIMIT \<Longrightarrow> uint (dseq n) = seq_decoded (int n)"
  using seq_decoded_range [of n] by (simp add: dseq_def unsigned_of_int take_bit_int_eq_self)

lemma sint_dseq:
  assumes "n < SEQ_LIMIT"
  shows "sint (dseq n) = seq_decoded (int n)"
proof -
  have "signed_take_bit 63 (seq_decoded (int n)) = seq_decoded (int n)"
    using seq_decoded_range [OF assms] by (intro signed_take_bit_int_eq_self) auto
  then show ?thesis
    by (simp add: dseq_def signed_of_int)
qed

lemma dseq_less:
  assumes "a < SEQ_LIMIT" and "b < SEQ_LIMIT"
  shows "sint (dseq a) < sint (dseq b) \<longleftrightarrow> a < b"
  using assms seq_decoded_mono [of "int a" "int b"] seq_decoded_mono [of "int b" "int a"]
  by (cases a b rule: linorder_cases) (auto simp: sint_dseq SEQ_LIMIT_def)

lemma seq_decoded_idem:
  assumes "n < SEQ_LIMIT"
  shows "seq_decoded (seq_decoded (int n)) = seq_decoded (int n)"
proof -
  have n: "int n div 16777216 = 0"
    using assms by (simp add: SEQ_LIMIT_def)
  have "seq_decoded (int n) = int n div 65536 mod 256 * 1024 * 65536 + int n mod 65536"
    unfolding seq_decoded_split [of "int n"] n by simp
  then have "seq_decoded (int n) div 65536 = int n div 65536 mod 256 * 1024"
    by simp
  moreover have "x * 1024 mod 256 = 0" for x :: int
    by (simp flip: mult.assoc [of x 4 256, simplified])
  ultimately show ?thesis
    unfolding seq_decoded_def [of "seq_decoded (int n)"] by simp
qed

section \<open>Tables\<close>

definition content :: "'f zmq_msg_api \<Rightarrow> ('f kvmsg, 'h) zhash_api \<Rightarrow> 'h \<Rightarrow> byte list \<rightharpoonup> byte list" where
  "content api zh h k = Option.bind (map_of (zh_items zh h) k) (kvmsg_body api)"

definition table_ok :: "'f zmq_msg_api \<Rightarrow> ('f kvmsg, 'h) zhash_api \<Rightarrow> 'h \<Rightarrow> bool" where
  "table_ok api zh h \<longleftrightarrow> (\<forall>(k, m)\<in>set (zh_items zh h). good_key k \<and> (\<exists>s b. carries api m s k b))"

text \<open>The effect of a sequence of updates on the contents.\<close>

definition put :: "byte list \<times> byte list \<Rightarrow> (byte list \<rightharpoonup> byte list) \<Rightarrow> byte list \<rightharpoonup> byte list" where
  "put u c = c(fst u \<mapsto> snd u)"

lemma store_content:
  assumes "zhash_laws zh" and "carries api m s k b" and "good_key k" and "table_ok api zh h"
  shows "content api zh (kvmsg_store api (zh_update zh) (Some m) h) = (content api zh h)(k \<mapsto> b) \<and>
    table_ok api zh (kvmsg_store api (zh_update zh) (Some m) h)"
proof -
  obtain m1 where m1: "kvmsg_key api m = (Some k, m1)" "carries api m1 s k b"
    using carries_key [OF assms(2)] assms(3) by (auto simp: good_key_def)
  then have st: "kvmsg_store api (zh_update zh) (Some m) h = zh_update zh k m1 h"
    using assms(2) by (auto simp: kvmsg_store_def carries_def)
  have mp: "map_of (zh_items zh (zh_update zh k m1 h)) = (map_of (zh_items zh h))(k \<mapsto> m1)"
    and dist: "distinct (map fst (zh_items zh h))" for h
    using zhash_update [OF assms(1)] zhash_distinct [OF assms(1)] by blast+
  have "table_ok api zh (zh_update zh k m1 h)"
    unfolding table_ok_def
  proof clarify
    fix k' m' assume "(k', m') \<in> set (zh_items zh (zh_update zh k m1 h))"
    then have "map_of (zh_items zh (zh_update zh k m1 h)) k' = Some m'"
      using dist by simp
    then have "k' = k \<and> m' = m1 \<or> (k', m') \<in> set (zh_items zh h)"
      unfolding mp by (auto split: if_splits dest: map_of_SomeD)
    then show "good_key k' \<and> (\<exists>s b. carries api m' s k' b)"
      using assms(3,4) m1(2) by (auto simp: table_ok_def)
  qed
  moreover have "content api zh (zh_update zh k m1 h) = (content api zh h)(k \<mapsto> b)"
  proof
    fix k'
    show "content api zh (zh_update zh k m1 h) k' = ((content api zh h)(k \<mapsto> b)) k'"
      using m1(2) unfolding content_def mp by (auto simp: kvmsg_body_def carries_def)
  qed
  ultimately show ?thesis
    by (simp add: st)
qed

section \<open>Runs\<close>

text \<open>The messages of a run of the publisher, and the state manager on a sequence of messages.\<close>

fun server_run ::
  "'f zmq_msg_api \<Rightarrow> 64 word \<Rightarrow> (byte list \<times> byte list) list \<Rightarrow> 'f kvmsg list option" where
  "server_run api s [] = Some []"
| "server_run api s (u # us) = do {
     (s1, m) \<leftarrow> server_publish api s (fst u) (snd u);
     ms \<leftarrow> server_run api s1 us;
     Some (m # ms)
   }"

fun sm_run ::
  "'f zmq_msg_api \<Rightarrow> ('f kvmsg, 'h) zhash_api \<Rightarrow> 'h state_mgr \<Rightarrow> 'f kvmsg option list \<Rightarrow> 'h state_mgr option option" where
  "sm_run api zh sm [] = Some (Some sm)"
| "sm_run api zh sm (m # ms) = do {
     r \<leftarrow> sm_pipe api zh m sm;
     (case r of None \<Rightarrow> Some None | Some sm1 \<Rightarrow> sm_run api zh sm1 ms)
   }"

text \<open>Texts that the format and the 255-character buffers keep whole.\<close>

definition good_update :: "byte list \<times> byte list \<Rightarrow> bool" where
  "good_update u \<longleftrightarrow> good_key (fst u) \<and> length (fst u) < KVMSG_KEY_MAX \<and>
     c_bytes (snd u) = snd u \<and> length (snd u) < 255"

text \<open>\<open>ms\<close> carries the updates \<open>us\<close> with the sequence numbers from \<open>n + 1\<close> on.\<close>

fun numbered :: "'f zmq_msg_api \<Rightarrow> nat \<Rightarrow> (byte list \<times> byte list) list \<Rightarrow> 'f kvmsg list \<Rightarrow> bool" where
  "numbered api n [] [] \<longleftrightarrow> True"
| "numbered api n (u # us) (m # ms) \<longleftrightarrow>
     carries api m (dseq (Suc n)) (fst u) (snd u) \<and> numbered api (Suc n) us ms"
| "numbered api n _ _ \<longleftrightarrow> False"

lemma numbered_take: "numbered api n us ms \<Longrightarrow> numbered api n (take k us) (take k ms)"
  by (induction api n us ms arbitrary: k rule: numbered.induct) (auto simp: take_Cons split: nat.splits)

lemma numbered_drop: "numbered api n us ms \<Longrightarrow> k \<le> length us \<Longrightarrow> numbered api (n + k) (drop k us) (drop k ms)"
proof (induction api n us ms arbitrary: k rule: numbered.induct)
  case (2 api n u us m ms)
  then show ?case by (cases k) auto
qed auto

lemma numbered_delivered:
  assumes "zmq_msg_laws api" and "numbered api n us ms"
  shows "\<exists>ms'. map (\<lambda>m. delivered api (kvmsg_send api m)) ms = map Some ms' \<and> numbered api n us ms'"
  using assms(2)
proof (induction us arbitrary: n ms)
  case Nil
  then show ?case by (cases ms) auto
next
  case (Cons u us)
  then obtain m ms1 where ms: "ms = m # ms1" "carries api m (dseq (Suc n)) (fst u) (snd u)"
    "numbered api (Suc n) us ms1"
    by (cases ms) auto
  obtain m' where "delivered api (kvmsg_send api m) = Some m'" "carries api m' (dseq (Suc n)) (fst u) (snd u)"
    using carries_delivered [OF assms(1) ms(2)] by auto
  moreover obtain ms' where "map (\<lambda>m. delivered api (kvmsg_send api m)) ms1 = map Some ms'"
    "numbered api (Suc n) us ms'"
    using Cons.IH [OF ms(3)] by auto
  ultimately show ?case
    by (intro exI [of _ "m' # ms'"]) (simp add: ms(1))
qed

lemma publish_carries:
  assumes "zmq_msg_laws api" and "good_update u" and "Suc n < SEQ_LIMIT"
  shows "\<exists>m. server_publish api (of_nat n) (fst u) (snd u) = Some (of_nat (Suc n), m) \<and>
    carries api m (dseq (Suc n)) (fst u) (snd u)"
proof -
  have k: "take (KVMSG_KEY_MAX - 1) (fst u) = fst u" "c_bytes (fst u) = fst u" "take 254 (snd u) = snd u"
    "c_bytes (snd u) = snd u"
    using assms(2) by (auto simp: good_update_def good_key_def)
  have "uint (of_nat (Suc n) :: 64 word) = int (Suc n)"
    using assms(3) by (simp add: SEQ_LIMIT_def unsigned_of_nat take_bit_nat_eq_self del: of_nat_Suc)
  then have "kvmsg_sequence api (kvmsg_new api (of_nat (Suc n))) = Some (dseq (Suc n))"
    unfolding kvmsg_new_def kvmsg_sequence_set [OF assms(1)] dseq_def by (simp only:)
  then have "kvmsg_sequence api (kvmsg_new api (1 + of_nat n)) = Some (dseq (Suc n))"
    by simp
  then show ?thesis
    using assms(1) k
    by (auto simp: server_publish_def kvmsg_fmt_key_def kvmsg_set_key_def kvmsg_fmt_body_def kvmsg_set_body_def
        Let_def carries_def kvmsg_sequence_def kvmsg_new_def kvmsg_set_sequence_def zmq_msg_laws_def
        c_bytes_def [of "[]"] add.commute split: option.splits)
qed

lemma server_run_numbered:
  assumes "zmq_msg_laws api" and "\<forall>u\<in>set us. good_update u" and "n + length us < SEQ_LIMIT"
  shows "\<exists>ms. server_run api (of_nat n) us = Some ms \<and> numbered api n us ms"
  using assms(2,3)
proof (induction us arbitrary: n)
  case (Cons u us)
  obtain m where m: "server_publish api (of_nat n) (fst u) (snd u) = Some (of_nat (Suc n), m)"
    "carries api m (dseq (Suc n)) (fst u) (snd u)"
    using publish_carries [OF assms(1), of u n] Cons.prems by auto
  obtain ms where "server_run api (of_nat (Suc n)) us = Some ms" "numbered api (Suc n) us ms"
    using Cons.IH [of "Suc n"] Cons.prems by auto
  then show ?case
    using m by (intro exI [of _ "m # ms"]) (simp del: of_nat_Suc)
qed simp

lemma sm_run_content:
  assumes "zhash_laws zh" and "numbered api n us ms" and "\<forall>u\<in>set us. good_update u" and "table_ok api zh (sm_map sm)"
    and "sm_sequence sm = dseq n"
  shows "\<exists>sm'. sm_run api zh sm (map Some ms) = Some (Some sm') \<and> table_ok api zh (sm_map sm') \<and>
    content api zh (sm_map sm') = fold put us (content api zh (sm_map sm)) \<and>
    sm_sequence sm' = dseq (n + length us)"
  using assms(2-5)
proof (induction us arbitrary: n ms sm)
  case Nil
  then show ?case by (cases ms) auto
next
  case (Cons u us)
  then obtain m ms' where ms: "ms = m # ms'" "carries api m (dseq (Suc n)) (fst u) (snd u)"
    "numbered api (Suc n) us ms'"
    by (cases ms) auto
  let ?sm = "\<lparr>sm_map = kvmsg_store api (zh_update zh) (Some m) (sm_map sm), sm_sequence = dseq (Suc n)\<rparr>"
  have "good_key (fst u)"
    using Cons.prems(2) by (simp add: good_update_def)
  from store_content [OF assms(1) ms(2) this Cons.prems(3)] have
    st: "content api zh (sm_map ?sm) = put u (content api zh (sm_map sm))" "table_ok api zh (sm_map ?sm)"
    by (simp_all add: put_def)
  have "sm_pipe api zh (Some m) sm = Some (Some ?sm)"
    using ms(2) by (simp add: sm_pipe_def carries_def)
  then show ?case
    using Cons.IH [OF ms(3), of ?sm] Cons.prems(2) st ms(1) by simp
qed

text \<open>The client on a snapshot: it stores every item and then reads the end marker.\<close>

lemma client_snapshot_items:
  assumes "zmq_msg_laws api" and "zhash_laws zh" and "table_ok api zh h"
    and "\<forall>(k, m)\<in>set items. good_key k \<and> (\<exists>s b. carries api m s k b)"
  shows "\<exists>h'. client_snapshot api zh s h (map (\<lambda>(k, m). delivered api (kvmsg_send api m)) items @ rest)
      = client_snapshot api zh s h' rest \<and> table_ok api zh h' \<and>
    content api zh h' = fold (\<lambda>(k, m). put (k, the (kvmsg_body api m))) items (content api zh h)"
  using assms(3,4)
proof (induction items arbitrary: h)
  case (Cons km items)
  obtain k m where km: "km = (k, m)" by (cases km)
  obtain s' b where c: "good_key k" "carries api m s' k b"
    using Cons.prems km by auto
  obtain m' where m': "delivered api (kvmsg_send api m) = Some m'" "carries api m' s' k b"
    using carries_delivered [OF assms(1) c(2)] by auto
  obtain m1 where m1: "kvmsg_key api m' = (Some k, m1)" "carries api m1 s' k b"
    using carries_key [OF m'(2)] c(1) by (auto simp: good_key_def)
  let ?h = "kvmsg_store api (zh_update zh) (Some m1) h"
  have st: "content api zh ?h = put (k, b) (content api zh h)" "table_ok api zh ?h"
    using store_content [OF assms(2) m1(2) c(1) Cons.prems(1)] by (simp_all add: put_def)
  have "kvmsg_body api m = Some b"
    using c(2) by (auto simp: carries_def kvmsg_body_def)
  moreover have "k \<noteq> KTHXBAI"
    using c(1) by (simp add: good_key_def)
  ultimately show ?case
    using Cons.IH [OF st(2)] Cons.prems(2) st(1) by (simp add: km m'(1) m1(1))
qed auto

lemma fold_put_items:
  assumes "distinct (map fst items)" and "\<forall>(k, m)\<in>set items. kvmsg_body api m \<noteq> None"
  shows "fold (\<lambda>(k, m). put (k, the (kvmsg_body api m))) items c k =
    (case map_of items k of None \<Rightarrow> c k | Some m \<Rightarrow> kvmsg_body api m)"
  using assms
proof (induction items arbitrary: c)
  case (Cons km items)
  moreover have "map_of items (fst km) = None"
    using Cons.prems by (simp add: map_of_eq_None_iff)
  ultimately show ?case
    by (cases km) (auto simp: put_def simp del: map_of_eq_None_iff)
qed simp

lemma KTHXBAI_text: "c_bytes KTHXBAI = KTHXBAI" "length KTHXBAI \<le> KVMSG_KEY_MAX"
  by (simp_all add: KTHXBAI_def c_bytes_def KVMSG_KEY_MAX_def)

lemma snapshot_rebuilds:
  assumes api: "zmq_msg_laws api" and zh: "zhash_laws zh" and ok: "table_ok api zh (sm_map sm)"
    and seq: "sm_sequence sm = dseq n" "n < SEQ_LIMIT"
  shows "\<exists>out h. sm_snapshot api zh i ICANHAZ sm = Some (Some out) \<and> (\<forall>p\<in>set out. fst p = i) \<and>
    client_snapshot api zh 0 (zh_new zh) (map (delivered api \<circ> snd) out) = Some (h, dseq n) \<and>
    table_ok api zh h \<and> content api zh h = content api zh (sm_map sm)"
proof -
  let ?items = "zh_items zh (sm_map sm)"
  let ?fin = "kvmsg_set_key api (kvmsg_new api (dseq n)) KTHXBAI"
  obtain e where e: "kvmsg_set_body api ?fin [] 0 = Some e" "carries api e (dseq n) KTHXBAI []"
  proof -
    have "kvmsg_sequence api (kvmsg_new api (dseq n)) = Some (dseq n)"
      unfolding kvmsg_new_def kvmsg_sequence_set [OF api] uint_dseq [OF seq(2)] seq_decoded_idem [OF seq(2)]
      by (simp add: dseq_def)
    then have "\<exists>e. kvmsg_set_body api ?fin [] 0 = Some e \<and> carries api e (dseq n) KTHXBAI []"
      using api by (auto simp: kvmsg_set_key_def kvmsg_set_body_def Let_def carries_def kvmsg_sequence_def
          kvmsg_new_def kvmsg_set_sequence_def zmq_msg_laws_def KTHXBAI_text(1) c_bytes_def [of "[]"]
          split: option.splits)
    then show ?thesis using that by blast
  qed
  obtain e' where e': "delivered api (kvmsg_send api e) = Some e'" "carries api e' (dseq n) KTHXBAI []"
    using carries_delivered [OF api e(2)] by auto
  obtain e1 where e1: "kvmsg_key api e' = (Some KTHXBAI, e1)" "carries api e1 (dseq n) KTHXBAI []"
    using carries_key [OF e'(2) KTHXBAI_text] by auto
  have new: "zh_items zh (zh_new zh) = []" and dist: "distinct (map fst ?items)"
    using zh by simp_all
  then have n: "table_ok api zh (zh_new zh)" "content api zh (zh_new zh) = Map.empty"
    by (auto simp: table_ok_def content_def)
  obtain h where h: "client_snapshot api zh 0 (zh_new zh)
      (map (\<lambda>(k, m). delivered api (kvmsg_send api m)) ?items @ [Some e'])
      = client_snapshot api zh 0 h [Some e']" "table_ok api zh h"
    "content api zh h = fold (\<lambda>(k, m). put (k, the (kvmsg_body api m))) ?items Map.empty"
    using client_snapshot_items [OF api zh n(1) ok [unfolded table_ok_def], of 0 "[Some e']"] n(2) by auto
  have "\<forall>(k, m)\<in>set ?items. kvmsg_body api m \<noteq> None"
    using ok by (auto simp: table_ok_def carries_def kvmsg_body_def)
  from fold_put_items [OF dist this] have "content api zh h = content api zh (sm_map sm)"
    unfolding h(3) by (auto simp: content_def split: option.splits)
  moreover define out where "out = map (\<lambda>(_, m). s_send_single api m i) ?items @ [(i, kvmsg_send api e)]"
  have "map (delivered api \<circ> snd) out = map (\<lambda>(k, m). delivered api (kvmsg_send api m)) ?items @ [Some e']"
    by (simp add: e' out_def s_send_single_def case_prod_beta)
  moreover have "client_snapshot api zh 0 h [Some e'] = Some (h, dseq n)"
    using e1 by (auto simp: carries_def)
  moreover have "sm_snapshot api zh i ICANHAZ sm = Some (Some out)"
    using e(1) by (simp add: sm_snapshot_def seq(1) out_def)
  moreover have "\<forall>p\<in>set out. fst p = i"
    by (auto simp: out_def s_send_single_def)
  ultimately show ?thesis
    using h(1,2) by (intro exI [of _ out] exI [of _ h]) (simp del: client_snapshot.simps)
qed

text \<open>The client on the updates: it skips those the snapshot holds and stores the later ones.\<close>

lemma client_updates_content:
  assumes "zhash_laws zh" and "numbered api n us ms" and "\<forall>u\<in>set us. good_update u" and "table_ok api zh h"
    and "n \<le> c" and "c \<le> n + length us" and "n + length us < SEQ_LIMIT"
  shows "\<exists>h'. client_updates api zh (dseq c) h (map Some ms) = Some (h', dseq (n + length us)) \<and>
    content api zh h' = fold put (drop (c - n) us) (content api zh h)"
  using assms(2-)
proof (induction us arbitrary: n c ms h)
  case Nil
  then show ?case by (cases ms) auto
next
  case (Cons u us)
  then obtain m ms' where ms: "ms = m # ms'" "carries api m (dseq (Suc n)) (fst u) (snd u)"
    "numbered api (Suc n) us ms'"
    by (cases ms) auto
  have s: "kvmsg_sequence api m = Some (dseq (Suc n))"
    using ms(2) by (simp add: carries_def)
  have key: "good_key (fst u)" and gs: "\<forall>u\<in>set us. good_update u"
    using Cons.prems(2) by (auto simp: good_update_def)
  show ?case
  proof (cases "c = n")
    case True
    let ?h = "kvmsg_store api (zh_update zh) (Some m) h"
    have st: "content api zh ?h = put u (content api zh h)" "table_ok api zh ?h"
      using store_content [OF assms(1) ms(2) key Cons.prems(3)] by (simp_all add: put_def)
    have "sint (dseq c) < sint (dseq (Suc n))"
      using dseq_less [of c "Suc n"] Cons.prems True by auto
    then show ?thesis
      using Cons.IH [OF ms(3) gs st(2), of "Suc n"] Cons.prems st(1) True by (simp add: ms(1) s)
  next
    case False
    then have "\<not> sint (dseq c) < sint (dseq (Suc n))"
      using dseq_less [of c "Suc n"] Cons.prems by auto
    moreover have "drop (c - n) (u # us) = drop (c - Suc n) us"
      using False Cons.prems by (simp add: drop_Cons')
    ultimately show ?thesis
      using Cons.IH [OF ms(3) gs Cons.prems(3), of c] Cons.prems False by (simp add: ms(1) s)
  qed
qed

lemma clone1_content:
  assumes "zmq_msg_laws api" and "zhash_laws zh" and "\<forall>u\<in>set us. good_update u" and "n + length us < SEQ_LIMIT"
    and "table_ok api zh h" and "table_ok api zh h'"
  shows "\<exists>out h1 h1' s. server1_run api zh (of_nat n) h us = Some (out, h1, of_nat (n + length us)) \<and>
    client1_run api zh s0 h' (map (delivered api) out) = (h1', s0 + of_nat (length us)) \<and>
    content api zh h1 = fold put us (content api zh h) \<and> content api zh h1' = fold put us (content api zh h')"
  using assms(3-)
proof (induction us arbitrary: n h h' s0)
  case (Cons u us)
  have g: "good_update u" "good_key (fst u)" "Suc n < SEQ_LIMIT"
    using Cons.prems(1,2) by (auto simp: good_update_def)
  obtain m where m: "server_publish api (of_nat n) (fst u) (snd u) = Some (of_nat (Suc n), m)"
    "carries api m (dseq (Suc n)) (fst u) (snd u)"
    using publish_carries [OF assms(1) g(1,3)] by auto
  obtain m' where m': "delivered api (kvmsg_send api m) = Some m'" "carries api m' (dseq (Suc n)) (fst u) (snd u)"
    using carries_delivered [OF assms(1) m(2)] by auto
  let ?h = "kvmsg_store api (zh_update zh) (Some m) h" and ?h' = "kvmsg_store api (zh_update zh) (Some m') h'"
  have st: "content api zh ?h = put u (content api zh h)" "table_ok api zh ?h"
    "content api zh ?h' = put u (content api zh h')" "table_ok api zh ?h'"
    using store_content [OF assms(2) m(2) g(2) Cons.prems(3)] store_content [OF assms(2) m'(2) g(2) Cons.prems(4)]
    by (simp_all add: put_def)
  obtain out h1 h1' where "server1_run api zh (of_nat (Suc n)) ?h us = Some (out, h1, of_nat (Suc n + length us))"
    "client1_run api zh (s0 + 1) ?h' (map (delivered api) out) = (h1', s0 + 1 + of_nat (length us))"
    "content api zh h1 = fold put us (content api zh ?h)" "content api zh h1' = fold put us (content api zh ?h')"
    using Cons.IH [of "Suc n" ?h ?h' "s0 + 1"] Cons.prems st by auto
  then show ?case
    using m(1) m'(1) st
    by (cases u) (auto simp: server_publish_def Let_def bind_eq_Some_conv ac_simps simp del: of_nat_add)
qed auto

section \<open>Properties\<close>

text \<open>
  In the first version of the pattern, a client that receives every update from the
  first on ends with the same contents as the server's own table: the last body published
  for each key. It has counted every message.
\<close>

theorem clone1_client_equals_server:
  assumes "zmq_msg_laws api" and "zhash_laws zh" and "\<forall>u\<in>set us. good_update u" and "length us < SEQ_LIMIT"
  shows "\<exists>out hs hc. server1_run api zh 0 (zh_new zh) us = Some (out, hs, of_nat (length us)) \<and>
    client1_run api zh 0 (zh_new zh) (map (delivered api) out) = (hc, of_nat (length us)) \<and>
    content api zh hs = fold put us Map.empty \<and> content api zh hc = content api zh hs"
proof -
  have "table_ok api zh (zh_new zh)" "content api zh (zh_new zh) = Map.empty"
    using assms(2) by (auto simp: table_ok_def content_def)
  then show ?thesis
    using clone1_content [OF assms(1-3), of 0 "zh_new zh" "zh_new zh" 0] assms(4) by auto
qed


text \<open>
  C6: A client converges to the state of the server: when the server has published the
  updates \<open>us\<close> (fewer than \<open>2 ^ 24\<close>), the state manager has answered the client after the
  first \<open>k\<close> of them, and the client's subscription delivers every message from some \<open>j \<le> k\<close>
  on, then the server, the state manager and the client all run to the end, and the client's
  table holds exactly the last body published for each key. Updates that the snapshot
  already holds are skipped and none is lost.
\<close>

theorem clone_client_converges:
  assumes "zmq_msg_laws api" and "zhash_laws zh" and "\<forall>u\<in>set us. good_update u"
    and "j \<le> k" and "k \<le> length us" and "length us < SEQ_LIMIT"
  shows "\<exists>ms sm out h. server_run api 0 us = Some ms \<and>
    sm_run api zh (sm_init zh) (map (\<lambda>m. delivered api (kvmsg_send api m)) (take k ms)) = Some (Some sm) \<and>
    sm_snapshot api zh i ICANHAZ sm = Some (Some out) \<and> (\<forall>p\<in>set out. fst p = i) \<and>
    client_main api zh (map (delivered api \<circ> snd) out)
      (map (\<lambda>m. delivered api (kvmsg_send api m)) (drop j ms)) = Some (h, dseq (length us)) \<and>
    content api zh h = fold put us Map.empty"
proof -
  obtain ms where ms: "server_run api 0 us = Some ms" "numbered api 0 us ms"
    using server_run_numbered [OF assms(1,3), of 0] assms(6) by auto
  obtain pre where pre: "map (\<lambda>m. delivered api (kvmsg_send api m)) (take k ms) = map Some pre"
    "numbered api 0 (take k us) pre"
    using numbered_delivered [OF assms(1) numbered_take [OF ms(2)]] by metis
  obtain post where post: "map (\<lambda>m. delivered api (kvmsg_send api m)) (drop j ms) = map Some post"
    "numbered api j (drop j us) post"
    using numbered_delivered [OF assms(1) numbered_drop [OF ms(2), of j]] assms(4,5) by auto
  have init: "table_ok api zh (sm_map (sm_init zh))" "content api zh (sm_map (sm_init zh)) = Map.empty"
    "sm_sequence (sm_init zh) = dseq 0"
    using assms(2) by (auto simp: sm_init_def table_ok_def content_def dseq_def seq_decoded_0)
  obtain sm where sm: "sm_run api zh (sm_init zh) (map Some pre) = Some (Some sm)" "table_ok api zh (sm_map sm)"
    "content api zh (sm_map sm) = fold put (take k us) Map.empty" "sm_sequence sm = dseq k"
    using sm_run_content [OF assms(2) pre(2) _ init(1,3)] assms(3,5) init(2) by (auto dest: in_set_takeD)
  obtain out h where out: "sm_snapshot api zh i ICANHAZ sm = Some (Some out)" "\<forall>p\<in>set out. fst p = i"
    "client_snapshot api zh 0 (zh_new zh) (map (delivered api \<circ> snd) out) = Some (h, dseq k)"
    "table_ok api zh h" "content api zh h = content api zh (sm_map sm)"
    using snapshot_rebuilds [OF assms(1,2) sm(2,4), of i] assms(5,6) by auto
  obtain h' where h': "client_updates api zh (dseq k) h (map Some post) = Some (h', dseq (length us))"
    "content api zh h' = fold put (drop k us) (content api zh h)"
    using client_updates_content [OF assms(2) post(2) _ out(4), of k] assms(3-6) by (auto dest: in_set_dropD)
  have "fold put us Map.empty = fold put (drop k us) (fold put (take k us) Map.empty)"
    by (metis append_take_drop_id fold_append comp_apply)
  then show ?thesis
    using ms(1) pre(1) sm(1,3) out(1-3,5) post(1) h'
    by (intro exI [of _ ms] exI [of _ sm] exI [of _ out] exI [of _ h']) (auto simp: client_main_def)
qed

theorem clone_client_converges_witness:
  "\<exists>ms sm out h. server_run ex_api 0 [([49], [50]), ([51], [52]), ([49], [53])] = Some ms \<and>
    sm_run ex_api ex_zhash (sm_init ex_zhash) (map (\<lambda>m. delivered ex_api (kvmsg_send ex_api m)) (take 2 ms))
      = Some (Some sm) \<and>
    sm_snapshot ex_api ex_zhash (7 :: nat) ICANHAZ sm = Some (Some out) \<and>
    client_main ex_api ex_zhash (map (delivered ex_api \<circ> snd) out)
      (map (\<lambda>m. delivered ex_api (kvmsg_send ex_api m)) (drop 1 ms)) = Some (h, 3) \<and>
    content ex_api ex_zhash h [49] = Some [53]"
proof -
  have "dseq (Suc (Suc (Suc 0))) = 3"
    by (simp add: dseq_def seq_decoded_def)
  moreover have "\<forall>u\<in>set [([49], [50]), ([51], [52]), ([49], [53])]. good_update u"
    by (simp add: good_update_def good_key_def c_bytes_def KVMSG_KEY_MAX_def KTHXBAI_def)
  ultimately show ?thesis
    using clone_client_converges [OF ex_api_laws ex_zhash_laws, of "[([49], [50]), ([51], [52]), ([49], [53])]" 1 2 "7 :: nat"]
    by (auto simp: SEQ_LIMIT_def put_def simp del: server_run.simps)
qed

text \<open>
  The bound \<open>2 ^ 24\<close> is sharp: the number of update \<open>2 ^ 24\<close> is read as a smaller one
  than that of update \<open>2 ^ 24 - 1\<close>, and a client that has applied the latter drops the former
  and every later update up to number \<open>2 ^ 24 + 65535\<close>.
\<close>

theorem client_drops_updates_after_limit:
  assumes "carries api m (dseq n) k b" and "SEQ_LIMIT \<le> n" and "n < SEQ_LIMIT + 65536"
  shows "client_updates api zh (dseq (SEQ_LIMIT - 1)) h [Some m] = Some (h, dseq (SEQ_LIMIT - 1))"
proof -
  have "int n div 65536 = 256"
    using assms(2,3) by (simp add: SEQ_LIMIT_def)
  then have "seq_decoded (int n) = int n"
    unfolding seq_decoded_def by simp
  then have "sint (dseq n) = int n"
    using assms(3) by (simp add: dseq_def signed_of_nat SEQ_LIMIT_def signed_take_bit_int_eq_self)
  moreover have "int n < sint (dseq (SEQ_LIMIT - 1))"
    using sint_dseq [of "SEQ_LIMIT - 1"] assms(3) by (simp add: SEQ_LIMIT_def seq_decoded_def)
  moreover have "kvmsg_sequence api m = Some (dseq n)"
    using assms(1) by (simp add: carries_def)
  ultimately show ?thesis
    by simp
qed

theorem client_drops_updates_after_limit_witness:
  "client_updates ex_api ex_zhash (dseq (SEQ_LIMIT - 1)) (zh_new ex_zhash)
     [Some ((kvmsg_new ex_api (of_nat SEQ_LIMIT))\<lparr>km_key := Some [49], km_body := Some [50]\<rparr>)]
   = Some (zh_new ex_zhash, dseq (SEQ_LIMIT - 1))"
proof (rule client_drops_updates_after_limit)
  have "kvmsg_sequence ex_api (kvmsg_new ex_api (of_nat SEQ_LIMIT)) = Some (dseq SEQ_LIMIT)"
    unfolding kvmsg_new_def kvmsg_sequence_set [OF ex_api_laws] by (simp add: SEQ_LIMIT_def dseq_def)
  then show "carries ex_api ((kvmsg_new ex_api (of_nat SEQ_LIMIT))\<lparr>km_key := Some [49], km_body := Some [50]\<rparr>)
    (dseq SEQ_LIMIT) [49] [50]"
    by (simp add: carries_def kvmsg_sequence_def kvmsg_new_def kvmsg_set_sequence_def ex_api_def c_bytes_def
        split: if_splits option.splits)
qed (simp_all add: SEQ_LIMIT_def)

theorem clone1_client_equals_server_witness:
  "\<exists>out hs hc. server1_run ex_api ex_zhash 0 (zh_new ex_zhash) [([49], [50]), ([49], [53])] = Some (out, hs, 2) \<and>
    client1_run ex_api ex_zhash 0 (zh_new ex_zhash) (map (delivered ex_api) out) = (hc, 2) \<and>
    content ex_api ex_zhash hc [49] = Some [53]"
proof -
  have "\<forall>u\<in>set [([49], [50]), ([49], [53])]. good_update u"
    by (simp add: good_update_def good_key_def c_bytes_def KVMSG_KEY_MAX_def KTHXBAI_def)
  from clone1_client_equals_server [OF ex_api_laws ex_zhash_laws this] show ?thesis
    by (auto simp: SEQ_LIMIT_def put_def simp del: server1_run.simps)
qed

end
