(* ===== verification/Mdbroker.thy ===== *)
theory Mdbroker
  imports Czmq
begin

text \<open>
  The Majordomo broker of \<^verbatim>\<open>lib/zeromq/MDP/mdbroker.c\<close>. Workers and services are objects of two
  block memories, so that a pointer to a worker that was deleted is a dangling pointer of the
  model. The CZMQ containers, and the readings of \<^verbatim>\<open>zclock_time\<close>, are parameters. What is sent
  on the socket is logged in \<open>b_sent\<close>. \<^const>\<open>None\<close> is undefined behaviour or a failed \<^verbatim>\<open>assert\<close>.
  Log output is not modelled.
\<close>

section \<open>Data\<close>

definition MDPC_CLIENT :: "byte list" where "MDPC_CLIENT = bytes ''MDPC01''"
definition MDPW_WORKER :: "byte list" where "MDPW_WORKER = bytes ''MDPW01''"
definition MDPW_READY :: "byte list" where "MDPW_READY = [1]"
definition MDPW_REQUEST :: "byte list" where "MDPW_REQUEST = [2]"
definition MDPW_REPLY :: "byte list" where "MDPW_REPLY = [3]"
definition MDPW_HEARTBEAT :: "byte list" where "MDPW_HEARTBEAT = [4]"
definition MDPW_DISCONNECT :: "byte list" where "MDPW_DISCONNECT = [5]"

definition HEARTBEAT_LIVENESS :: int where "HEARTBEAT_LIVENESS = 3"
definition HEARTBEAT_INTERVAL :: int where "HEARTBEAT_INTERVAL = 2500"
definition HEARTBEAT_EXPIRY :: int where "HEARTBEAT_EXPIRY = HEARTBEAT_INTERVAL * HEARTBEAT_LIVENESS"

record ('wl, 'ql) service_t =
  sv_name :: "byte list"
  sv_requests :: 'ql
  sv_waiting :: 'wl
  sv_workers :: "64 word"

record worker_t =
  wk_id_string :: "byte list"
  wk_identity :: "byte list"
  wk_service :: ptr
  wk_expiry :: int

record ('m, 'wl, 'ql, 'wh, 'sh) mdp_env =
  e_msg :: "'m zmsg_api"
  e_wl :: "(ptr, 'wl) zlist_api"
  e_ql :: "('m, 'ql) zlist_api"
  e_wh :: "(ptr, 'wh) zhash_api"
  e_sh :: "(ptr, 'sh) zhash_api"
  e_clock :: "nat \<Rightarrow> int"

text \<open>
  The \<open>b_tick\<close>-th call of \<^verbatim>\<open>zclock_time\<close> is the next one. The last four fields are the objects of
  the two types, the messages sent and the number of clock readings.
\<close>

record ('m, 'wl, 'ql, 'wh, 'sh) broker_t =
  b_services :: 'sh
  b_workers :: 'wh
  b_waiting :: 'wl
  b_heartbeat_at :: int
  b_smem :: "('wl, 'ql) service_t mem"
  b_wmem :: "worker_t mem"
  b_sent :: "'m list"
  b_tick :: nat

section \<open>Operations\<close>

definition zclock_time ::
  "('m, 'wl, 'ql, 'wh, 'sh) mdp_env \<Rightarrow> ('m, 'wl, 'ql, 'wh, 'sh) broker_t \<Rightarrow> int \<times> ('m, 'wl, 'ql, 'wh, 'sh) broker_t" where
  "zclock_time env s = (e_clock env (b_tick s), s\<lparr>b_tick := Suc (b_tick s)\<rparr>)"

definition s_broker_new ::
  "('m, 'wl, 'ql, 'wh, 'sh) mdp_env \<Rightarrow> (nat \<Rightarrow> bool) \<Rightarrow> ('m, 'wl, 'ql, 'wh, 'sh) broker_t" where
  "s_broker_new env oom =
     \<lparr>b_services = zh_new (e_sh env), b_workers = zh_new (e_wh env), b_waiting = zl_new (e_wl env),
      b_heartbeat_at = e_clock env 0 + HEARTBEAT_INTERVAL, b_smem = empty_mem oom, b_wmem = empty_mem oom,
      b_sent = [], b_tick = 1\<rparr>"

definition s_worker_send ::
  "('m, 'wl, 'ql, 'wh, 'sh) mdp_env \<Rightarrow> ptr \<Rightarrow> byte list \<Rightarrow> byte list option \<Rightarrow> 'm option
   \<Rightarrow> ('m, 'wl, 'ql, 'wh, 'sh) broker_t \<Rightarrow> ('m, 'wl, 'ql, 'wh, 'sh) broker_t option" where
  "s_worker_send env self command opt msg s = do {
     let zg = e_msg env;
     let msg = (case msg of Some m \<Rightarrow> zg_dup zg m | None \<Rightarrow> zg_new zg);
     let msg = (case opt of Some f \<Rightarrow> zg_push zg f msg | None \<Rightarrow> msg);
     let msg = zg_push zg command msg;
     let msg = zg_push zg MDPW_WORKER msg;
     w \<leftarrow> load (b_wmem s) self;
     let msg = zg_wrap zg (wk_identity w) msg;
     Some (s\<lparr>b_sent := b_sent s @ [msg]\<rparr>)
   }"

definition s_worker_destroy ::
  "ptr \<Rightarrow> ('m, 'wl, 'ql, 'wh, 'sh) broker_t \<Rightarrow> ('m, 'wl, 'ql, 'wh, 'sh) broker_t option" where
  "s_worker_destroy self s = do {
     _ \<leftarrow> load (b_wmem s) self;
     wmem \<leftarrow> mem_free (b_wmem s) self;
     Some (s\<lparr>b_wmem := wmem\<rparr>)
   }"

text \<open>
  \<^verbatim>\<open>zhash_delete\<close> on the table of workers calls the function given to \<^verbatim>\<open>zhash_freefn\<close>.
\<close>

definition s_worker_delete ::
  "('m, 'wl, 'ql, 'wh, 'sh) mdp_env \<Rightarrow> ptr \<Rightarrow> bool
   \<Rightarrow> ('m, 'wl, 'ql, 'wh, 'sh) broker_t \<Rightarrow> ('m, 'wl, 'ql, 'wh, 'sh) broker_t option" where
  "s_worker_delete env self disconnect s = do {
     s \<leftarrow> (if disconnect then s_worker_send env self MDPW_DISCONNECT None None s else Some s);
     w \<leftarrow> load (b_wmem s) self;
     s \<leftarrow> (if wk_service w \<noteq> Null then do {
             sv \<leftarrow> load (b_smem s) (wk_service w);
             smem \<leftarrow> store (b_smem s) (wk_service w)
               (sv\<lparr>sv_waiting := zl_remove (e_wl env) self (sv_waiting sv), sv_workers := sv_workers sv - 1\<rparr>);
             Some (s\<lparr>b_smem := smem\<rparr>)
           } else Some s);
     let s = s\<lparr>b_waiting := zl_remove (e_wl env) self (b_waiting s)\<rparr>;
     (case zh_lookup (e_wh env) (b_workers s) (wk_id_string w) of
        None \<Rightarrow> Some s
      | Some p \<Rightarrow> s_worker_destroy p (s\<lparr>b_workers := zh_delete (e_wh env) (wk_id_string w) (b_workers s)\<rparr>))
   }"

text \<open>The loop of \<^verbatim>\<open>s_broker_purge\<close>; \<open>worker\<close> is its variable, \<^const>\<open>None\<close> for NULL.\<close>

partial_function (option) purge_loop ::
  "('m, 'wl, 'ql, 'wh, 'sh) mdp_env \<Rightarrow> ptr option
   \<Rightarrow> ('m, 'wl, 'ql, 'wh, 'sh) broker_t \<Rightarrow> ('m, 'wl, 'ql, 'wh, 'sh) broker_t option" where
  "purge_loop env worker s =
     (if worker = None then Some s
      else let (now, s1) = zclock_time env s in
        Option.bind (load (b_wmem s1) (the worker)) (\<lambda>w.
        if now < wk_expiry w then Some s1
        else Option.bind (s_worker_delete env (the worker) False s1) (\<lambda>s2.
             purge_loop env (zl_first (e_wl env) (b_waiting s2)) s2)))"

definition s_broker_purge ::
  "('m, 'wl, 'ql, 'wh, 'sh) mdp_env
   \<Rightarrow> ('m, 'wl, 'ql, 'wh, 'sh) broker_t \<Rightarrow> ('m, 'wl, 'ql, 'wh, 'sh) broker_t option" where
  "s_broker_purge env s = purge_loop env (zl_first (e_wl env) (b_waiting s)) s"

definition s_service_require ::
  "('m, 'wl, 'ql, 'wh, 'sh) mdp_env \<Rightarrow> byte list option
   \<Rightarrow> ('m, 'wl, 'ql, 'wh, 'sh) broker_t \<Rightarrow> (ptr \<times> ('m, 'wl, 'ql, 'wh, 'sh) broker_t) option" where
  "s_service_require env service_frame s = do {
     frame \<leftarrow> service_frame;
     let name = c_bytes frame;
     (case zh_lookup (e_sh env) (b_services s) name of
        Some p \<Rightarrow> Some (p, s)
      | None \<Rightarrow> do {
          (p, smem) \<leftarrow> zmalloc \<lparr>sv_name = name, sv_requests = zl_new (e_ql env), sv_waiting = zl_new (e_wl env),
                                sv_workers = 0\<rparr> (b_smem s);
          Some (p, s\<lparr>b_smem := smem, b_services := zh_insert (e_sh env) name p (b_services s)\<rparr>)
        })
   }"

definition s_service_destroy ::
  "ptr \<Rightarrow> ('m, 'wl, 'ql, 'wh, 'sh) broker_t \<Rightarrow> ('m, 'wl, 'ql, 'wh, 'sh) broker_t option" where
  "s_service_destroy service s = do {
     _ \<leftarrow> load (b_smem s) service;
     smem \<leftarrow> mem_free (b_smem s) service;
     Some (s\<lparr>b_smem := smem\<rparr>)
   }"

partial_function (option) dispatch_loop ::
  "('m, 'wl, 'ql, 'wh, 'sh) mdp_env \<Rightarrow> ptr
   \<Rightarrow> ('m, 'wl, 'ql, 'wh, 'sh) broker_t \<Rightarrow> ('m, 'wl, 'ql, 'wh, 'sh) broker_t option" where
  "dispatch_loop env self s =
     Option.bind (load (b_smem s) self) (\<lambda>sv.
     if zl_size (e_wl env) (sv_waiting sv) \<noteq> 0 \<and> zl_size (e_ql env) (sv_requests sv) \<noteq> 0 then
       Option.bind (fst (zl_pop (e_wl env) (sv_waiting sv))) (\<lambda>worker.
       Option.bind (fst (zl_pop (e_ql env) (sv_requests sv))) (\<lambda>msg.
       Option.bind (store (b_smem s) self
           (sv\<lparr>sv_waiting := snd (zl_pop (e_wl env) (sv_waiting sv)),
              sv_requests := snd (zl_pop (e_ql env) (sv_requests sv))\<rparr>)) (\<lambda>smem.
       Option.bind (s_worker_send env worker MDPW_REQUEST None (Some msg)
           (s\<lparr>b_smem := smem, b_waiting := zl_remove (e_wl env) worker (b_waiting s)\<rparr>)) (\<lambda>s1.
       dispatch_loop env self s1))))
     else Some s)"

definition s_service_dispatch ::
  "('m, 'wl, 'ql, 'wh, 'sh) mdp_env \<Rightarrow> ptr \<Rightarrow> 'm option
   \<Rightarrow> ('m, 'wl, 'ql, 'wh, 'sh) broker_t \<Rightarrow> ('m, 'wl, 'ql, 'wh, 'sh) broker_t option" where
  "s_service_dispatch env self msg s = do {
     s \<leftarrow> (case msg of
            None \<Rightarrow> Some s
          | Some m \<Rightarrow> do {
              sv \<leftarrow> load (b_smem s) self;
              smem \<leftarrow> store (b_smem s) self (sv\<lparr>sv_requests := zl_append (e_ql env) m (sv_requests sv)\<rparr>);
              Some (s\<lparr>b_smem := smem\<rparr>)
            });
     s \<leftarrow> s_broker_purge env s;
     dispatch_loop env self s
   }"

definition s_worker_require ::
  "('m, 'wl, 'ql, 'wh, 'sh) mdp_env \<Rightarrow> byte list
   \<Rightarrow> ('m, 'wl, 'ql, 'wh, 'sh) broker_t \<Rightarrow> (ptr \<times> ('m, 'wl, 'ql, 'wh, 'sh) broker_t) option" where
  "s_worker_require env identity s =
     (let id_string = zf_strhex (e_msg env) identity in
      case zh_lookup (e_wh env) (b_workers s) id_string of
        Some p \<Rightarrow> Some (p, s)
      | None \<Rightarrow> do {
          (p, wmem) \<leftarrow> zmalloc \<lparr>wk_id_string = id_string, wk_identity = identity, wk_service = Null, wk_expiry = 0\<rparr>
                        (b_wmem s);
          Some (p, s\<lparr>b_wmem := wmem, b_workers := zh_insert (e_wh env) id_string p (b_workers s)\<rparr>)
        })"

definition s_worker_waiting ::
  "('m, 'wl, 'ql, 'wh, 'sh) mdp_env \<Rightarrow> ptr
   \<Rightarrow> ('m, 'wl, 'ql, 'wh, 'sh) broker_t \<Rightarrow> ('m, 'wl, 'ql, 'wh, 'sh) broker_t option" where
  "s_worker_waiting env self s = do {
     w \<leftarrow> load (b_wmem s) self;
     let s = s\<lparr>b_waiting := zl_append (e_wl env) self (b_waiting s)\<rparr>;
     sv \<leftarrow> load (b_smem s) (wk_service w);
     smem \<leftarrow> store (b_smem s) (wk_service w) (sv\<lparr>sv_waiting := zl_append (e_wl env) self (sv_waiting sv)\<rparr>);
     let s = s\<lparr>b_smem := smem\<rparr>;
     let (now, s) = zclock_time env s;
     wmem \<leftarrow> store (b_wmem s) self (w\<lparr>wk_expiry := now + HEARTBEAT_EXPIRY\<rparr>);
     s_service_dispatch env (wk_service w) None (s\<lparr>b_wmem := wmem\<rparr>)
   }"

text \<open>The test for a reserved name: at least four bytes, the first four of them \<^verbatim>\<open>mmi.\<close>\<close>

definition is_mmi :: "byte list \<Rightarrow> bool" where
  "is_mmi frame \<longleftrightarrow> length frame \<ge> 4 \<and> take 4 frame = bytes ''mmi.''"

definition s_broker_worker_msg ::
  "('m, 'wl, 'ql, 'wh, 'sh) mdp_env \<Rightarrow> byte list \<Rightarrow> 'm
   \<Rightarrow> ('m, 'wl, 'ql, 'wh, 'sh) broker_t \<Rightarrow> ('m, 'wl, 'ql, 'wh, 'sh) broker_t option" where
  "s_broker_worker_msg env sender msg s = do {
     let zg = e_msg env;
     _ \<leftarrow> (if zg_size zg msg \<ge> 1 then Some () else None);
     command \<leftarrow> fst (zg_pop zg msg);
     let msg = snd (zg_pop zg msg);
     let worker_ready = (zh_lookup (e_wh env) (b_workers s) (zf_strhex zg sender) \<noteq> None);
     (worker, s) \<leftarrow> s_worker_require env sender s;
     if command = MDPW_READY then
       if worker_ready then s_worker_delete env worker True s
       else if is_mmi sender then s_worker_delete env worker True s
       else do {
         (service, s) \<leftarrow> s_service_require env (fst (zg_pop zg msg)) s;
         w \<leftarrow> load (b_wmem s) worker;
         wmem \<leftarrow> store (b_wmem s) worker (w\<lparr>wk_service := service\<rparr>);
         sv \<leftarrow> load (b_smem s) service;
         smem \<leftarrow> store (b_smem s) service (sv\<lparr>sv_workers := sv_workers sv + 1\<rparr>);
         s_worker_waiting env worker (s\<lparr>b_wmem := wmem, b_smem := smem\<rparr>)
       }
     else if command = MDPW_REPLY then
       if worker_ready then do {
         client \<leftarrow> fst (zg_unwrap zg msg);
         let msg = snd (zg_unwrap zg msg);
         w \<leftarrow> load (b_wmem s) worker;
         sv \<leftarrow> load (b_smem s) (wk_service w);
         let msg = zg_wrap zg client (zg_push zg MDPC_CLIENT (zg_push zg (sv_name sv) msg));
         s_worker_waiting env worker (s\<lparr>b_sent := b_sent s @ [msg]\<rparr>)
       } else s_worker_delete env worker True s
     else if command = MDPW_HEARTBEAT then
       if worker_ready then do {
         let (now, s) = zclock_time env s;
         w \<leftarrow> load (b_wmem s) worker;
         wmem \<leftarrow> store (b_wmem s) worker (w\<lparr>wk_expiry := now + HEARTBEAT_EXPIRY\<rparr>);
         Some (s\<lparr>b_wmem := wmem\<rparr>)
       } else s_worker_delete env worker True s
     else if command = MDPW_DISCONNECT then s_worker_delete env worker False s
     else Some s
   }"

definition s_broker_client_msg ::
  "('m, 'wl, 'ql, 'wh, 'sh) mdp_env \<Rightarrow> byte list \<Rightarrow> 'm
   \<Rightarrow> ('m, 'wl, 'ql, 'wh, 'sh) broker_t \<Rightarrow> ('m, 'wl, 'ql, 'wh, 'sh) broker_t option" where
  "s_broker_client_msg env sender msg s = do {
     let zg = e_msg env;
     _ \<leftarrow> (if zg_size zg msg \<ge> 2 then Some () else None);
     service_frame \<leftarrow> fst (zg_pop zg msg);
     let msg = snd (zg_pop zg msg);
     (service, s) \<leftarrow> s_service_require env (Some service_frame) s;
     let msg = zg_wrap zg sender msg;
     if is_mmi service_frame then do {
       return_code \<leftarrow>
         (if service_frame = bytes ''mmi.service'' then do {
            frame \<leftarrow> zg_last zg msg;
            let name = c_bytes frame;
            (case zh_lookup (e_sh env) (b_services s) name of
               None \<Rightarrow> Some (bytes ''404'')
             | Some p \<Rightarrow> do {
                 sv \<leftarrow> load (b_smem s) p;
                 Some (if sv_workers sv \<noteq> 0 then bytes ''200'' else bytes ''404'')
               })
          } else Some (bytes ''501''));
       let msg = zg_reset_last zg return_code msg;
       client \<leftarrow> fst (zg_unwrap zg msg);
       let msg = snd (zg_unwrap zg msg);
       let msg = zg_wrap zg client (zg_push zg MDPC_CLIENT (zg_push zg service_frame msg));
       Some (s\<lparr>b_sent := b_sent s @ [msg]\<rparr>)
     } else s_service_dispatch env service (Some msg) s
   }"

text \<open>One turn of the loop of \<^verbatim>\<open>main\<close> for each outcome of \<^verbatim>\<open>zmq_poll\<close> and \<^verbatim>\<open>zmsg_recv\<close>; \<open>Some None\<close> is
  the \<^verbatim>\<open>break\<close>.\<close>

datatype 'm poll = Poll_error | No_input | Recv_null | Recv 'm

fun send_heartbeats ::
  "('m, 'wl, 'ql, 'wh, 'sh) mdp_env \<Rightarrow> ptr list
   \<Rightarrow> ('m, 'wl, 'ql, 'wh, 'sh) broker_t \<Rightarrow> ('m, 'wl, 'ql, 'wh, 'sh) broker_t option" where
  "send_heartbeats env [] s = Some s"
| "send_heartbeats env (w # ws) s = do {
     s \<leftarrow> s_worker_send env w MDPW_HEARTBEAT None None s;
     send_heartbeats env ws s
   }"

definition broker_heartbeat ::
  "('m, 'wl, 'ql, 'wh, 'sh) mdp_env
   \<Rightarrow> ('m, 'wl, 'ql, 'wh, 'sh) broker_t \<Rightarrow> ('m, 'wl, 'ql, 'wh, 'sh) broker_t option" where
  "broker_heartbeat env s = (let (now, s) = zclock_time env s in
     if now > b_heartbeat_at s then do {
       s \<leftarrow> s_broker_purge env s;
       s \<leftarrow> send_heartbeats env (zl_items (e_wl env) (b_waiting s)) s;
       let (now, s) = zclock_time env s;
       Some (s\<lparr>b_heartbeat_at := now + HEARTBEAT_INTERVAL\<rparr>)
     } else Some s)"

definition broker_recv ::
  "('m, 'wl, 'ql, 'wh, 'sh) mdp_env \<Rightarrow> 'm
   \<Rightarrow> ('m, 'wl, 'ql, 'wh, 'sh) broker_t \<Rightarrow> ('m, 'wl, 'ql, 'wh, 'sh) broker_t option" where
  "broker_recv env msg s = do {
     let zg = e_msg env;
     let (sender, msg) = zg_pop zg msg;
     let (_, msg) = zg_pop zg msg;
     let (header, msg) = zg_pop zg msg;
     header \<leftarrow> header;
     sender \<leftarrow> sender;
     if header = MDPC_CLIENT then s_broker_client_msg env sender msg s
     else if header = MDPW_WORKER then s_broker_worker_msg env sender msg s
     else Some s
   }"

fun broker_turn ::
  "('m, 'wl, 'ql, 'wh, 'sh) mdp_env \<Rightarrow> 'm poll
   \<Rightarrow> ('m, 'wl, 'ql, 'wh, 'sh) broker_t \<Rightarrow> ('m, 'wl, 'ql, 'wh, 'sh) broker_t option option" where
  "broker_turn env Poll_error s = Some None"
| "broker_turn env No_input s = map_option Some (broker_heartbeat env s)"
| "broker_turn env Recv_null s = Some None"
| "broker_turn env (Recv msg) s = map_option Some (Option.bind (broker_recv env msg s) (broker_heartbeat env))"

fun broker_run ::
  "('m, 'wl, 'ql, 'wh, 'sh) mdp_env \<Rightarrow> 'm poll list
   \<Rightarrow> ('m, 'wl, 'ql, 'wh, 'sh) broker_t \<Rightarrow> ('m, 'wl, 'ql, 'wh, 'sh) broker_t option" where
  "broker_run env [] s = Some s"
| "broker_run env (i # is) s = do {
     r \<leftarrow> broker_turn env i s;
     (case r of None \<Rightarrow> Some s | Some s1 \<Rightarrow> broker_run env is s1)
   }"

text \<open>
  \<^verbatim>\<open>s_broker_destroy\<close>: \<^verbatim>\<open>zhash_destroy\<close> calls the free function of every item.
\<close>

fun destroy_items ::
  "(ptr \<Rightarrow> 's \<Rightarrow> 's option) \<Rightarrow> (byte list \<times> ptr) list \<Rightarrow> 's \<Rightarrow> 's option" where
  "destroy_items f [] s = Some s"
| "destroy_items f ((_, p) # ps) s = Option.bind (f p s) (destroy_items f ps)"

definition s_broker_destroy ::
  "('m, 'wl, 'ql, 'wh, 'sh) mdp_env
   \<Rightarrow> ('m, 'wl, 'ql, 'wh, 'sh) broker_t \<Rightarrow> ('m, 'wl, 'ql, 'wh, 'sh) broker_t option" where
  "s_broker_destroy env s = do {
     s \<leftarrow> destroy_items s_service_destroy (zh_items (e_sh env) (b_services s)) s;
     destroy_items s_worker_destroy (zh_items (e_wh env) (b_workers s)) s
   }"

end
