(* ===== verification/Broker_Invariant.thy ===== *)
theory Broker_Invariant
  imports Mdbroker
begin

text \<open>
  What the Majordomo broker keeps true. \<open>broker_view\<close> relates the two tables, the objects, the
  waiting list of the broker and the waiting lists and worker counts of the services, as maps
  and lists; \<open>broker_inv\<close> states it of the state of the broker. \<open>quiet\<close> says that no service
  has both a waiting worker and a request in its queue.
\<close>

section \<open>The invariant on maps and lists\<close>

definition serves :: "(ptr \<rightharpoonup> worker_t) \<Rightarrow> ptr \<Rightarrow> ptr \<Rightarrow> bool" where
  "serves W r p \<longleftrightarrow> (\<exists>w. W p = Some w \<and> wk_service w = r)"

text \<open>
  \<open>W\<close>, \<open>S\<close>: the workers and the services (name, waiting workers, number of workers) by address;
  \<open>T\<close>, \<open>ST\<close>: the two hash tables; \<open>ws\<close>: the waiting list of the broker.
\<close>

definition broker_view ::
  "(byte list \<Rightarrow> byte list) \<Rightarrow> (ptr \<rightharpoonup> worker_t) \<Rightarrow> (byte list \<rightharpoonup> ptr) \<Rightarrow>
   (ptr \<rightharpoonup> byte list \<times> ptr list \<times> 64 word) \<Rightarrow> (byte list \<rightharpoonup> ptr) \<Rightarrow> ptr list \<Rightarrow> bool" where
  "broker_view hex W T S ST ws \<longleftrightarrow>
     finite (dom W) \<and> S Null = None \<and>
     (\<forall>p w. W p = Some w \<longrightarrow> wk_id_string w = hex (wk_identity w) \<and> T (wk_id_string w) = Some p) \<and>
     (\<forall>k p. T k = Some p \<longrightarrow> (\<exists>w. W p = Some w \<and> wk_id_string w = k)) \<and>
     (\<forall>r n x c. S r = Some (n, x, c) \<longrightarrow> ST n = Some r) \<and>
     (\<forall>k r. ST k = Some r \<longrightarrow> (\<exists>x c. S r = Some (k, x, c))) \<and>
     (\<forall>p w. W p = Some w \<longrightarrow> wk_service w \<noteq> Null \<longrightarrow> S (wk_service w) \<noteq> None) \<and>
     distinct ws \<and> (\<forall>p\<in>set ws. \<exists>w. W p = Some w \<and> wk_service w \<noteq> Null) \<and>
     (\<forall>r n x c. S r = Some (n, x, c) \<longrightarrow> x = filter (serves W r) ws \<and> c = of_nat (card {p. serves W r p}))"

lemma broker_viewD:
  assumes "broker_view hex W T S ST ws"
  shows "finite (dom W)" and "S Null = None"
    and "W p = Some w \<Longrightarrow> wk_id_string w = hex (wk_identity w)"
    and "W p = Some w \<Longrightarrow> T (wk_id_string w) = Some p"
    and "T k = Some p \<Longrightarrow> \<exists>w. W p = Some w \<and> wk_id_string w = k"
    and "S r = Some (n, x, c) \<Longrightarrow> ST n = Some r"
    and "ST k = Some r \<Longrightarrow> \<exists>x c. S r = Some (k, x, c)"
    and "W p = Some w \<Longrightarrow> wk_service w \<noteq> Null \<Longrightarrow> S (wk_service w) \<noteq> None"
    and "distinct ws"
    and "p \<in> set ws \<Longrightarrow> \<exists>w. W p = Some w \<and> wk_service w \<noteq> Null"
    and "S r = Some (n, x, c) \<Longrightarrow> x = filter (serves W r) ws"
    and "S r = Some (n, x, c) \<Longrightarrow> c = of_nat (card {p. serves W r p})"
  using assms unfolding broker_view_def by blast+

lemma broker_viewI:
  assumes "finite (dom W)" and "S Null = None"
    and "\<And>p w. W p = Some w \<Longrightarrow> wk_id_string w = hex (wk_identity w) \<and> T (wk_id_string w) = Some p"
    and "\<And>k p. T k = Some p \<Longrightarrow> \<exists>w. W p = Some w \<and> wk_id_string w = k"
    and "\<And>r n x c. S r = Some (n, x, c) \<Longrightarrow> ST n = Some r"
    and "\<And>k r. ST k = Some r \<Longrightarrow> \<exists>x c. S r = Some (k, x, c)"
    and "\<And>p w. W p = Some w \<Longrightarrow> wk_service w \<noteq> Null \<Longrightarrow> S (wk_service w) \<noteq> None"
    and "distinct ws"
    and "\<And>p. p \<in> set ws \<Longrightarrow> \<exists>w. W p = Some w \<and> wk_service w \<noteq> Null"
    and "\<And>r n x c. S r = Some (n, x, c) \<Longrightarrow> x = filter (serves W r) ws \<and> c = of_nat (card {p. serves W r p})"
  shows "broker_view hex W T S ST ws"
  unfolding broker_view_def using assms by (intro conjI allI impI ballI; blast)

lemma serves_finite: "finite (dom W) \<Longrightarrow> finite {p. serves W r p}"
  by (rule finite_subset [of _ "dom W"]) (auto simp: serves_def)

lemma serves_del: "serves (W(p := None)) r q \<longleftrightarrow> q \<noteq> p \<and> serves W r q"
  by (auto simp: serves_def)

lemma serves_upd: "serves (W(p \<mapsto> w)) r q \<longleftrightarrow> (if q = p then wk_service w = r else serves W r q)"
  by (auto simp: serves_def)

text \<open>Deleting worker \<open>p\<close>.\<close>

definition service_without :: "ptr \<Rightarrow> ptr \<Rightarrow> (ptr \<rightharpoonup> byte list \<times> ptr list \<times> 64 word) \<Rightarrow> (ptr \<rightharpoonup> byte list \<times> ptr list \<times> 64 word)" where
  "service_without p r S = (case S r of None \<Rightarrow> S | Some (n, x, c) \<Rightarrow> S(r \<mapsto> (n, remove1 p x, c - 1)))"

lemma service_without_cases:
  "service_without p r0 S r = (if r = r0 then map_option (\<lambda>(n, x, c). (n, remove1 p x, c - 1)) (S r) else S r)"
  by (auto simp: service_without_def split: option.splits)

lemma view_delete_lists:
  assumes v: "broker_view hex W T S ST ws" and w: "W p = Some w" and S: "service_without p (wk_service w) S r = Some (n, x, c)"
  shows "x = filter (serves (W(p := None)) r) (remove1 p ws) \<and> c = of_nat (card {q. serves (W(p := None)) r q})"
proof -
  note D = broker_viewD [OF v]
  have flt: "filter (serves (W(p := None)) r) (remove1 p ws) = remove1 p (filter (serves W r) ws)"
    using D(9) unfolding filter_remove1 [symmetric] by (intro filter_cong) (auto simp: serves_del)
  have set: "{q. serves (W(p := None)) r q} = {q. serves W r q} - {p}"
    by (auto simp: serves_del)
  show ?thesis
  proof (cases "r = wk_service w")
    case True
    then obtain y c' where y: "S r = Some (n, y, c')" "x = remove1 p y" "c = c' - 1"
      using S by (auto simp: service_without_cases)
    have p: "p \<in> {q. serves W r q}"
      using True w by (auto simp: serves_def)
    have "card {q. serves W r q} = Suc (card ({q. serves W r q} - {p}))"
      using card_Suc_Diff1 [OF serves_finite [OF D(1)] p] by simp
    then show ?thesis
      using D(11,12) [OF y(1)] y(2,3) by (simp add: flt set)
  next
    case False
    then have S': "S r = Some (n, x, c)"
      using S by (simp add: service_without_cases)
    have p: "\<not> serves W r p"
      using False w by (auto simp: serves_def)
    then show ?thesis
      using D(11,12) [OF S'] by (simp add: flt set remove1_idem)
  qed
qed

lemma view_delete:
  assumes v: "broker_view hex W T S ST ws" and w: "W p = Some w"
  shows "broker_view hex (W(p := None)) (T(wk_id_string w := None)) (service_without p (wk_service w) S) ST (remove1 p ws)"
proof -
  note D = broker_viewD [OF v]
  show ?thesis
  proof (rule broker_viewI)
    fix q w' assume "(W(p := None)) q = Some w'"
    then have q: "q \<noteq> p" "W q = Some w'" by (auto split: if_splits)
    then show "wk_id_string w' = hex (wk_identity w') \<and> (T(wk_id_string w := None)) (wk_id_string w') = Some q"
      using D(3,4) [OF q(2)] D(4) [OF w] by auto
    show "service_without p (wk_service w) S (wk_service w') \<noteq> None" if "wk_service w' \<noteq> Null"
      using D(8) [OF q(2) that] by (auto simp: service_without_cases)
  next
    fix k q assume "(T(wk_id_string w := None)) k = Some q"
    then have k: "k \<noteq> wk_id_string w" "T k = Some q" by (auto split: if_splits)
    then show "\<exists>w'. (W(p := None)) q = Some w' \<and> wk_id_string w' = k"
      using D(5) [OF k(2)] w by auto
  next
    fix q assume "q \<in> set (remove1 p ws)"
    then show "\<exists>w'. (W(p := None)) q = Some w' \<and> wk_service w' \<noteq> Null"
      using D(9,10) by auto
  next
    fix k r assume "ST k = Some r"
    then show "\<exists>x c. service_without p (wk_service w) S r = Some (k, x, c)"
      using D(7) [of k r] by (auto simp: service_without_cases)
  qed (use D(1,2,6,9) view_delete_lists [OF v w] in \<open>auto simp: service_without_cases split: if_splits\<close>)
qed

text \<open>A new worker, not yet assigned to a service, and a new service.\<close>

lemma view_new_worker:
  assumes v: "broker_view hex W T S ST ws" and p: "W p = None" and i: "T (hex i) = None"
  shows "broker_view hex (W(p \<mapsto> \<lparr>wk_id_string = hex i, wk_identity = i, wk_service = Null, wk_expiry = e\<rparr>))
    (T(hex i \<mapsto> p)) S ST ws"
proof -
  note D = broker_viewD [OF v]
  let ?W = "W(p \<mapsto> \<lparr>wk_id_string = hex i, wk_identity = i, wk_service = Null, wk_expiry = e\<rparr>)"
  have srv: "serves ?W r = serves W r" if "S r \<noteq> None" for r
    using D(2) that p by (auto simp: serves_def fun_eq_iff)
  show ?thesis
  proof (rule broker_viewI)
    fix q w assume "?W q = Some w"
    then show "wk_id_string w = hex (wk_identity w) \<and> (T(hex i \<mapsto> p)) (wk_id_string w) = Some q"
      using D(3,4) [of q w] i by (auto split: if_splits)
    show "S (wk_service w) \<noteq> None" if "wk_service w \<noteq> Null"
      using \<open>?W q = Some w\<close> that D(8) [of q w] by (auto split: if_splits)
  next
    fix k q assume "(T(hex i \<mapsto> p)) k = Some q"
    then show "\<exists>w. ?W q = Some w \<and> wk_id_string w = k"
      using D(5) [of k q] p by (auto split: if_splits)
  next
    fix q assume "q \<in> set ws"
    then show "\<exists>w. ?W q = Some w \<and> wk_service w \<noteq> Null"
      using D(10) [of q] p by (metis fun_upd_other option.distinct(1))
  next
    fix r n x c assume "S r = Some (n, x, c)"
    then show "x = filter (serves ?W r) ws \<and> c = of_nat (card {q. serves ?W r q})"
      using D(11,12) [of r n x c] by (simp add: srv)
  qed (use D(1,2,6,7,9) in auto)
qed

lemma view_new_service:
  assumes v: "broker_view hex W T S ST ws" and r: "S r = None" "r \<noteq> Null" "ST n = None"
  shows "broker_view hex W T (S(r \<mapsto> (n, [], 0))) (ST(n \<mapsto> r)) ws"
proof -
  note D = broker_viewD [OF v]
  have no: "\<not> serves W r p" for p
    using D(8) [of p] r(1,2) by (auto simp: serves_def)
  show ?thesis
  proof (rule broker_viewI)
    fix r' n' x c assume S: "(S(r \<mapsto> (n, [], 0))) r' = Some (n', x, c)"
    then show "(ST(n \<mapsto> r)) n' = Some r'"
      using D(6) [of r' n' x c] r(3) by (auto split: if_splits)
    show "x = filter (serves W r') ws \<and> c = of_nat (card {p. serves W r' p})"
      using S D(11,12) [of r' n' x c] no by (auto split: if_splits)
  next
    fix k r' assume "(ST(n \<mapsto> r)) k = Some r'"
    then show "\<exists>x c. (S(r \<mapsto> (n, [], 0))) r' = Some (k, x, c)"
      using D(7) [of k r'] r(1) by (auto split: if_splits)
  qed (use D(1-5,8-10) r(2) in auto)
qed

text \<open>Assigning a new worker to a service.\<close>

lemma view_assign:
  assumes v: "broker_view hex W T S ST ws" and w: "W p = Some w" "wk_service w = Null"
    and S: "S r = Some (n, x, c)"
  shows "broker_view hex (W(p \<mapsto> w\<lparr>wk_service := r\<rparr>)) T (S(r \<mapsto> (n, x, c + 1))) ST ws"
proof -
  note D = broker_viewD [OF v]
  let ?W = "W(p \<mapsto> w\<lparr>wk_service := r\<rparr>)"
  have r: "r \<noteq> Null" and p: "p \<notin> set ws"
    using D(2) S D(10) [of p] w by auto
  have flt: "filter (serves ?W r') ws = filter (serves W r') ws" for r'
    using p by (intro filter_cong) (auto simp: serves_upd)
  have "{q. serves ?W r q} = insert p {q. serves W r q}" "p \<notin> {q. serves W r q}"
    using w r by (auto simp: serves_upd serves_def)
  then have card: "card {q. serves ?W r q} = Suc (card {q. serves W r q})"
    using serves_finite [OF D(1), of r] by simp
  have other: "serves ?W r' = serves W r'" if "r' \<noteq> r" "S r' \<noteq> None" for r'
    using that w D(2) by (auto simp: fun_eq_iff serves_upd serves_def)
  show ?thesis
  proof (rule broker_viewI)
    fix r' n' x' c' assume S': "(S(r \<mapsto> (n, x, c + 1))) r' = Some (n', x', c')"
    show "x' = filter (serves ?W r') ws \<and> c' = of_nat (card {q. serves ?W r' q})"
      using S' D(11,12) [OF S] D(11,12) [of r' n' x' c'] other [of r']
      by (cases "r' = r") (auto simp: card flt)
  next
    fix q w' assume "?W q = Some w'" "wk_service w' \<noteq> Null"
    then show "(S(r \<mapsto> (n, x, c + 1))) (wk_service w') \<noteq> None"
      using D(8) [of q w'] by (auto split: if_splits)
  next
    fix k q assume "T k = Some q"
    then show "\<exists>w'. ?W q = Some w' \<and> wk_id_string w' = k"
      using D(5) [of k q] w(1) by auto
  next
    fix q assume "q \<in> set ws"
    then show "\<exists>w'. ?W q = Some w' \<and> wk_service w' \<noteq> Null"
      using D(10) [of q] p by auto
  next
    fix k r' assume "ST k = Some r'"
    then show "\<exists>x' c'. (S(r \<mapsto> (n, x, c + 1))) r' = Some (k, x', c')"
      using D(7) [of k r'] S by auto
  qed (use D(1-4,6,9) w S r in \<open>auto split: if_splits\<close>)
qed

text \<open>Worker \<open>p\<close> starts to wait; the first waiting worker of a service is taken; a new expiry.\<close>

lemma view_wait:
  assumes v: "broker_view hex W T S ST ws" and w: "W p = Some w" "wk_service w = r" "p \<notin> set ws"
    and S: "S r = Some (n, x, c)"
  shows "broker_view hex W T (S(r \<mapsto> (n, x @ [p], c))) ST (ws @ [p])"
proof -
  note D = broker_viewD [OF v]
  have r: "r \<noteq> Null"
    using D(2) S by auto
  have p: "serves W r' p \<longleftrightarrow> r' = r" for r'
    using w by (auto simp: serves_def)
  show ?thesis
  proof (rule broker_viewI)
    fix r' n' x' c' assume S': "(S(r \<mapsto> (n, x @ [p], c))) r' = Some (n', x', c')"
    show "x' = filter (serves W r') (ws @ [p]) \<and> c' = of_nat (card {q. serves W r' q})"
      using S' D(11,12) [OF S] D(11,12) [of r' n' x' c'] by (cases "r' = r") (auto simp: p)
  next
    fix k r' assume "ST k = Some r'"
    then show "\<exists>x' c'. (S(r \<mapsto> (n, x @ [p], c))) r' = Some (k, x', c')"
      using D(7) [of k r'] S by auto
  qed (use D(1-6,8-10) w S r in \<open>auto split: if_splits\<close>)
qed

lemma view_pop:
  assumes v: "broker_view hex W T S ST ws" and S: "S r = Some (n, p # x, c)"
  shows "broker_view hex W T (S(r \<mapsto> (n, x, c))) ST (remove1 p ws)"
proof -
  note D = broker_viewD [OF v]
  have r: "r \<noteq> Null"
    using D(2) S by auto
  have ps: "filter (serves W r) ws = p # x"
    using D(11) [OF S] by simp
  then have p: "serves W r p"
    by (metis Cons_eq_filterD)
  show ?thesis
  proof (rule broker_viewI)
    fix r' n' x' c' assume S': "(S(r \<mapsto> (n, x, c))) r' = Some (n', x', c')"
    have "filter (serves W r') (remove1 p ws) = (if r' = r then x else filter (serves W r') ws)"
    proof (cases "r' = r")
      case True
      then show ?thesis
        using ps by (simp add: filter_remove1)
    next
      case False
      then have "p \<notin> set (filter (serves W r') ws)"
        using p by (auto simp: serves_def)
      then show ?thesis
        using False by (simp add: filter_remove1 remove1_idem)
    qed
    then show "x' = filter (serves W r') (remove1 p ws) \<and> c' = of_nat (card {q. serves W r' q})"
      using S' D(12) [OF S] D(11,12) [of r' n' x' c'] by (auto split: if_splits)
  next
    fix k r' assume "ST k = Some r'"
    then show "\<exists>x' c'. (S(r \<mapsto> (n, x, c))) r' = Some (k, x', c')"
      using D(7) [of k r'] S by auto
  qed (use D(1-6,8-10) S r in \<open>auto split: if_splits dest: notin_set_remove1\<close>)
qed

lemma view_expiry:
  assumes v: "broker_view hex W T S ST ws" and w: "W p = Some w"
  shows "broker_view hex (W(p \<mapsto> w\<lparr>wk_expiry := e\<rparr>)) T S ST ws"
proof -
  note D = broker_viewD [OF v]
  have srv: "serves (W(p \<mapsto> w\<lparr>wk_expiry := e\<rparr>)) r = serves W r" for r
    using w by (auto simp: serves_def fun_eq_iff)
  show ?thesis
  proof (rule broker_viewI)
    fix k q assume "T k = Some q"
    then show "\<exists>w'. (W(p \<mapsto> w\<lparr>wk_expiry := e\<rparr>)) q = Some w' \<and> wk_id_string w' = k"
      using D(5) [of k q] w by auto
  next
    fix q assume "q \<in> set ws"
    then show "\<exists>w'. (W(p \<mapsto> w\<lparr>wk_expiry := e\<rparr>)) q = Some w' \<and> wk_service w' \<noteq> Null"
      using D(10) [of q] w by auto
  qed (use D w in \<open>auto simp: srv split: if_splits\<close>)
qed

section \<open>The invariant of the state\<close>

definition mdp_laws :: "('m, 'wl, 'ql, 'wh, 'sh) mdp_env \<Rightarrow> bool" where
  "mdp_laws env \<longleftrightarrow> zmsg_laws (e_msg env) \<and> zlist_laws (e_wl env) \<and> zlist_laws (e_ql env) \<and>
     zhash_laws (e_wh env) \<and> zhash_laws (e_sh env)"

lemma mdp_lawsD [simp]:
  assumes "mdp_laws env"
  shows "zmsg_laws (e_msg env)" "zlist_laws (e_wl env)" "zlist_laws (e_ql env)"
    "zhash_laws (e_wh env)" "zhash_laws (e_sh env)"
  using assms unfolding mdp_laws_def by blast+

abbreviation waits :: "('m, 'wl, 'ql, 'wh, 'sh) mdp_env \<Rightarrow> ('m, 'wl, 'ql, 'wh, 'sh) broker_t \<Rightarrow> ptr list" where
  "waits env s \<equiv> zl_items (e_wl env) (b_waiting s)"

abbreviation swaits :: "('m, 'wl, 'ql, 'wh, 'sh) mdp_env \<Rightarrow> ('wl, 'ql) service_t \<Rightarrow> ptr list" where
  "swaits env v \<equiv> zl_items (e_wl env) (sv_waiting v)"

abbreviation sreqs :: "('m, 'wl, 'ql, 'wh, 'sh) mdp_env \<Rightarrow> ('wl, 'ql) service_t \<Rightarrow> 'm list" where
  "sreqs env v \<equiv> zl_items (e_ql env) (sv_requests v)"

abbreviation worker_at :: "('m, 'wl, 'ql, 'wh, 'sh) broker_t \<Rightarrow> ptr \<Rightarrow> worker_t option" where
  "worker_at s \<equiv> load (b_wmem s)"

abbreviation service_at :: "('m, 'wl, 'ql, 'wh, 'sh) broker_t \<Rightarrow> ptr \<Rightarrow> ('wl, 'ql) service_t option" where
  "service_at s \<equiv> load (b_smem s)"

text \<open>What is known of a service but its requests, and its requests.\<close>

definition sv_view :: "('m, 'wl, 'ql, 'wh, 'sh) mdp_env \<Rightarrow> ('wl, 'ql) service_t \<Rightarrow> byte list \<times> ptr list \<times> 64 word" where
  "sv_view env v = (sv_name v, swaits env v, sv_workers v)"

definition sviews ::
  "('m, 'wl, 'ql, 'wh, 'sh) mdp_env \<Rightarrow> ('wl, 'ql) service_t mem \<Rightarrow> ptr \<rightharpoonup> byte list \<times> ptr list \<times> 64 word" where
  "sviews env m r = map_option (sv_view env) (load m r)"

definition reqs :: "('m, 'wl, 'ql, 'wh, 'sh) mdp_env \<Rightarrow> ('m, 'wl, 'ql, 'wh, 'sh) broker_t \<Rightarrow> ptr \<rightharpoonup> 'm list" where
  "reqs env s r = map_option (sreqs env) (service_at s r)"

definition broker_inv :: "('m, 'wl, 'ql, 'wh, 'sh) mdp_env \<Rightarrow> ('m, 'wl, 'ql, 'wh, 'sh) broker_t \<Rightarrow> bool" where
  "broker_inv env s \<longleftrightarrow> mem_wf (b_wmem s) \<and> mem_wf (b_smem s) \<and>
     fails (b_wmem s) = (\<lambda>_. False) \<and> fails (b_smem s) = (\<lambda>_. False) \<and>
     broker_view (zf_strhex (e_msg env)) (worker_at s) (zh_lookup (e_wh env) (b_workers s))
       (sviews env (b_smem s)) (zh_lookup (e_sh env) (b_services s)) (waits env s)"

definition quiet_on :: "ptr set \<Rightarrow> ('m, 'wl, 'ql, 'wh, 'sh) mdp_env \<Rightarrow> ('m, 'wl, 'ql, 'wh, 'sh) broker_t \<Rightarrow> bool" where
  "quiet_on A env s \<longleftrightarrow> (\<forall>r\<in>A. \<forall>v. service_at s r = Some v \<longrightarrow> swaits env v = [] \<or> sreqs env v = [])"

abbreviation quiet :: "('m, 'wl, 'ql, 'wh, 'sh) mdp_env \<Rightarrow> ('m, 'wl, 'ql, 'wh, 'sh) broker_t \<Rightarrow> bool" where
  "quiet \<equiv> quiet_on UNIV"

lemma reqs_irrelevant [simp]:
  "reqs env (s\<lparr>b_sent := x\<rparr>) = reqs env s" "reqs env (s\<lparr>b_tick := n\<rparr>) = reqs env s"
  "reqs env (s\<lparr>b_heartbeat_at := t\<rparr>) = reqs env s" "reqs env (s\<lparr>b_waiting := l\<rparr>) = reqs env s"
  "reqs env (s\<lparr>b_wmem := wm\<rparr>) = reqs env s" "reqs env (s\<lparr>b_workers := wh\<rparr>) = reqs env s"
  "reqs env (s\<lparr>b_services := sh\<rparr>) = reqs env s"
  by (simp_all add: reqs_def fun_eq_iff)

lemma inv_irrelevant [simp]:
  "broker_inv env (s\<lparr>b_sent := x\<rparr>) = broker_inv env s" "broker_inv env (s\<lparr>b_tick := n\<rparr>) = broker_inv env s"
  "broker_inv env (s\<lparr>b_heartbeat_at := t\<rparr>) = broker_inv env s"
  "quiet_on A env (s\<lparr>b_sent := x\<rparr>) = quiet_on A env s" "quiet_on A env (s\<lparr>b_tick := n\<rparr>) = quiet_on A env s"
  "quiet_on A env (s\<lparr>b_heartbeat_at := t\<rparr>) = quiet_on A env s"
  by (simp_all add: broker_inv_def quiet_on_def)

lemma sviews_upd: "load m' = (load m)(r \<mapsto> v) \<Longrightarrow> sviews env m' = (sviews env m)(r \<mapsto> sv_view env v)"
  by (auto simp: sviews_def fun_eq_iff)

lemma reqs_upd: "load m' = (service_at s)(r \<mapsto> v) \<Longrightarrow> reqs env (s\<lparr>b_smem := m'\<rparr>) = (reqs env s)(r \<mapsto> sreqs env v)"
  by (auto simp: reqs_def fun_eq_iff)

lemma broker_invD:
  assumes "broker_inv env s"
  shows "mem_wf (b_wmem s)" "mem_wf (b_smem s)" "fails (b_wmem s) = (\<lambda>_. False)" "fails (b_smem s) = (\<lambda>_. False)"
    "broker_view (zf_strhex (e_msg env)) (worker_at s) (zh_lookup (e_wh env) (b_workers s))
       (sviews env (b_smem s)) (zh_lookup (e_sh env) (b_services s)) (waits env s)"
  using assms by (auto simp: broker_inv_def)

lemma inv_service_waits:
  assumes "broker_inv env s" and "service_at s r = Some v"
  shows "swaits env v = filter (serves (worker_at s) r) (waits env s)"
    and "sv_workers v = of_nat (card {p. serves (worker_at s) r p})"
    and "zh_lookup (e_sh env) (b_services s) (sv_name v) = Some r"
proof -
  have "sviews env (b_smem s) r = Some (sv_name v, swaits env v, sv_workers v)"
    using assms(2) by (simp add: sviews_def sv_view_def)
  from broker_viewD(6,11,12) [OF broker_invD(5) [OF assms(1)] this] show
    "swaits env v = filter (serves (worker_at s) r) (waits env s)"
    "sv_workers v = of_nat (card {p. serves (worker_at s) r p})"
    "zh_lookup (e_sh env) (b_services s) (sv_name v) = Some r"
    by blast+
qed

lemma quiet_iff:
  assumes "broker_inv env s"
  shows "quiet_on A env s \<longleftrightarrow>
    (\<forall>r\<in>A. \<forall>l. reqs env s r = Some l \<longrightarrow> l = [] \<or> (\<forall>p\<in>set (waits env s). \<not> serves (worker_at s) r p))"
  using inv_service_waits(1) [OF assms] by (fastforce simp: quiet_on_def reqs_def filter_empty_conv)

section \<open>Sending and deleting\<close>

lemma worker_send_ok:
  assumes "mdp_laws env" and "worker_at s p = Some w"
  shows "\<exists>m. s_worker_send env p command opt msg s = Some (s\<lparr>b_sent := b_sent s @ [m]\<rparr>) \<and>
    zg_frames (e_msg env) m = wk_identity w # [] # MDPW_WORKER # command # (case opt of None \<Rightarrow> [] | Some f \<Rightarrow> [f]) @
      (case msg of None \<Rightarrow> [] | Some x \<Rightarrow> zg_frames (e_msg env) x)"
  using assms by (auto simp: s_worker_send_def Let_def split: option.splits)

text \<open>What a deletion of worker \<open>p\<close> does.\<close>

definition deleted ::
  "('m, 'wl, 'ql, 'wh, 'sh) mdp_env \<Rightarrow> ptr \<Rightarrow> ('m, 'wl, 'ql, 'wh, 'sh) broker_t \<Rightarrow> ('m, 'wl, 'ql, 'wh, 'sh) broker_t \<Rightarrow> bool" where
  "deleted env p s s' \<longleftrightarrow> broker_inv env s' \<and> worker_at s' = (worker_at s)(p := None) \<and>
     waits env s' = remove1 p (waits env s) \<and> b_services s' = b_services s \<and> reqs env s' = reqs env s \<and>
     b_tick s' = b_tick s"

lemma worker_delete_ok:
  assumes laws: "mdp_laws env" and inv: "broker_inv env s" and w: "worker_at s p = Some w"
  shows "\<exists>s'. s_worker_delete env p disconnect s = Some s' \<and> deleted env p s s' \<and>
    (\<exists>xs. b_sent s' = b_sent s @ xs \<and> map (zg_frames (e_msg env)) xs =
       (if disconnect then [[wk_identity w, [], MDPW_WORKER, MDPW_DISCONNECT]] else []))"
proof -
  note D = broker_invD [OF inv] and V = broker_viewD [OF broker_invD(5) [OF inv]]
  let ?T = "zh_lookup (e_wh env) (b_workers s)" and ?r = "wk_service w"
  have T: "?T (wk_id_string w) = Some p"
    by (rule V(4) [OF w])
  obtain xs where xs: "(if disconnect then s_worker_send env p MDPW_DISCONNECT None None s else Some s) =
      Some (s\<lparr>b_sent := b_sent s @ xs\<rparr>)"
    "map (zg_frames (e_msg env)) xs = (if disconnect then [[wk_identity w, [], MDPW_WORKER, MDPW_DISCONNECT]] else [])"
    using worker_send_ok [OF laws w, of MDPW_DISCONNECT None None] by (cases disconnect) auto
  obtain smem where sm: "(if ?r \<noteq> Null then do {
         sv \<leftarrow> service_at s ?r;
         store (b_smem s) ?r
           (sv\<lparr>sv_waiting := zl_remove (e_wl env) p (sv_waiting sv), sv_workers := sv_workers sv - 1\<rparr>)
       } else Some (b_smem s)) = Some smem"
    "mem_wf smem" "fails smem = (\<lambda>_. False)" "sviews env smem = service_without p ?r (sviews env (b_smem s))"
    "reqs env (s\<lparr>b_smem := smem\<rparr>) = reqs env s"
  proof (cases "?r = Null")
    case True
    have "service_without p Null (sviews env (b_smem s)) = sviews env (b_smem s)"
      using V(2) by (simp add: service_without_def)
    then show thesis
      using True D(2,4) that [of "b_smem s"] by simp
  next
    case False
    then obtain sv where sv: "service_at s ?r = Some sv"
      using V(8) [OF w] by (auto simp: sviews_def)
    let ?sv = "sv\<lparr>sv_waiting := zl_remove (e_wl env) p (sv_waiting sv), sv_workers := sv_workers sv - 1\<rparr>"
    obtain m' where m': "store (b_smem s) ?r ?sv = Some m'" "load m' = (service_at s)(?r \<mapsto> ?sv)"
      "fails m' = (\<lambda>_. False)" "mem_wf m'"
      using store_live [OF sv, of ?sv] D(2,4) by auto
    have "sviews env m' = service_without p ?r (sviews env (b_smem s))"
      unfolding sviews_upd [OF m'(2)] using sv laws by (simp add: service_without_def sviews_def sv_view_def)
    moreover have "reqs env (s\<lparr>b_smem := m'\<rparr>) = reqs env s"
      unfolding reqs_upd [OF m'(2)] using sv by (auto simp: reqs_def fun_eq_iff)
    ultimately show thesis
      using that [of m'] m' False sv by simp
  qed
  obtain wmem where wm: "mem_free (b_wmem s) p = Some wmem" "load wmem = (worker_at s)(p := None)"
    "fails wmem = (\<lambda>_. False)" "mem_wf wmem"
    using free_live [OF w] D(1,3) by auto
  let ?s = "s\<lparr>b_smem := smem, b_waiting := zl_remove (e_wl env) p (b_waiting s),
    b_workers := zh_delete (e_wh env) (wk_id_string w) (b_workers s), b_wmem := wmem\<rparr>"
  have "broker_inv env ?s"
    using view_delete [OF D(5) w] sm(2-4) wm(2-4) laws by (simp add: broker_inv_def)
  then have "deleted env p s (?s\<lparr>b_sent := b_sent s @ xs\<rparr>)"
    using sm(5) wm(2) laws by (simp add: deleted_def)
  moreover have "s_worker_delete env p disconnect s = Some (?s\<lparr>b_sent := b_sent s @ xs\<rparr>)"
    using sm(1) T w wm(1) unfolding s_worker_delete_def xs(1)
    by (auto simp: s_worker_destroy_def Let_def bind_eq_Some_conv split: if_splits)
  ultimately show ?thesis
    using xs(2) by (intro exI conjI) auto
qed

lemma quiet_mono:
  assumes "broker_inv env s" and "broker_inv env s'" and "quiet_on A env s"
    and "\<And>r. r \<in> A \<Longrightarrow> reqs env s' r = reqs env s r" and "set (waits env s') \<subseteq> set (waits env s)"
    and "\<And>r p. serves (worker_at s') r p \<Longrightarrow> serves (worker_at s) r p"
  shows "quiet_on A env s'"
  using assms(3-) unfolding quiet_iff [OF assms(1)] quiet_iff [OF assms(2)] by fastforce

lemma deleted_quiet:
  assumes "broker_inv env s" and "quiet_on A env s" and "deleted env p s s'"
  shows "quiet_on A env s'"
  using assms(3) by (intro quiet_mono [OF assms(1) _ assms(2)]) (auto simp: deleted_def serves_del dest: subsetD [OF set_remove1_subset])

section \<open>Purging\<close>

text \<open>The first \<open>k\<close> waiting workers are deleted; each of them had expired, the next has not.\<close>

definition purged ::
  "('m, 'wl, 'ql, 'wh, 'sh) mdp_env \<Rightarrow> nat \<Rightarrow> ('m, 'wl, 'ql, 'wh, 'sh) broker_t \<Rightarrow> ('m, 'wl, 'ql, 'wh, 'sh) broker_t \<Rightarrow> bool" where
  "purged env k s s' \<longleftrightarrow> broker_inv env s' \<and> waits env s' = drop k (waits env s) \<and>
     worker_at s' = (\<lambda>p. if p \<in> set (take k (waits env s)) then None else worker_at s p) \<and>
     b_services s' = b_services s \<and> reqs env s' = reqs env s \<and> b_sent s' = b_sent s \<and>
     k \<le> length (waits env s) \<and> b_tick s' = b_tick s + k + (if k < length (waits env s) then 1 else 0) \<and>
     (\<forall>i<k. wk_expiry (the (worker_at s (waits env s ! i))) \<le> e_clock env (b_tick s + i)) \<and>
     (k < length (waits env s) \<longrightarrow> e_clock env (b_tick s + k) < wk_expiry (the (worker_at s (waits env s ! k))))"

lemma purge_loop_ok:
  assumes laws: "mdp_laws env" and inv: "broker_inv env s"
  shows "\<exists>k s'. purge_loop env (zl_first (e_wl env) (b_waiting s)) s = Some s' \<and> purged env k s s'"
  using inv
proof (induction "waits env s" arbitrary: s)
  case Nil
  then have "purge_loop env (zl_first (e_wl env) (b_waiting s)) s = Some s"
    using laws by (simp add: purge_loop.simps)
  moreover have "purged env 0 s s"
    using Nil by (auto simp: purged_def)
  ultimately show ?case by blast
next
  case (Cons p ps)
  note V = broker_viewD [OF broker_invD(5) [OF Cons.prems]]
  have "p \<in> set (waits env s)"
    by (simp flip: Cons.hyps(2))
  then obtain w where w: "worker_at s p = Some w"
    using V(10) by blast
  let ?s = "s\<lparr>b_tick := Suc (b_tick s)\<rparr>"
  have unf: "purge_loop env (zl_first (e_wl env) (b_waiting s)) s =
      (if e_clock env (b_tick s) < wk_expiry w then Some ?s
       else Option.bind (s_worker_delete env p False ?s) (\<lambda>s2. purge_loop env (zl_first (e_wl env) (b_waiting s2)) s2))"
    using laws w by (simp add: purge_loop.simps [of _ "Some _"] zclock_time_def flip: Cons.hyps(2))
  show ?case
  proof (cases "e_clock env (b_tick s) < wk_expiry w")
    case True
    moreover have "purged env 0 s ?s"
      using Cons.prems True w by (simp add: purged_def flip: Cons.hyps(2))
    ultimately show ?thesis
      using unf by auto
  next
    case False
    obtain s2 where s2: "s_worker_delete env p False ?s = Some s2" "deleted env p ?s s2" "b_sent s2 = b_sent s"
      using worker_delete_ok [OF laws, of ?s p w False] Cons.prems w by auto
    have ws: "waits env s2 = ps" and inv2: "broker_inv env s2"
      using s2(2) by (auto simp: deleted_def simp flip: Cons.hyps(2))
    obtain k s' where s': "purge_loop env (zl_first (e_wl env) (b_waiting s2)) s2 = Some s'" "purged env k s2 s'"
      using Cons.hyps(1) [OF ws [symmetric] inv2] by blast
    have dist: "p \<notin> set ps"
      using V(9) by (simp flip: Cons.hyps(2))
    have nth: "worker_at s2 (ps ! i) = worker_at s (ps ! i)" if "i < length ps" for i
      using s2(2) dist nth_mem [OF that] by (auto simp: deleted_def)
    have "purged env (Suc k) s s'"
      unfolding purged_def
    proof (intro conjI allI impI)
      fix i assume "i < Suc k"
      then show "wk_expiry (the (worker_at s (waits env s ! i))) \<le> e_clock env (b_tick s + i)"
        using s'(2) s2(2) False w nth
        by (cases i) (auto simp: purged_def deleted_def ws simp flip: Cons.hyps(2))
    next
      assume "Suc k < length (waits env s)"
      then show "e_clock env (b_tick s + Suc k) < wk_expiry (the (worker_at s (waits env s ! Suc k)))"
        using s'(2) s2(2) nth by (auto simp: purged_def deleted_def ws simp flip: Cons.hyps(2))
    qed (use s'(2) s2(2,3) in \<open>auto simp: purged_def deleted_def ws fun_eq_iff simp flip: Cons.hyps(2)\<close>)
    then show ?thesis
      using unf False s2(1) s'(1) by auto
  qed
qed

lemma broker_purge_ok:
  assumes "mdp_laws env" and "broker_inv env s"
  shows "\<exists>k s'. s_broker_purge env s = Some s' \<and> purged env k s s'"
  unfolding s_broker_purge_def by (rule purge_loop_ok [OF assms])

lemma purged_quiet:
  assumes "broker_inv env s" and "quiet_on A env s" and "purged env k s s'"
  shows "quiet_on A env s'"
  using assms(3) by (intro quiet_mono [OF assms(1) _ assms(2)])
    (auto simp: purged_def serves_def dest: in_set_dropD split: if_splits)

section \<open>Dispatching\<close>

definition request_frames ::
  "('m, 'wl, 'ql, 'wh, 'sh) mdp_env \<Rightarrow> ('m, 'wl, 'ql, 'wh, 'sh) broker_t \<Rightarrow> ptr \<times> 'm \<Rightarrow> byte list list" where
  "request_frames env s pm =
     wk_identity (the (worker_at s (fst pm))) # [] # MDPW_WORKER # MDPW_REQUEST # zg_frames (e_msg env) (snd pm)"

text \<open>
  The waiting workers \<open>ps\<close> of service \<open>r\<close> have been paired, in order, with its requests \<open>ms\<close>.
\<close>

definition dispatched ::
  "('m, 'wl, 'ql, 'wh, 'sh) mdp_env \<Rightarrow> ptr \<Rightarrow> ptr list \<Rightarrow> 'm list
   \<Rightarrow> ('m, 'wl, 'ql, 'wh, 'sh) broker_t \<Rightarrow> ('m, 'wl, 'ql, 'wh, 'sh) broker_t \<Rightarrow> bool" where
  "dispatched env r ps ms s s' \<longleftrightarrow> broker_inv env s' \<and> worker_at s' = worker_at s \<and> b_services s' = b_services s \<and>
     waits env s' = filter (\<lambda>p. p \<notin> set (take (length ms) ps)) (waits env s) \<and>
     reqs env s' = (reqs env s)(r \<mapsto> drop (length ps) ms) \<and>
     (\<exists>xs. b_sent s' = b_sent s @ xs \<and> map (zg_frames (e_msg env)) xs = map (request_frames env s) (zip ps ms))"

lemma dispatch_loop_ok:
  assumes laws: "mdp_laws env" and inv: "broker_inv env s" and v: "service_at s r = Some v"
    and ps: "swaits env v = ps" and ms: "sreqs env v = ms"
  shows "\<exists>s'. dispatch_loop env r s = Some s' \<and> dispatched env r ps ms s s'"
  using inv v ps ms
proof (induction ps arbitrary: s v ms)
  case Nil
  then have "dispatch_loop env r s = Some s"
    using laws by (simp add: dispatch_loop.simps)
  moreover have "reqs env s r = Some ms"
    using Nil by (simp add: reqs_def)
  ultimately show ?case
    using Nil by (auto simp: dispatched_def fun_upd_idem)
next
  case (Cons p ps)
  note D = broker_invD [OF Cons.prems(1)] and V = broker_viewD [OF broker_invD(5) [OF Cons.prems(1)]]
  show ?case
  proof (cases ms)
    case Nil
    then have "dispatch_loop env r s = Some s"
      using Cons.prems laws by (simp add: dispatch_loop.simps)
    moreover have "reqs env s r = Some []"
      using Cons.prems Nil by (simp add: reqs_def)
    ultimately show ?thesis
      using Cons.prems Nil by (auto simp: dispatched_def fun_upd_idem)
  next
    case (Cons m ms')
    let ?v = "v\<lparr>sv_waiting := snd (zl_pop (e_wl env) (sv_waiting v)), sv_requests := snd (zl_pop (e_ql env) (sv_requests v))\<rparr>"
    obtain smem where sm: "store (b_smem s) r ?v = Some smem" "load smem = (service_at s)(r \<mapsto> ?v)"
      "mem_wf smem" "fails smem = (\<lambda>_. False)"
      using store_live [OF Cons.prems(2), of ?v] D(2,4) by auto
    have S: "sviews env (b_smem s) r = Some (sv_name v, p # ps, sv_workers v)"
      using Cons.prems(2,3) by (simp add: sviews_def sv_view_def)
    have "p \<in> set (waits env s)"
      using V(11) [OF S] by (metis Cons_eq_filterD in_set_conv_decomp)
    then obtain w where w: "worker_at s p = Some w"
      using V(10) by blast
    let ?s = "s\<lparr>b_smem := smem, b_waiting := zl_remove (e_wl env) p (b_waiting s)\<rparr>"
    obtain x where x: "s_worker_send env p MDPW_REQUEST None (Some m) ?s = Some (?s\<lparr>b_sent := b_sent s @ [x]\<rparr>)"
      "zg_frames (e_msg env) x = request_frames env s (p, m)"
      using worker_send_ok [OF laws, of ?s p w MDPW_REQUEST None "Some m"] w by (auto simp: request_frames_def)
    let ?s1 = "?s\<lparr>b_sent := b_sent s @ [x]\<rparr>"
    have "sviews env smem = (sviews env (b_smem s))(r \<mapsto> (sv_name v, ps, sv_workers v))"
      unfolding sviews_upd [OF sm(2)] using laws Cons.prems(3) by (simp add: sv_view_def)
    then have inv1: "broker_inv env ?s1"
      using view_pop [OF D(5) S] sm(3,4) D(1,3) laws by (simp add: broker_inv_def)
    have v1: "service_at ?s1 r = Some ?v" "swaits env ?v = ps" "sreqs env ?v = ms'"
      using sm(2) laws Cons.prems(3,4) Cons by simp_all
    obtain s' where s': "dispatch_loop env r ?s1 = Some s'" "dispatched env r ps ms' ?s1 s'"
      using Cons.IH [OF inv1 v1] by blast
    have "dispatch_loop env r s = Some s'"
      using s'(1) x(1) sm(1) laws Cons.prems Cons
      by (subst dispatch_loop.simps) (simp del: fun_upd_apply)
    moreover have "dispatched env r (p # ps) ms s s'"
    proof -
      have rq: "reqs env ?s1 = (reqs env s)(r \<mapsto> ms')"
        using reqs_upd [OF sm(2), of env] v1(3) by (simp add: reqs_def fun_eq_iff)
      have "filter (\<lambda>q. q \<notin> set (take (length ms') ps)) (remove1 p (waits env s)) =
          filter (\<lambda>q. q \<notin> set (take (length ms) (p # ps))) (waits env s)"
        using V(9) by (auto simp: Cons distinct_remove1_removeAll removeAll_filter_not_eq intro!: filter_cong)
      then show ?thesis
        using s'(2) rq x(2) laws unfolding dispatched_def by (auto simp: Cons request_frames_def)
    qed
    ultimately show ?thesis by blast
  qed
qed

lemma dispatched_quiet:
  assumes "broker_inv env s" and "quiet_on (A - {r}) env s" and v: "service_at s r = Some v"
    and d: "dispatched env r (swaits env v) (sreqs env v) s s'"
  shows "quiet_on A env s'"
proof -
  have inv': "broker_inv env s'"
    using d by (simp add: dispatched_def)
  have "quiet_on (A - {r}) env s'"
    using d by (intro quiet_mono [OF assms(1) inv' assms(2)]) (auto simp: dispatched_def)
  moreover have "quiet_on {r} env s'"
    unfolding quiet_iff [OF inv']
  proof (intro ballI allI impI)
    fix r' l assume "r' \<in> {r}" "reqs env s' r' = Some l"
    then have "l = drop (length (swaits env v)) (sreqs env v)" and r: "r' = r"
      using d by (auto simp: dispatched_def)
    moreover have "\<forall>p\<in>set (waits env s'). \<not> serves (worker_at s') r p"
      if "length (swaits env v) \<le> length (sreqs env v)"
      using d that inv_service_waits(1) [OF assms(1) v] by (auto simp: dispatched_def)
    ultimately show "l = [] \<or> (\<forall>p\<in>set (waits env s'). \<not> serves (worker_at s') r' p)"
      by auto
  qed
  ultimately show ?thesis
    by (auto simp: quiet_on_def)
qed

text \<open>A message is appended to the requests of a service.\<close>

definition enqueued ::
  "('m, 'wl, 'ql, 'wh, 'sh) mdp_env \<Rightarrow> ptr \<Rightarrow> 'm list
   \<Rightarrow> ('m, 'wl, 'ql, 'wh, 'sh) broker_t \<Rightarrow> ('m, 'wl, 'ql, 'wh, 'sh) broker_t \<Rightarrow> bool" where
  "enqueued env r ms s s' \<longleftrightarrow> broker_inv env s' \<and> worker_at s' = worker_at s \<and> waits env s' = waits env s \<and>
     b_services s' = b_services s \<and> b_sent s' = b_sent s \<and> b_tick s' = b_tick s \<and>
     reqs env s' = (reqs env s)(r \<mapsto> the (reqs env s r) @ ms)"

lemma enqueue_ok:
  assumes laws: "mdp_laws env" and inv: "broker_inv env s" and v: "service_at s r = Some v"
  shows "\<exists>smem. store (b_smem s) r (v\<lparr>sv_requests := zl_append (e_ql env) m (sv_requests v)\<rparr>) = Some smem \<and>
    enqueued env r [m] s (s\<lparr>b_smem := smem\<rparr>)"
proof -
  let ?v = "v\<lparr>sv_requests := zl_append (e_ql env) m (sv_requests v)\<rparr>"
  obtain smem where sm: "store (b_smem s) r ?v = Some smem" "load smem = (service_at s)(r \<mapsto> ?v)"
    "mem_wf smem" "fails smem = (\<lambda>_. False)"
    using store_live [OF v, of ?v] broker_invD [OF inv] by auto
  have "sviews env smem = sviews env (b_smem s)"
    unfolding sviews_upd [OF sm(2)] using v by (auto simp: sviews_def sv_view_def fun_eq_iff)
  then have "broker_inv env (s\<lparr>b_smem := smem\<rparr>)"
    using sm(3,4) broker_invD [OF inv] by (simp add: broker_inv_def)
  then show ?thesis
    using sm(1) reqs_upd [OF sm(2), of env] v laws by (auto simp: enqueued_def reqs_def)
qed

lemma service_dispatch_ok:
  assumes laws: "mdp_laws env" and inv: "broker_inv env s" and r: "service_at s r \<noteq> None"
  shows "\<exists>s0 k s1 v1 s'. s_service_dispatch env r msg s = Some s' \<and>
    enqueued env r (case msg of None \<Rightarrow> [] | Some m \<Rightarrow> [m]) s s0 \<and> purged env k s0 s1 \<and>
    service_at s1 r = Some v1 \<and> dispatched env r (swaits env v1) (sreqs env v1) s1 s'"
proof -
  obtain v where v: "service_at s r = Some v"
    using r by auto
  obtain s0 where s0: "(case msg of None \<Rightarrow> Some s
      | Some m \<Rightarrow> do {
          sv \<leftarrow> service_at s r;
          smem \<leftarrow> store (b_smem s) r (sv\<lparr>sv_requests := zl_append (e_ql env) m (sv_requests sv)\<rparr>);
          Some (s\<lparr>b_smem := smem\<rparr>)
        }) = Some s0" "enqueued env r (case msg of None \<Rightarrow> [] | Some m \<Rightarrow> [m]) s s0"
  proof (cases msg)
    case None
    have "enqueued env r [] s s"
      using inv v by (auto simp: enqueued_def reqs_def fun_upd_idem)
    then show thesis
      using None that [of s] by simp
  next
    case (Some m)
    then show thesis
      using enqueue_ok [OF laws inv v, of m] v that by auto
  qed
  obtain k s1 where s1: "s_broker_purge env s0 = Some s1" "purged env k s0 s1"
    using broker_purge_ok [OF laws, of s0] s0(2) by (auto simp: enqueued_def)
  have "reqs env s1 r \<noteq> None" and inv1: "broker_inv env s1"
    using s0(2) s1(2) by (auto simp: enqueued_def purged_def)
  then obtain v1 where v1: "service_at s1 r = Some v1"
    by (auto simp: reqs_def)
  obtain s' where "dispatch_loop env r s1 = Some s'" "dispatched env r (swaits env v1) (sreqs env v1) s1 s'"
    using dispatch_loop_ok [OF laws inv1 v1 refl refl] by auto
  then show ?thesis
    using s0 s1 v1 unfolding s_service_dispatch_def s0(1) by (intro exI conjI) auto
qed

lemma service_dispatch_inv:
  assumes "mdp_laws env" and "broker_inv env s" and "service_at s r \<noteq> None" and "quiet_on (- {r}) env s"
  shows "\<exists>s'. s_service_dispatch env r msg s = Some s' \<and> broker_inv env s' \<and> quiet env s'"
proof -
  obtain s0 k s1 v1 s' where d: "s_service_dispatch env r msg s = Some s'"
    "enqueued env r (case msg of None \<Rightarrow> [] | Some m \<Rightarrow> [m]) s s0" "purged env k s0 s1"
    "service_at s1 r = Some v1" "dispatched env r (swaits env v1) (sreqs env v1) s1 s'"
    using service_dispatch_ok [OF assms(1-3)] by metis
  have inv: "broker_inv env s0" "broker_inv env s1" "broker_inv env s'"
    using d by (auto simp: enqueued_def purged_def dispatched_def)
  have "quiet_on (- {r}) env s0"
    using d(2) by (intro quiet_mono [OF assms(2) inv(1) assms(4)]) (auto simp: enqueued_def)
  then have "quiet_on (- {r}) env s1"
    by (rule purged_quiet [OF inv(1) _ d(3)])
  then have "quiet env s'"
    using dispatched_quiet [OF inv(2) _ d(4,5), of UNIV] by (simp add: Compl_eq_Diff_UNIV)
  then show ?thesis
    using d(1) inv(3) by blast
qed

section \<open>Workers and services on demand\<close>

lemma worker_require_ok:
  assumes laws: "mdp_laws env" and inv: "broker_inv env s"
  shows "\<exists>p s' w. s_worker_require env i s = Some (p, s') \<and> broker_inv env s' \<and> worker_at s' p = Some w \<and>
    wk_identity w = i \<and> waits env s' = waits env s \<and> b_smem s' = b_smem s \<and> b_services s' = b_services s \<and>
    b_sent s' = b_sent s \<and> b_tick s' = b_tick s \<and>
    (case zh_lookup (e_wh env) (b_workers s) (zf_strhex (e_msg env) i) of
       None \<Rightarrow> wk_service w = Null \<and> worker_at s p = None \<and> worker_at s' = (worker_at s)(p \<mapsto> w)
     | Some q \<Rightarrow> q = p \<and> s' = s)"
proof -
  note D = broker_invD [OF inv] and V = broker_viewD [OF broker_invD(5) [OF inv]]
  let ?hex = "zf_strhex (e_msg env)"
  let ?w = "\<lparr>wk_id_string = ?hex i, wk_identity = i, wk_service = Null, wk_expiry = 0\<rparr>"
  show ?thesis
  proof (cases "zh_lookup (e_wh env) (b_workers s) (?hex i)")
    case None
    obtain p m' where m': "zmalloc ?w (b_wmem s) = Some (p, m')" "worker_at s p = None"
      "load m' = (worker_at s)(p \<mapsto> ?w)" "fails m' = (\<lambda>_. False)" "mem_wf m'"
      using zmalloc_live [OF D(3,1), of ?w] by auto
    let ?s = "s\<lparr>b_wmem := m', b_workers := zh_insert (e_wh env) (?hex i) p (b_workers s)\<rparr>"
    have "broker_inv env ?s"
      using view_new_worker [OF D(5) m'(2) None, of 0] m'(3-5) D(2,4) None laws by (simp add: broker_inv_def)
    then show ?thesis
      using None m' by (auto simp: s_worker_require_def Let_def)
  next
    case (Some p)
    then obtain w where w: "worker_at s p = Some w" "wk_id_string w = ?hex i"
      using V(5) by blast
    then have "wk_identity w = i"
      using V(3) [OF w(1)] laws by simp
    then show ?thesis
      using Some w inv by (auto simp: s_worker_require_def)
  qed
qed

lemma service_require_ok:
  assumes laws: "mdp_laws env" and inv: "broker_inv env s"
  shows "\<exists>r s' v. s_service_require env (Some f) s = Some (r, s') \<and> broker_inv env s' \<and> service_at s' r = Some v \<and>
    sv_name v = c_bytes f \<and> waits env s' = waits env s \<and> b_wmem s' = b_wmem s \<and> b_workers s' = b_workers s \<and>
    b_sent s' = b_sent s \<and> b_tick s' = b_tick s \<and>
    (case zh_lookup (e_sh env) (b_services s) (c_bytes f) of
       None \<Rightarrow> sreqs env v = [] \<and> swaits env v = [] \<and> reqs env s r = None \<and> reqs env s' = (reqs env s)(r \<mapsto> [])
     | Some q \<Rightarrow> q = r \<and> s' = s)"
proof -
  note D = broker_invD [OF inv] and V = broker_viewD [OF broker_invD(5) [OF inv]]
  let ?v = "\<lparr>sv_name = c_bytes f, sv_requests = zl_new (e_ql env), sv_waiting = zl_new (e_wl env), sv_workers = 0\<rparr>"
  show ?thesis
  proof (cases "zh_lookup (e_sh env) (b_services s) (c_bytes f)")
    case None
    obtain r m' where m': "zmalloc ?v (b_smem s) = Some (r, m')" "service_at s r = None" "r \<noteq> Null"
      "load m' = (service_at s)(r \<mapsto> ?v)" "fails m' = (\<lambda>_. False)" "mem_wf m'"
      using zmalloc_live [OF D(4,2), of ?v] by auto
    let ?s = "s\<lparr>b_smem := m', b_services := zh_insert (e_sh env) (c_bytes f) r (b_services s)\<rparr>"
    have "sviews env m' = (sviews env (b_smem s))(r \<mapsto> (c_bytes f, [], 0))"
      unfolding sviews_upd [OF m'(4)] using laws by (simp add: sv_view_def)
    moreover have "sviews env (b_smem s) r = None"
      using m'(2) by (simp add: sviews_def)
    ultimately have "broker_inv env ?s"
      using view_new_service [OF D(5) _ m'(3) None] m'(5,6) D(1,3) None laws by (simp add: broker_inv_def)
    moreover have "reqs env ?s = (reqs env s)(r \<mapsto> [])" "reqs env s r = None"
      using reqs_upd [OF m'(4), of env] laws m'(2) by (simp_all add: reqs_def fun_eq_iff)
    ultimately show ?thesis
      using None m' laws by (auto simp: s_service_require_def Let_def)
  next
    case (Some r)
    then obtain x c where "sviews env (b_smem s) r = Some (c_bytes f, x, c)"
      using V(7) by blast
    then obtain v where "service_at s r = Some v" "sv_name v = c_bytes f"
      by (auto simp: sviews_def sv_view_def)
    then show ?thesis
      using Some inv by (auto simp: s_service_require_def)
  qed
qed

end
