(* ===== verification/Broker_Turns.thy ===== *)
theory Broker_Turns
  imports Broker_Invariant
begin

text \<open>
  The handlers and the main loop of the Majordomo broker: they keep the invariant and never
  run into undefined behaviour on messages that follow the protocol, and they route requests
  and replies. \<open>ok_msg\<close> is the part of the protocol that the broker relies on without checking it.
\<close>

section \<open>Handlers\<close>

lemma worker_waiting_step:
  assumes laws: "mdp_laws env" and inv: "broker_inv env s" and q: "quiet env s"
    and w: "worker_at s p = Some w" "wk_service w \<noteq> Null" "p \<notin> set (waits env s)"
  shows "\<exists>s1. s_worker_waiting env p s = s_service_dispatch env (wk_service w) None s1 \<and> broker_inv env s1 \<and>
    quiet_on (- {wk_service w}) env s1 \<and> service_at s1 (wk_service w) \<noteq> None \<and> waits env s1 = waits env s @ [p] \<and>
    worker_at s1 = (worker_at s)(p \<mapsto> w\<lparr>wk_expiry := e_clock env (b_tick s) + HEARTBEAT_EXPIRY\<rparr>) \<and>
    reqs env s1 = reqs env s \<and> b_sent s1 = b_sent s \<and> b_tick s1 = Suc (b_tick s)"
proof -
  note D = broker_invD [OF inv] and V = broker_viewD [OF broker_invD(5) [OF inv]]
  let ?r = "wk_service w" and ?w = "w\<lparr>wk_expiry := e_clock env (b_tick s) + HEARTBEAT_EXPIRY\<rparr>"
  obtain v where v: "service_at s ?r = Some v"
    using V(8) [OF w(1,2)] by (auto simp: sviews_def)
  let ?v = "v\<lparr>sv_waiting := zl_append (e_wl env) p (sv_waiting v)\<rparr>"
  obtain smem where sm: "store (b_smem s) ?r ?v = Some smem" "load smem = (service_at s)(?r \<mapsto> ?v)"
    "mem_wf smem" "fails smem = (\<lambda>_. False)"
    using store_live [OF v, of ?v] D(2,4) by auto
  obtain wmem where wm: "store (b_wmem s) p ?w = Some wmem" "load wmem = (worker_at s)(p \<mapsto> ?w)"
    "mem_wf wmem" "fails wmem = (\<lambda>_. False)"
    using store_live [OF w(1), of ?w] D(1,3) by auto
  let ?s = "s\<lparr>b_waiting := zl_append (e_wl env) p (b_waiting s), b_smem := smem, b_tick := Suc (b_tick s), b_wmem := wmem\<rparr>"
  have S: "sviews env (b_smem s) ?r = Some (sv_name v, swaits env v, sv_workers v)"
    using v by (simp add: sviews_def sv_view_def)
  have "sviews env smem = (sviews env (b_smem s))(?r \<mapsto> (sv_name v, swaits env v @ [p], sv_workers v))"
    unfolding sviews_upd [OF sm(2)] using laws by (simp add: sv_view_def)
  then have inv1: "broker_inv env ?s"
    using view_expiry [OF view_wait [OF D(5) w(1) refl w(3) S] w(1), of "e_clock env (b_tick s) + HEARTBEAT_EXPIRY"]
      sm(3,4) wm(2-4) laws by (simp add: broker_inv_def)
  have rq: "reqs env ?s = reqs env s"
    using reqs_upd [OF sm(2), of env] v by (auto simp: reqs_def fun_eq_iff)
  have "quiet_on (- {?r}) env ?s"
    using q w(1) laws unfolding quiet_iff [OF inv] quiet_iff [OF inv1] rq by (auto simp: wm(2) serves_def split: if_splits)
  then show ?thesis
    using inv1 rq sm wm w(1) v laws
    by (intro exI [of _ ?s]) (simp add: s_worker_waiting_def zclock_time_def Let_def)
qed

lemma worker_waiting_inv:
  assumes "mdp_laws env" and "broker_inv env s" and "quiet env s"
    and "worker_at s p = Some w" "wk_service w \<noteq> Null" "p \<notin> set (waits env s)"
  shows "\<exists>s'. s_worker_waiting env p s = Some s' \<and> broker_inv env s' \<and> quiet env s'"
  using worker_waiting_step [OF assms] service_dispatch_inv [OF assms(1)] by metis

lemma assign_ok:
  assumes laws: "mdp_laws env" and inv: "broker_inv env s" and q: "quiet env s"
    and w: "worker_at s p = Some w" "wk_service w = Null" and v: "service_at s r = Some v"
  shows "\<exists>wmem smem. store (b_wmem s) p (w\<lparr>wk_service := r\<rparr>) = Some wmem \<and>
    store (b_smem s) r (v\<lparr>sv_workers := sv_workers v + 1\<rparr>) = Some smem \<and> load wmem = (worker_at s)(p \<mapsto> w\<lparr>wk_service := r\<rparr>) \<and>
    broker_inv env (s\<lparr>b_wmem := wmem, b_smem := smem\<rparr>) \<and> quiet env (s\<lparr>b_wmem := wmem, b_smem := smem\<rparr>) \<and>
    r \<noteq> Null \<and> p \<notin> set (waits env s)"
proof -
  note D = broker_invD [OF inv] and V = broker_viewD [OF broker_invD(5) [OF inv]]
  let ?v = "v\<lparr>sv_workers := sv_workers v + 1\<rparr>" and ?w = "w\<lparr>wk_service := r\<rparr>"
  obtain smem where sm: "store (b_smem s) r ?v = Some smem" "load smem = (service_at s)(r \<mapsto> ?v)"
    "mem_wf smem" "fails smem = (\<lambda>_. False)"
    using store_live [OF v, of ?v] D(2,4) by auto
  obtain wmem where wm: "store (b_wmem s) p ?w = Some wmem" "load wmem = (worker_at s)(p \<mapsto> ?w)"
    "mem_wf wmem" "fails wmem = (\<lambda>_. False)"
    using store_live [OF w(1), of ?w] D(1,3) by auto
  let ?s = "s\<lparr>b_wmem := wmem, b_smem := smem\<rparr>"
  have S: "sviews env (b_smem s) r = Some (sv_name v, swaits env v, sv_workers v)"
    using v by (simp add: sviews_def sv_view_def)
  have "sviews env smem = (sviews env (b_smem s))(r \<mapsto> (sv_name v, swaits env v, sv_workers v + 1))"
    unfolding sviews_upd [OF sm(2)] by (simp add: sv_view_def)
  then have inv1: "broker_inv env ?s"
    using view_assign [OF D(5) w S] sm(3,4) wm(2-4) by (simp add: broker_inv_def)
  have rq: "reqs env ?s = reqs env s"
    using reqs_upd [OF sm(2), of env] v by (auto simp: reqs_def fun_eq_iff)
  have p: "p \<notin> set (waits env s)"
    using V(10) [of p] w by auto
  then have "quiet env ?s"
    using q unfolding quiet_iff [OF inv] quiet_iff [OF inv1] rq by (auto simp: wm(2) serves_def split: if_splits)
  moreover have "r \<noteq> Null"
    using v by auto
  ultimately show ?thesis
    using inv1 sm(1) wm(1,2) p by auto
qed

text \<open>
  What the handlers rely on without a check: a \<open>READY\<close> of a new worker names its service, a
  client sends at least two frames after the header, and a registered worker
  replies only when it has been given a request: it belongs to a service and is not waiting.
\<close>

fun ok_worker_msg ::
  "('m, 'wl, 'ql, 'wh, 'sh) mdp_env \<Rightarrow> ('m, 'wl, 'ql, 'wh, 'sh) broker_t \<Rightarrow> byte list \<Rightarrow> byte list list \<Rightarrow> bool" where
  "ok_worker_msg env s sender [] \<longleftrightarrow> False"
| "ok_worker_msg env s sender (command # fs) \<longleftrightarrow>
     (case zh_lookup (e_wh env) (b_workers s) (zf_strhex (e_msg env) sender) of
        None \<Rightarrow> command = MDPW_READY \<and> \<not> is_mmi sender \<longrightarrow> fs \<noteq> []
      | Some p \<Rightarrow> command = MDPW_REPLY \<longrightarrow> fs \<noteq> [] \<and> p \<notin> set (waits env s) \<and>
          (case worker_at s p of None \<Rightarrow> False | Some w \<Rightarrow> wk_service w \<noteq> Null))"

definition ok_msg ::
  "('m, 'wl, 'ql, 'wh, 'sh) mdp_env \<Rightarrow> ('m, 'wl, 'ql, 'wh, 'sh) broker_t \<Rightarrow> byte list list \<Rightarrow> bool" where
  "ok_msg env s frames \<longleftrightarrow> (\<exists>sender empty header fs. frames = sender # empty # header # fs \<and>
     (header = MDPC_CLIENT \<longrightarrow> length fs \<ge> 2) \<and> (header = MDPW_WORKER \<longrightarrow> ok_worker_msg env s sender fs))"

lemma worker_require_quiet:
  assumes "broker_inv env s" and "broker_inv env s'" and "quiet env s" and "b_smem s' = b_smem s"
  shows "quiet env s'"
  using assms by (simp add: quiet_on_def)

lemma service_require_quiet:
  assumes "broker_inv env s" and "broker_inv env s'" and "quiet env s" and "waits env s' = waits env s" and "b_wmem s' = b_wmem s"
    and "reqs env s' = reqs env s \<or> reqs env s' = (reqs env s)(r \<mapsto> [])"
  shows "quiet env s'"
  using assms(3-) unfolding quiet_iff [OF assms(1)] quiet_iff [OF assms(2)] by (fastforce split: if_splits)

lemma worker_delete_inv:
  assumes "mdp_laws env" and "broker_inv env s" and "quiet env s" and "worker_at s p = Some w"
  shows "\<exists>s'. s_worker_delete env p d s = Some s' \<and> broker_inv env s' \<and> quiet env s'"
  using worker_delete_ok [OF assms(1,2,4), of d] deleted_quiet [OF assms(2,3)] by (auto simp: deleted_def)

lemma worker_ready_ok:
  assumes laws: "mdp_laws env" and inv: "broker_inv env s" and q: "quiet env s"
    and w: "worker_at s p = Some w" "wk_service w = Null"
  shows "\<exists>s'. do {
       (service, s) \<leftarrow> s_service_require env (Some f) s;
       w \<leftarrow> worker_at s p;
       wmem \<leftarrow> store (b_wmem s) p (w\<lparr>wk_service := service\<rparr>);
       sv \<leftarrow> service_at s service;
       smem \<leftarrow> store (b_smem s) service (sv\<lparr>sv_workers := sv_workers sv + 1\<rparr>);
       s_worker_waiting env p (s\<lparr>b_wmem := wmem, b_smem := smem\<rparr>)
     } = Some s' \<and> broker_inv env s' \<and> quiet env s'"
proof -
  obtain r s1 v where r: "s_service_require env (Some f) s = Some (r, s1)" "broker_inv env s1" "service_at s1 r = Some v"
    "waits env s1 = waits env s" "b_wmem s1 = b_wmem s" "reqs env s1 = reqs env s \<or> reqs env s1 = (reqs env s)(r \<mapsto> [])"
    using service_require_ok [OF laws inv, of f] by (fastforce split: option.splits)
  have q1: "quiet env s1"
    by (rule service_require_quiet [OF inv r(2) q r(4-6)])
  obtain wmem smem where m: "store (b_wmem s1) p (w\<lparr>wk_service := r\<rparr>) = Some wmem"
    "store (b_smem s1) r (v\<lparr>sv_workers := sv_workers v + 1\<rparr>) = Some smem" "load wmem = (worker_at s1)(p \<mapsto> w\<lparr>wk_service := r\<rparr>)"
    "broker_inv env (s1\<lparr>b_wmem := wmem, b_smem := smem\<rparr>)" "quiet env (s1\<lparr>b_wmem := wmem, b_smem := smem\<rparr>)"
    "r \<noteq> Null" "p \<notin> set (waits env s1)"
    using assign_ok [OF laws r(2) q1 _ w(2) r(3), of p] w(1) r(5) by auto
  have "\<exists>s'. s_worker_waiting env p (s1\<lparr>b_wmem := wmem, b_smem := smem\<rparr>) = Some s' \<and> broker_inv env s' \<and> quiet env s'"
    using m by (intro worker_waiting_inv [OF laws m(4,5), of p "w\<lparr>wk_service := r\<rparr>"]) simp_all
  then show ?thesis
    using r(1,3,5) m(1,2) w(1) by auto
qed

lemmas command_defs = MDPW_READY_def MDPW_REPLY_def MDPW_HEARTBEAT_def MDPW_DISCONNECT_def

lemma worker_reply_ok:
  assumes laws: "mdp_laws env" and inv: "broker_inv env s" and q: "quiet env s"
    and w: "worker_at s p = Some w" "wk_service w \<noteq> Null" "p \<notin> set (waits env s)" and m: "zg_frames (e_msg env) m \<noteq> []"
  shows "\<exists>s'. do {
       client \<leftarrow> fst (zg_unwrap (e_msg env) m);
       w \<leftarrow> worker_at s p;
       sv \<leftarrow> service_at s (wk_service w);
       s_worker_waiting env p (s\<lparr>b_sent := b_sent s @ [zg_wrap (e_msg env) client
         (zg_push (e_msg env) MDPC_CLIENT (zg_push (e_msg env) (sv_name sv) (snd (zg_unwrap (e_msg env) m))))]\<rparr>)
     } = Some s' \<and> broker_inv env s' \<and> quiet env s'"
proof -
  obtain v where v: "service_at s (wk_service w) = Some v"
    using broker_viewD(8) [OF broker_invD(5) [OF inv] w(1,2)] by (auto simp: sviews_def)
  have "\<exists>s'. s_worker_waiting env p (s\<lparr>b_sent := x\<rparr>) = Some s' \<and> broker_inv env s' \<and> quiet env s'" for x
    using w inv q by (intro worker_waiting_inv [OF laws, of _ p w]) simp_all
  then show ?thesis
    using w(1) v m laws by auto
qed

lemma expiry_ok:
  assumes inv: "broker_inv env s" and q: "quiet env s" and w: "worker_at s p = Some w"
  shows "\<exists>wmem. store (b_wmem s) p (w\<lparr>wk_expiry := e\<rparr>) = Some wmem \<and> load wmem = (worker_at s)(p \<mapsto> w\<lparr>wk_expiry := e\<rparr>) \<and>
    broker_inv env (s\<lparr>b_wmem := wmem\<rparr>) \<and> quiet env (s\<lparr>b_wmem := wmem\<rparr>)"
  using store_live [OF w, of "w\<lparr>wk_expiry := e\<rparr>"] broker_invD [OF inv] view_expiry [OF broker_invD(5) [OF inv] w, of e] q
  by (auto simp: broker_inv_def quiet_on_def)

lemma worker_msg_ok:
  assumes laws: "mdp_laws env" and inv: "broker_inv env s" and q: "quiet env s"
    and ok: "ok_worker_msg env s sender (zg_frames (e_msg env) msg)"
  shows "\<exists>s'. s_broker_worker_msg env sender msg s = Some s' \<and> broker_inv env s' \<and> quiet env s'"
proof -
  obtain command fs where fs: "zg_frames (e_msg env) msg = command # fs"
    using ok by (cases "zg_frames (e_msg env) msg") auto
  let ?reg = "zh_lookup (e_wh env) (b_workers s) (zf_strhex (e_msg env) sender)"
  let ?m = "snd (zg_pop (e_msg env) msg)"
  obtain p s1 w where p: "s_worker_require env sender s = Some (p, s1)" "broker_inv env s1" "worker_at s1 p = Some w"
    "b_smem s1 = b_smem s" "?reg = None \<Longrightarrow> wk_service w = Null" "\<And>q. ?reg = Some q \<Longrightarrow> q = p \<and> s1 = s"
    using worker_require_ok [OF laws inv, of sender] by (cases ?reg) auto
  have q1: "quiet env s1"
    by (rule worker_require_quiet [OF inv p(2) q p(4)])
  note del = worker_delete_inv [OF laws p(2) q1 p(3)]
  consider "command = MDPW_READY" "?reg = None" "\<not> is_mmi sender" | "command = MDPW_REPLY" "?reg \<noteq> None"
    | "command = MDPW_HEARTBEAT" "?reg \<noteq> None"
    | "command = MDPW_READY \<and> (?reg \<noteq> None \<or> is_mmi sender) \<or> command \<in> {MDPW_REPLY, MDPW_HEARTBEAT} \<and> ?reg = None \<or>
        command = MDPW_DISCONNECT"
    | "command \<notin> {MDPW_READY, MDPW_REPLY, MDPW_HEARTBEAT, MDPW_DISCONNECT}"
    by (cases "?reg = None") auto
  then show ?thesis
  proof cases
    case 1
    then have "fst (zg_pop (e_msg env) ?m) = Some (hd fs)"
      using ok fs laws by (simp split: option.splits)
    then show ?thesis
      using worker_ready_ok [OF laws p(2) q1 p(3) p(5) [OF 1(2)], of "hd fs"] 1 p(1) fs laws
      by (simp add: s_broker_worker_msg_def Let_def)
  next
    case 2
    then obtain q where "?reg = Some q" by auto
    then have "wk_service w \<noteq> Null" "p \<notin> set (waits env s1)" "zg_frames (e_msg env) ?m \<noteq> []"
      using 2 ok fs p(3,6) laws by (auto split: option.splits)
    then show ?thesis
      using worker_reply_ok [OF laws p(2) q1 p(3), of ?m] 2 p(1) fs laws
      by (simp add: s_broker_worker_msg_def Let_def command_defs)
  next
    case 3
    let ?s = "s1\<lparr>b_tick := Suc (b_tick s1)\<rparr>"
    show ?thesis
      using expiry_ok [of env ?s p w "e_clock env (b_tick s1) + HEARTBEAT_EXPIRY"] p(2,3) q1 3 p(1) fs laws
      by (auto simp: s_broker_worker_msg_def Let_def command_defs zclock_time_def)
  next
    case 4
    then show ?thesis
      using del [of True] del [of False] p(1) fs laws
      by (auto simp: s_broker_worker_msg_def Let_def command_defs)
  next
    case 5
    then show ?thesis
      using p(1,2) q1 fs laws by (simp add: s_broker_worker_msg_def Let_def)
  qed
qed

text \<open>The reply to a request for a service \<^verbatim>\<open>mmi.\<close> of the broker itself.\<close>

definition mmi_code ::
  "('m, 'wl, 'ql, 'wh, 'sh) mdp_env \<Rightarrow> ('m, 'wl, 'ql, 'wh, 'sh) broker_t \<Rightarrow> byte list \<Rightarrow> byte list \<Rightarrow> byte list" where
  "mmi_code env s service name =
     (if service \<noteq> bytes ''mmi.service'' then bytes ''501''
      else case zh_lookup (e_sh env) (b_services s) (c_bytes name) of
        None \<Rightarrow> bytes ''404''
      | Some r \<Rightarrow> if of_nat (card {p. serves (worker_at s) r p}) = (0 :: 64 word) then bytes ''404'' else bytes ''200'')"

lemma client_msg_mmi:
  assumes laws: "mdp_laws env" and inv: "broker_inv env s" and q: "quiet env s"
    and fs: "zg_frames (e_msg env) msg = service # fs" "fs \<noteq> []" and mmi: "is_mmi service"
  shows "\<exists>s1 s' m. s_service_require env (Some service) s = Some (s1, s') \<and>
    s_broker_client_msg env sender msg s = Some (s'\<lparr>b_sent := b_sent s @ [m]\<rparr>) \<and>
    broker_inv env s' \<and> quiet env s' \<and> b_wmem s' = b_wmem s \<and>
    zg_frames (e_msg env) m = sender # [] # MDPC_CLIENT # service # butlast fs @ [mmi_code env s' service (last fs)]"
proof -
  obtain r s1 v where r: "s_service_require env (Some service) s = Some (r, s1)" "broker_inv env s1"
    "waits env s1 = waits env s" "b_wmem s1 = b_wmem s" "reqs env s1 = reqs env s \<or> reqs env s1 = (reqs env s)(r \<mapsto> [])"
    "b_sent s1 = b_sent s"
    using service_require_ok [OF laws inv, of service] by (fastforce split: option.splits)
  have q1: "quiet env s1"
    by (rule service_require_quiet [OF inv r(2) q r(3-5)])
  let ?m = "zg_wrap (e_msg env) sender (snd (zg_pop (e_msg env) msg))"
  have m: "zg_frames (e_msg env) ?m = sender # [] # fs"
    using fs laws by simp
  have code: "(if service = bytes ''mmi.service'' then do {
            frame \<leftarrow> zg_last (e_msg env) ?m;
            (case zh_lookup (e_sh env) (b_services s1) (c_bytes frame) of
               None \<Rightarrow> Some (bytes ''404'')
             | Some p \<Rightarrow> do {
                 sv \<leftarrow> service_at s1 p;
                 Some (if sv_workers sv \<noteq> 0 then bytes ''200'' else bytes ''404'')
               })
          } else Some (bytes ''501'')) = Some (mmi_code env s1 service (last fs))"
  proof (cases "zh_lookup (e_sh env) (b_services s1) (c_bytes (last fs))")
    case None
    then show ?thesis
      using m fs(2) laws by (simp add: mmi_code_def)
  next
    case (Some k)
    then obtain v' where "service_at s1 k = Some v'"
      using broker_viewD(7) [OF broker_invD(5) [OF r(2)] Some] by (auto simp: sviews_def)
    then show ?thesis
      using m fs(2) laws Some inv_service_waits(2) [OF r(2)] by (auto simp: mmi_code_def)
  qed
  have "length fs \<ge> 1"
    using fs(2) by (cases fs) auto
  then show ?thesis
    using r q1 mmi fs laws m code
    by (intro exI [of _ r] exI [of _ s1]) (auto simp: s_broker_client_msg_def Let_def Suc_le_eq)
qed

lemma client_msg_ok:
  assumes laws: "mdp_laws env" and inv: "broker_inv env s" and q: "quiet env s"
    and ok: "length (zg_frames (e_msg env) msg) \<ge> 2"
  shows "\<exists>s'. s_broker_client_msg env sender msg s = Some s' \<and> broker_inv env s' \<and> quiet env s'"
proof -
  obtain service fs where fs: "zg_frames (e_msg env) msg = service # fs" "fs \<noteq> []"
    using ok by (cases "zg_frames (e_msg env) msg"; cases "tl (zg_frames (e_msg env) msg)") auto
  show ?thesis
  proof (cases "is_mmi service")
    case True
    then show ?thesis
      using client_msg_mmi [OF laws inv q fs True, of sender] by auto
  next
    case False
    obtain r s1 v where r: "s_service_require env (Some service) s = Some (r, s1)" "broker_inv env s1"
      "waits env s1 = waits env s" "b_wmem s1 = b_wmem s" "reqs env s1 = reqs env s \<or> reqs env s1 = (reqs env s)(r \<mapsto> [])"
      "service_at s1 r = Some v"
      using service_require_ok [OF laws inv, of service] by (fastforce split: option.splits)
    have "quiet env s1"
      by (rule service_require_quiet [OF inv r(2) q r(3-5)])
    then have "quiet_on (- {r}) env s1"
      by (simp add: quiet_on_def)
    then show ?thesis
      using service_dispatch_inv [OF laws r(2), of r] r(1,6) False fs ok laws
      by (simp add: s_broker_client_msg_def Let_def)
  qed
qed

section \<open>The main loop\<close>

lemma send_heartbeats_ok:
  assumes laws: "mdp_laws env" and ps: "\<forall>p\<in>set ps. worker_at s p \<noteq> None"
  shows "\<exists>xs. send_heartbeats env ps s = Some (s\<lparr>b_sent := b_sent s @ xs\<rparr>) \<and>
    map (zg_frames (e_msg env)) xs =
      map (\<lambda>p. [wk_identity (the (worker_at s p)), [], MDPW_WORKER, MDPW_HEARTBEAT]) ps"
  using ps
proof (induction ps arbitrary: s)
  case (Cons p ps)
  then obtain w where w: "worker_at s p = Some w" by auto
  obtain m where m: "s_worker_send env p MDPW_HEARTBEAT None None s = Some (s\<lparr>b_sent := b_sent s @ [m]\<rparr>)"
    "zg_frames (e_msg env) m = [wk_identity w, [], MDPW_WORKER, MDPW_HEARTBEAT]"
    using worker_send_ok [OF laws w] by fastforce
  obtain xs where xs: "send_heartbeats env ps (s\<lparr>b_sent := b_sent s @ [m]\<rparr>) = Some (s\<lparr>b_sent := b_sent s @ m # xs\<rparr>)"
    "map (zg_frames (e_msg env)) xs =
      map (\<lambda>p. [wk_identity (the (worker_at s p)), [], MDPW_WORKER, MDPW_HEARTBEAT]) ps"
    using Cons.IH [of "s\<lparr>b_sent := b_sent s @ [m]\<rparr>"] Cons.prems by auto
  then show ?case
    using m w by (intro exI [of _ "m # xs"]) simp
qed simp

lemma broker_heartbeat_ok:
  assumes laws: "mdp_laws env" and inv: "broker_inv env s" and q: "quiet env s"
  shows "\<exists>s'. broker_heartbeat env s = Some s' \<and> broker_inv env s' \<and> quiet env s'"
proof (cases "e_clock env (b_tick s) > b_heartbeat_at s")
  case True
  let ?s = "s\<lparr>b_tick := Suc (b_tick s)\<rparr>"
  obtain k s1 where s1: "s_broker_purge env ?s = Some s1" "purged env k ?s s1"
    using broker_purge_ok [OF laws, of ?s] inv by auto
  have inv1: "broker_inv env s1" and q1: "quiet env s1"
    using s1(2) purged_quiet [of env ?s] inv q by (auto simp: purged_def)
  have "\<forall>p\<in>set (waits env s1). worker_at s1 p \<noteq> None"
    using broker_viewD(10) [OF broker_invD(5) [OF inv1]] by fastforce
  then obtain xs where "send_heartbeats env (waits env s1) s1 = Some (s1\<lparr>b_sent := b_sent s1 @ xs\<rparr>)"
    using send_heartbeats_ok [OF laws] by blast
  then show ?thesis
    using True s1(1) inv1 q1 by (simp add: broker_heartbeat_def zclock_time_def)
next
  case False
  then show ?thesis
    using inv q by (simp add: broker_heartbeat_def zclock_time_def)
qed

lemma broker_recv_ok:
  assumes laws: "mdp_laws env" and inv: "broker_inv env s" and q: "quiet env s"
    and ok: "ok_msg env s (zg_frames (e_msg env) msg)"
  shows "\<exists>s'. broker_recv env msg s = Some s' \<and> broker_inv env s' \<and> quiet env s'"
proof -
  obtain sender empty header fs where fs: "zg_frames (e_msg env) msg = sender # empty # header # fs"
    "header = MDPC_CLIENT \<longrightarrow> length fs \<ge> 2" "header = MDPW_WORKER \<longrightarrow> ok_worker_msg env s sender fs"
    using ok unfolding ok_msg_def by blast
  let ?zg = "e_msg env"
  let ?m = "snd (zg_pop ?zg (snd (zg_pop ?zg (snd (zg_pop ?zg msg)))))"
  have m: "zg_frames ?zg ?m = fs"
    using fs laws by simp
  have "broker_recv env msg s = (if header = MDPC_CLIENT then s_broker_client_msg env sender ?m s
      else if header = MDPW_WORKER then s_broker_worker_msg env sender ?m s else Some s)"
    using fs laws by (simp add: broker_recv_def case_prod_beta Let_def)
  then show ?thesis
    using client_msg_ok [OF laws inv q, of ?m sender] worker_msg_ok [OF laws inv q, of sender ?m] fs(2,3) inv q
    unfolding m by auto
qed

lemma broker_turn_ok:
  assumes "mdp_laws env" and "broker_inv env s" and "quiet env s"
    and "\<And>msg. i = Recv msg \<Longrightarrow> ok_msg env s (zg_frames (e_msg env) msg)"
  shows "\<exists>r. broker_turn env i s = Some r \<and> (\<forall>s'. r = Some s' \<longrightarrow> broker_inv env s' \<and> quiet env s')"
proof (cases i)
  case (Recv msg)
  then obtain s1 where "broker_recv env msg s = Some s1" "broker_inv env s1" "quiet env s1"
    using broker_recv_ok [OF assms(1-3), of msg] assms(4) by blast
  then show ?thesis
    using broker_heartbeat_ok [OF assms(1), of s1] Recv by auto
qed (use broker_heartbeat_ok [OF assms(1-3)] in auto)

text \<open>The states of the main loop, as long as the messages follow the protocol.\<close>

inductive broker_reach ::
  "('m, 'wl, 'ql, 'wh, 'sh) mdp_env \<Rightarrow> ('m, 'wl, 'ql, 'wh, 'sh) broker_t \<Rightarrow> bool" for env where
  start: "broker_reach env (s_broker_new env (\<lambda>_. False))"
| turn: "broker_reach env s \<Longrightarrow> (\<And>msg. i = Recv msg \<Longrightarrow> ok_msg env s (zg_frames (e_msg env) msg)) \<Longrightarrow>
    broker_turn env i s = Some (Some s') \<Longrightarrow> broker_reach env s'"

lemma broker_new_inv:
  assumes "mdp_laws env"
  shows "broker_inv env (s_broker_new env (\<lambda>_. False))" "quiet env (s_broker_new env (\<lambda>_. False))"
proof -
  show "broker_inv env (s_broker_new env (\<lambda>_. False))" "quiet env (s_broker_new env (\<lambda>_. False))"
    using assms by (auto simp: broker_inv_def s_broker_new_def quiet_on_def broker_view_def sviews_def)
qed

lemma broker_reach_inv: "broker_reach env s \<Longrightarrow> mdp_laws env \<Longrightarrow> broker_inv env s \<and> quiet env s"
proof (induction rule: broker_reach.induct)
  case start
  then show ?case using broker_new_inv by blast
next
  case (turn s i s')
  then show ?case using broker_turn_ok [of env s i] by auto
qed

text \<open>Freeing every object of a table, for one of the two memories.\<close>

lemma destroy_items_free:
  assumes f: "\<And>p s v m. load (get s) p = Some v \<Longrightarrow> mem_free (get s) p = Some m \<Longrightarrow> f p s = Some (upd m s)"
    and upd: "\<And>m s. get (upd m s) = m" "\<And>m m' s. upd m (upd m' s) = upd m s" "\<And>s. upd (get s) s = s"
    and items: "distinct (map snd items)" "\<forall>p\<in>snd ` set items. load (get s) p \<noteq> None"
  shows "\<exists>m. destroy_items f items s = Some (upd m s) \<and>
    load m = (\<lambda>p. if p \<in> snd ` set items then None else load (get s) p)"
  using items
proof (induction items arbitrary: s)
  case Nil
  then show ?case
    using upd(3) by (intro exI [of _ "get s"]) simp
next
  case (Cons kp items)
  obtain k p v where kp: "kp = (k, p)" "load (get s) p = Some v"
    using Cons.prems(2) by (cases kp) auto
  obtain m where m: "mem_free (get s) p = Some m" "load m = (load (get s))(p := None)"
    using free_live [OF kp(2)] by auto
  have "\<forall>q\<in>snd ` set items. load (get (upd m s)) q \<noteq> None"
    using Cons.prems kp unfolding upd(1) m(2) by auto
  then obtain m' where m': "destroy_items f items (upd m s) = Some (upd m' (upd m s))"
    "load m' = (\<lambda>q. if q \<in> snd ` set items then None else load (get (upd m s)) q)"
    using Cons.IH [of "upd m s"] Cons.prems(1) by auto
  then show ?case
    using kp m(2) f [OF kp(2) m(1)] unfolding upd(1,2) by (intro exI [of _ m']) (auto simp: fun_eq_iff)
qed

lemma zhash_items_inj:
  assumes "zhash_laws zh" and "\<And>k k' p. zh_lookup zh h k = Some p \<Longrightarrow> zh_lookup zh h k' = Some p \<Longrightarrow> k = k'"
  shows "distinct (map snd (zh_items zh h))"
  using zhash_distinct [OF assms(1), of h] assms zhash_items_lookup [OF assms(1)]
  by (fastforce simp: distinct_map inj_on_def)

section \<open>Properties\<close>

text \<open>
  C1: As long as the workers and clients follow the part of the protocol that the broker does not
  check, the broker never runs into undefined behaviour: every turn of its main loop ends, on
  every message, at every time. Between two turns the hash tables, the objects and the
  waiting lists agree, no service has a waiting worker and a queued request at the same
  time, and every waiting worker is registered and listed once.
\<close>

theorem broker_safe:
  assumes "mdp_laws env" and "broker_reach env s"
    and "\<And>msg. i = Recv msg \<Longrightarrow> ok_msg env s (zg_frames (e_msg env) msg)"
  shows "broker_turn env i s \<noteq> None \<and> broker_inv env s \<and>
    (\<forall>r v. service_at s r = Some v \<longrightarrow> swaits env v = [] \<or> sreqs env v = []) \<and>
    distinct (waits env s) \<and>
    (\<forall>p\<in>set (waits env s). \<exists>w. worker_at s p = Some w \<and>
       zh_lookup (e_wh env) (b_workers s) (zf_strhex (e_msg env) (wk_identity w)) = Some p)"
proof -
  have inv: "broker_inv env s" "quiet env s"
    using broker_reach_inv [OF assms(2,1)] by auto
  note V = broker_viewD [OF broker_invD(5) [OF inv(1)]]
  have "\<exists>w. worker_at s p = Some w \<and> zh_lookup (e_wh env) (b_workers s) (zf_strhex (e_msg env) (wk_identity w)) = Some p"
    if "p \<in> set (waits env s)" for p
    using V(10) [OF that] V(3,4) by metis
  moreover have "broker_turn env i s \<noteq> None"
    using broker_turn_ok [OF assms(1) inv assms(3)] by auto
  ultimately show ?thesis
    using inv V(9) by (auto simp: quiet_on_def)
qed


text \<open>
  The management service \<^verbatim>\<open>mmi.service\<close> answers the client that asks for it, and no worker: the last
  frame of its request comes back as 200 when a worker of the service it names is registered and as 404 otherwise.
\<close>

theorem mmi_service_reply:
  assumes laws: "mdp_laws env" and reach: "broker_reach env s"
    and fs: "zg_frames (e_msg env) msg = bytes ''mmi.service'' # fs" "fs \<noteq> []"
    and few: "card (dom (worker_at s)) < 2 ^ 64"
  shows "\<exists>s' m code. s_broker_client_msg env sender msg s = Some s' \<and> b_wmem s' = b_wmem s \<and> b_sent s' = b_sent s @ [m] \<and>
    zg_frames (e_msg env) m = sender # [] # MDPC_CLIENT # bytes ''mmi.service'' # butlast fs @ [code] \<and>
    code = (if \<exists>p w v. worker_at s p = Some w \<and> service_at s' (wk_service w) = Some v \<and> sv_name v = c_bytes (last fs)
            then bytes ''200'' else bytes ''404'')"
proof -
  have inv: "broker_inv env s" and q: "quiet env s"
    using broker_reach_inv [OF reach laws] by auto
  have mmi: "is_mmi (bytes ''mmi.service'')"
    by (simp add: is_mmi_def bytes_def)
  obtain r s' m where s': "s_broker_client_msg env sender msg s = Some (s'\<lparr>b_sent := b_sent s @ [m]\<rparr>)"
    "broker_inv env s'" "b_wmem s' = b_wmem s"
    "zg_frames (e_msg env) m = sender # [] # MDPC_CLIENT # bytes ''mmi.service'' # butlast fs @ [mmi_code env s' (bytes ''mmi.service'') (last fs)]"
    using client_msg_mmi [OF laws inv q fs mmi, of sender] by blast
  note V = broker_viewD [OF broker_invD(5) [OF s'(2)]]
  let ?name = "c_bytes (last fs)"
  have key: "zh_lookup (e_sh env) (b_services s') ?name = Some r \<longleftrightarrow> (\<exists>v. service_at s' r = Some v \<and> sv_name v = ?name)" for r
    using V(7) [of ?name r] inv_service_waits(3) [OF s'(2), of r] by (auto simp: sviews_def sv_view_def)
  have "of_nat (card {p. serves (worker_at s') r p}) = (0 :: 64 word) \<longleftrightarrow> (\<forall>p. \<not> serves (worker_at s') r p)" for r
  proof -
    have "card {p. serves (worker_at s') r p} \<le> card (dom (worker_at s))"
      using V(1) s'(3) by (intro card_mono) (auto simp: serves_def)
    then have "card {p. serves (worker_at s') r p} < 2 ^ 64"
      using few by linarith
    then have "of_nat (card {p. serves (worker_at s') r p}) = (0 :: 64 word) \<longleftrightarrow> card {p. serves (worker_at s') r p} = 0"
      by (auto simp: word_of_nat_eq_0_iff dest: nat_dvd_not_less)
    then show ?thesis
      using serves_finite [OF V(1), of r] by (auto simp: card_eq_0_iff)
  qed
  note none = this
  have "mmi_code env s' (bytes ''mmi.service'') (last fs) =
      (if \<exists>p w v. worker_at s p = Some w \<and> service_at s' (wk_service w) = Some v \<and> sv_name v = ?name
       then bytes ''200'' else bytes ''404'')"
  proof (cases "zh_lookup (e_sh env) (b_services s') ?name")
    case None
    then show ?thesis
      using key by (auto simp: mmi_code_def)
  next
    case (Some r)
    then have "(\<exists>p w v. worker_at s p = Some w \<and> service_at s' (wk_service w) = Some v \<and> sv_name v = ?name) \<longleftrightarrow>
        (\<exists>p. serves (worker_at s') r p)"
      using key s'(3) by (fastforce simp: serves_def)
    then show ?thesis
      using Some none [of r] by (auto simp: mmi_code_def)
  qed
  then show ?thesis
    using s' by (intro exI [of _ "s'\<lparr>b_sent := b_sent s @ [m]\<rparr>"] exI [of _ m]) simp
qed

text \<open>
  \<^verbatim>\<open>s_broker_purge\<close> deletes the expired workers at the front of the waiting list, sends nothing and
  leaves the requests; it stops at the first worker that has not expired, so that expired
  workers behind it stay in the list.
\<close>

theorem purge_deletes_expired_prefix:
  assumes laws: "mdp_laws env" and reach: "broker_reach env s" and clock: "\<And>n. e_clock env n = now"
  shows "\<exists>s'. s_broker_purge env s = Some s' \<and>
    waits env s' = dropWhile (\<lambda>p. wk_expiry (the (worker_at s p)) \<le> now) (waits env s) \<and>
    worker_at s' = (\<lambda>p. if p \<in> set (takeWhile (\<lambda>p. wk_expiry (the (worker_at s p)) \<le> now) (waits env s)) then None
                       else worker_at s p) \<and>
    b_sent s' = b_sent s \<and> reqs env s' = reqs env s"
proof -
  have inv: "broker_inv env s"
    using broker_reach_inv [OF reach laws] by auto
  obtain k s' where s': "s_broker_purge env s = Some s'" "purged env k s s'"
    using broker_purge_ok [OF laws inv] by auto
  let ?P = "\<lambda>p. wk_expiry (the (worker_at s p)) \<le> now"
  have "takeWhile ?P (waits env s) = take k (waits env s)"
    using s'(2) by (intro takeWhile_eq_take_P_nth) (auto simp: purged_def clock)
  moreover have "dropWhile ?P (waits env s) = drop k (waits env s)"
    by (metis append_take_drop_id calculation same_append_eq takeWhile_dropWhile_id)
  ultimately show ?thesis
    using s' by (auto simp: purged_def)
qed

text \<open>
  \<^verbatim>\<open>s_broker_destroy\<close> frees every worker and every service exactly once.
\<close>

theorem broker_destroy_frees_all:
  assumes laws: "mdp_laws env" and reach: "broker_reach env s"
  shows "\<exists>s'. s_broker_destroy env s = Some s' \<and> (\<forall>p. worker_at s' p = None \<and> service_at s' p = None)"
proof -
  have inv: "broker_inv env s"
    using broker_reach_inv [OF reach laws] by auto
  note V = broker_viewD [OF broker_invD(5) [OF inv]]
  let ?sh = "zh_items (e_sh env) (b_services s)" and ?wh = "zh_items (e_wh env) (b_workers s)"
  have S: "(k, r) \<in> set ?sh \<longleftrightarrow> (\<exists>v. service_at s r = Some v \<and> sv_name v = k)" for k r
    using zhash_items_lookup [of "e_sh env" k r] laws V(7) [of k r] inv_service_waits(3) [OF inv, of r]
    by (auto simp: sviews_def sv_view_def)
  have W: "(k, p) \<in> set ?wh \<longleftrightarrow> (\<exists>w. worker_at s p = Some w \<and> wk_id_string w = k)" for k p
    using zhash_items_lookup [of "e_wh env" k p] laws V(5) [of k p] V(4) [of p] by auto
  have "zh_lookup (e_sh env) (b_services s) k = Some r \<Longrightarrow> zh_lookup (e_sh env) (b_services s) k' = Some r \<Longrightarrow> k = k'" for k k' r
    using V(7) [of k r] V(7) [of k' r] by auto
  moreover have "zh_lookup (e_wh env) (b_workers s) k = Some p \<Longrightarrow> zh_lookup (e_wh env) (b_workers s) k' = Some p \<Longrightarrow> k = k'" for k k' p
    using V(5) [of k p] V(5) [of k' p] by auto
  ultimately have ds: "distinct (map snd ?sh)" "distinct (map snd ?wh)"
    using laws by (auto intro!: zhash_items_inj)
  have live: "\<forall>p\<in>snd ` set ?sh. service_at s p \<noteq> None" "\<forall>p\<in>snd ` set ?wh. worker_at s p \<noteq> None"
    using S W by auto
  obtain smem where sm: "destroy_items s_service_destroy ?sh s = Some (s\<lparr>b_smem := smem\<rparr>)"
    "load smem = (\<lambda>p. if p \<in> snd ` set ?sh then None else service_at s p)"
    using destroy_items_free [where get = b_smem and upd = "\<lambda>m s. s\<lparr>b_smem := m\<rparr>" and f = s_service_destroy, OF _ _ _ _ ds(1) live(1)]
    by (auto simp: s_service_destroy_def)
  obtain wmem where wm: "destroy_items s_worker_destroy ?wh (s\<lparr>b_smem := smem\<rparr>) = Some (s\<lparr>b_smem := smem, b_wmem := wmem\<rparr>)"
    "load wmem = (\<lambda>p. if p \<in> snd ` set ?wh then None else worker_at s p)"
    using destroy_items_free [where get = b_wmem and upd = "\<lambda>m s. s\<lparr>b_wmem := m\<rparr>" and f = s_worker_destroy, OF _ _ _ _ ds(2),
        of "s\<lparr>b_smem := smem\<rparr>"] live(2)
    by (auto simp: s_worker_destroy_def cong: if_cong)
  have "load smem p = None" for p
  proof (cases "service_at s p")
    case (Some v)
    then have "p \<in> snd ` set ?sh"
      using S by (metis image_eqI snd_conv)
    then show ?thesis by (simp add: sm(2))
  qed (simp add: sm(2))
  moreover have "load wmem p = None" for p
  proof (cases "worker_at s p")
    case (Some w)
    then have "p \<in> snd ` set ?wh"
      using W by (metis image_eqI snd_conv)
    then show ?thesis by (simp add: wm(2))
  qed (simp add: wm(2))
  ultimately show ?thesis
    using sm(1) wm(1) by (simp add: s_broker_destroy_def)
qed

section \<open>Instances\<close>

definition ex_env ::
  "int \<Rightarrow> (byte list list, ptr list, byte list list list, (byte list \<times> ptr) list, (byte list \<times> ptr) list) mdp_env" where
  "ex_env now = \<lparr>e_msg = ex_zmsg, e_wl = ex_zlist, e_ql = ex_zlist, e_wh = ex_zhash, e_sh = ex_zhash, e_clock = (\<lambda>_. now)\<rparr>"

lemma ex_env_laws: "mdp_laws (ex_env now)"
  by (simp add: mdp_laws_def ex_env_def ex_zmsg_laws ex_zlist_laws ex_zhash_laws)

text \<open>A worker with identity 7 registers for the service with the one-letter name 101.\<close>

definition ex_ready :: "byte list list" where
  "ex_ready = [[7], [], MDPW_WORKER, MDPW_READY, [101]]"

definition ex_broker :: "(byte list list, ptr list, byte list list list, (byte list \<times> ptr) list, (byte list \<times> ptr) list) broker_t" where
  "ex_broker = the (the (broker_turn (ex_env 0) (Recv ex_ready) (s_broker_new (ex_env 0) (\<lambda>_. False))))"

declare purge_loop.simps [code] dispatch_loop.simps [code]

lemma ex_broker_reach: "broker_reach (ex_env 0) ex_broker"
proof (rule broker_reach.turn [OF broker_reach.start])
  show "broker_turn (ex_env 0) (Recv ex_ready) (s_broker_new (ex_env 0) (\<lambda>_. False)) = Some (Some ex_broker)"
  proof -
    have "\<not> Option.is_none (broker_turn (ex_env 0) (Recv ex_ready) (s_broker_new (ex_env 0) (\<lambda>_. False)))"
      "\<not> Option.is_none (the (broker_turn (ex_env 0) (Recv ex_ready) (s_broker_new (ex_env 0) (\<lambda>_. False))))"
      by code_simp+
    then show ?thesis
      unfolding ex_broker_def by (auto simp: Option.is_none_def)
  qed
next
  fix msg assume "Recv ex_ready = Recv msg"
  then show "ok_msg (ex_env 0) (s_broker_new (ex_env 0) (\<lambda>_. False)) (zg_frames (e_msg (ex_env 0)) msg)"
    by (auto simp: ok_msg_def ex_ready_def ex_env_def ex_zmsg_def ex_zhash_def s_broker_new_def MDPW_WORKER_def
        MDPC_CLIENT_def bytes_def)
qed

lemma ex_broker_facts:
  "zh_lookup (e_sh (ex_env 0)) (b_services ex_broker) [101] = Some (Ptr 0)"
  "waits (ex_env 0) ex_broker = [Ptr 0]"
  "map_option (swaits (ex_env 0)) (service_at ex_broker (Ptr 0)) = Some [Ptr 0]"
  "map_option wk_expiry (worker_at ex_broker (Ptr 0)) = Some 7500"
  "map_option wk_identity (worker_at ex_broker (Ptr 0)) = Some [7]"
  unfolding ex_broker_def by code_simp+

theorem broker_safe_witness:
  "broker_turn (ex_env 0) (Recv [[8], [], MDPC_CLIENT, [101], [9]]) ex_broker \<noteq> None \<and> distinct (waits (ex_env 0) ex_broker)"
proof -
  have "ok_msg (ex_env 0) ex_broker [[8], [], MDPC_CLIENT, [101], [9]]"
    by (simp add: ok_msg_def MDPW_WORKER_def MDPC_CLIENT_def bytes_def)
  then show ?thesis
    using broker_safe [OF ex_env_laws ex_broker_reach, of "Recv [[8], [], MDPC_CLIENT, [101], [9]]"]
    by (simp add: ex_env_def ex_zmsg_def)
qed


theorem mmi_service_reply_witness:
  "\<exists>s'. s_broker_client_msg (ex_env 0) [8] [bytes ''mmi.service'', [102]] ex_broker = Some s' \<and>
    b_wmem s' = b_wmem ex_broker"
proof -
  have "card (dom (worker_at ex_broker)) \<le> card (Ptr ` {..<nextblock (b_wmem ex_broker)})"
    using broker_invD(1) [OF conjunct1 [OF broker_reach_inv [OF ex_broker_reach ex_env_laws]]]
    by (intro card_mono) (auto dest: load_live_less)
  also have "\<dots> \<le> nextblock (b_wmem ex_broker)"
    by (rule order.trans [OF card_image_le]) auto
  also have "nextblock (b_wmem ex_broker) = 1"
    unfolding ex_broker_def by code_simp
  finally have "card (dom (worker_at ex_broker)) < 2 ^ 64"
    by simp
  then show ?thesis
    using mmi_service_reply [OF ex_env_laws ex_broker_reach, of "[bytes ''mmi.service'', [102]]" "[[102]]" "[8]"]
    by (auto simp: ex_env_def ex_zmsg_def)
qed

theorem purge_deletes_expired_prefix_witness:
  "\<exists>s'. s_broker_purge (ex_env 0) ex_broker = Some s' \<and> waits (ex_env 0) s' = [Ptr 0]"
proof -
  obtain w where w: "worker_at ex_broker (Ptr 0) = Some w" "wk_expiry w = 7500"
    using ex_broker_facts(4) by auto
  show ?thesis
    using purge_deletes_expired_prefix [OF ex_env_laws ex_broker_reach, of 0] ex_broker_facts(2) w
    by (auto simp: ex_env_def)
qed

theorem broker_destroy_frees_all_witness:
  "\<exists>s'. s_broker_destroy (ex_env 0) ex_broker = Some s' \<and> worker_at s' (Ptr 0) = None"
  using broker_destroy_frees_all [OF ex_env_laws ex_broker_reach] by blast


end
