(* ===== verification/Threadpool.thy ===== *)
theory Threadpool
  imports Linked_List "HOL-Library.Multiset"
begin

text \<open>
  The thread pool of \<^verbatim>\<open>lib/threadpool/threadpool.c\<close>. The pool threads and the thread that adds work and destroys the pool
  run interleaved; a step of a thread is what it does between two accesses to shared state that other threads can
  come between. The work queue is the queue of \<^verbatim>\<open>lib/threadpool/queue.c\<close> and \<^verbatim>\<open>list.c\<close>, which are the files of \<^verbatim>\<open>lib/_structs\<close>. Mutex
  and condition variable behave as POSIX says, spurious wakeups included. Memory is sequentially consistent.
\<close>

section \<open>State\<close>

text \<open>Where a pool thread is in \<^verbatim>\<open>threadpool_handle\<close>. At \<open>Sleepy\<close> it has decided to wait and still holds the mutex.\<close>

datatype pc = At_lock | At_check | Sleepy | Waiting_cond | Woken | At_test | Working ptr | Freeing ptr | Exited

text \<open>Where the main thread is, in \<^verbatim>\<open>threadpool_add_worker\<close> or \<^verbatim>\<open>threadpool_destroy\<close>.\<close>

datatype cpc = Idle | Add_lock ptr | Add_locked ptr | Add_signal | Broadcast | Join nat | Drain | Destroyed

datatype owner = Pool_thread nat | Main_thread

text \<open>
  The fields of \<^verbatim>\<open>threadpool\<close>, the \<^verbatim>\<open>threadworker\<close> objects, the positions of the threads, and three records of what has happened:
  the tasks enqueued, taken from the queue, and executed.
\<close>

record 't threadpool =
  tp_lock :: "owner option"
  tp_queue :: "List \<times> ptr lmem"
  tp_shutdown :: bool
  tp_size :: int
  tp_workers :: "'t mem"
  tp_pc :: "nat \<Rightarrow> pc"
  tp_main :: cpc
  tp_added :: "'t list"
  tp_started :: "'t list"
  tp_done :: "'t list"

text \<open>The outcome of a step: the thread has to wait, undefined behaviour or a failed \<^verbatim>\<open>assert\<close>, or a new state.\<close>

datatype 's res = Blocked | Crash | Next 's

definition threadpool_init :: "'t threadpool" where
  "threadpool_init = \<lparr>tp_lock = None, tp_queue = (list_init list_zero Null, empty_mem (\<lambda>_. False)), tp_shutdown = False, tp_size = 0,
     tp_workers = empty_mem (\<lambda>_. False), tp_pc = (\<lambda>_. At_lock), tp_main = Idle, tp_added = [], tp_started = [], tp_done = []\<rparr>"

section \<open>The pool threads\<close>

definition goto :: "nat \<Rightarrow> pc \<Rightarrow> 't threadpool \<Rightarrow> 't threadpool" where
  "goto i p s = s\<lparr>tp_pc := (tp_pc s)(i := p)\<rparr>"

text \<open>Lines 88 to 94: the asserts, and taking the first task.\<close>

definition take_work :: "nat \<Rightarrow> 't threadpool \<Rightarrow> 't threadpool res" where
  "take_work i s =
     (if tp_size s = 0 then Crash
      else case queue_peek (snd (tp_queue s)) (fst (tp_queue s)) of
        Some (Some p) \<Rightarrow>
          (case (c_int (tp_size s - 1), queue_dequeue (snd (tp_queue s)) (fst (tp_queue s)), load (tp_workers s) p) of
             (Some n, Some (_, out, q), Some t) \<Rightarrow>
               Next (goto i (Working (case out of Some p1 \<Rightarrow> p1 | None \<Rightarrow> p))
                 (s\<lparr>tp_size := n, tp_queue := q, tp_started := tp_started s @ [t], tp_lock := None\<rparr>))
           | _ \<Rightarrow> Crash)
      | _ \<Rightarrow> Crash)"

definition threadpool_handle :: "nat \<Rightarrow> 't threadpool \<Rightarrow> 't threadpool res" where
  "threadpool_handle i s =
     (case tp_pc s i of
        At_lock \<Rightarrow> if tp_lock s = None then Next (goto i At_check (s\<lparr>tp_lock := Some (Pool_thread i)\<rparr>)) else Blocked
      | At_check \<Rightarrow> Next (goto i (if tp_size s = 0 \<and> \<not> tp_shutdown s then Sleepy else At_test) s)
      | Sleepy \<Rightarrow> Next (goto i Waiting_cond (s\<lparr>tp_lock := None\<rparr>))
      | Waiting_cond \<Rightarrow> Blocked
      | Woken \<Rightarrow> if tp_lock s = None then Next (goto i At_check (s\<lparr>tp_lock := Some (Pool_thread i)\<rparr>)) else Blocked
      | At_test \<Rightarrow> if tp_shutdown s then Next (goto i Exited (s\<lparr>tp_lock := None\<rparr>)) else take_work i s
      | Working p \<Rightarrow>
          (case load (tp_workers s) p of
             Some t \<Rightarrow> Next (goto i (Freeing p) (s\<lparr>tp_done := tp_done s @ [t]\<rparr>)) | None \<Rightarrow> Crash)
      | Freeing p \<Rightarrow>
          (case mem_free (tp_workers s) p of Some m \<Rightarrow> Next (goto i At_lock (s\<lparr>tp_workers := m\<rparr>)) | None \<Rightarrow> Crash)
      | Exited \<Rightarrow> Blocked)"

section \<open>The main thread\<close>

definition wake :: "(nat \<Rightarrow> bool) \<Rightarrow> 't threadpool \<Rightarrow> 't threadpool" where
  "wake P s = s\<lparr>tp_pc := (\<lambda>i. if P i \<and> tp_pc s i = Waiting_cond then Woken else tp_pc s i)\<rparr>"

definition threadpool_add_worker :: "'t \<Rightarrow> 't threadpool \<Rightarrow> 't threadpool res" where
  "threadpool_add_worker t s =
     (case malloc t (tp_workers s) of
        (Null, _) \<Rightarrow> Crash
      | (p, m) \<Rightarrow> Next (s\<lparr>tp_workers := m, tp_main := Add_lock p\<rparr>))"

text \<open>Lines 33 to 35; the result of \<^verbatim>\<open>queue_enqueue\<close> is not looked at.\<close>

definition add_locked :: "ptr \<Rightarrow> 't threadpool \<Rightarrow> 't threadpool res" where
  "add_locked p s =
     (case (queue_enqueue (snd (tp_queue s)) (fst (tp_queue s)) p, c_int (tp_size s + 1), load (tp_workers s) p) of
        (Some (_, q), Some n, Some t) \<Rightarrow>
          Next (s\<lparr>tp_queue := q, tp_size := n, tp_lock := None, tp_main := Add_signal, tp_added := tp_added s @ [t]\<rparr>)
      | _ \<Rightarrow> Crash)"

definition threadpool_destroy :: "'t threadpool \<Rightarrow> 't threadpool res" where
  "threadpool_destroy s = Next (if tp_shutdown s then s else s\<lparr>tp_shutdown := True, tp_main := Broadcast\<rparr>)"

text \<open>Lines 55 to 58.\<close>

partial_function (option) drain_queue :: "List \<times> ptr lmem \<Rightarrow> (List \<times> ptr lmem) option" where
  "drain_queue q =
     Option.bind (queue_peek (snd q) (fst q)) (\<lambda>d.
       if d = None then Some q
       else Option.bind (queue_dequeue (snd q) (fst q)) (\<lambda>r. drain_queue (snd (snd r))))"

text \<open>
  A step of the main thread in a pool of \<open>n\<close> threads. \<open>cmd\<close> is what it does when it is idle: add a task, or destroy the pool. \<open>w\<close> is
  the thread that \<^verbatim>\<open>pthread_cond_signal\<close> picks, if it is waiting.
\<close>

definition main_step :: "nat \<Rightarrow> 't option \<Rightarrow> nat \<Rightarrow> 't threadpool \<Rightarrow> 't threadpool res" where
  "main_step n cmd w s =
     (case tp_main s of
        Idle \<Rightarrow> (case cmd of Some t \<Rightarrow> threadpool_add_worker t s | None \<Rightarrow> threadpool_destroy s)
      | Add_lock p \<Rightarrow> if tp_lock s = None then Next (s\<lparr>tp_lock := Some Main_thread, tp_main := Add_locked p\<rparr>) else Blocked
      | Add_locked p \<Rightarrow> add_locked p s
      | Add_signal \<Rightarrow>
          if tp_pc s w = Waiting_cond \<and> w < n \<or> (\<forall>i<n. tp_pc s i \<noteq> Waiting_cond)
          then Next (wake (\<lambda>i. i = w \<and> w < n) (s\<lparr>tp_main := Idle\<rparr>)) else Blocked
      | Broadcast \<Rightarrow> Next (wake (\<lambda>i. i < n) (s\<lparr>tp_main := Join 0\<rparr>))
      | Join k \<Rightarrow> if k < n then if tp_pc s k = Exited then Next (s\<lparr>tp_main := Join (Suc k)\<rparr>) else Blocked
                  else Next (s\<lparr>tp_main := Drain\<rparr>)
      | Drain \<Rightarrow> (case drain_queue (tp_queue s) of Some q \<Rightarrow> Next (s\<lparr>tp_queue := q, tp_main := Destroyed\<rparr>) | None \<Rightarrow> Crash)
      | Destroyed \<Rightarrow> Blocked)"

section \<open>Interleaving\<close>

datatype 't action = Run nat | Main "'t option" nat | Spurious nat

fun tp_act :: "nat \<Rightarrow> 't action \<Rightarrow> 't threadpool \<Rightarrow> 't threadpool res" where
  "tp_act n (Run i) s = (if i < n then threadpool_handle i s else Blocked)"
| "tp_act n (Main cmd w) s = main_step n cmd w s"
| "tp_act n (Spurious i) s = (if i < n \<and> tp_pc s i = Waiting_cond then Next (goto i Woken s) else Blocked)"

fun tp_schedule :: "nat \<Rightarrow> 't action list \<Rightarrow> 't threadpool \<Rightarrow> 't threadpool option" where
  "tp_schedule n [] s = Some s"
| "tp_schedule n (a # as) s = (case tp_act n a s of Next s1 \<Rightarrow> tp_schedule n as s1 | _ \<Rightarrow> None)"

inductive tp_reach :: "nat \<Rightarrow> 't threadpool \<Rightarrow> bool" for n where
  tp_start: "tp_reach n threadpool_init"
| tp_step: "tp_reach n s \<Longrightarrow> tp_act n a s = Next s' \<Longrightarrow> tp_reach n s'"

section \<open>Invariant\<close>

text \<open>Whether a thread holds the mutex, and the \<^verbatim>\<open>threadworker\<close> object that belongs to it.\<close>

definition holds :: "pc \<Rightarrow> bool" where
  "holds p \<longleftrightarrow> p \<in> {At_check, Sleepy, At_test}"

fun pc_task :: "pc \<Rightarrow> ptr option" where
  "pc_task (Working p) = Some p"
| "pc_task (Freeing p) = Some p"
| "pc_task _ = None"

fun main_task :: "cpc \<Rightarrow> ptr option" where
  "main_task (Add_lock p) = Some p"
| "main_task (Add_locked p) = Some p"
| "main_task _ = None"

fun running :: "'t mem \<Rightarrow> pc \<Rightarrow> 't multiset" where
  "running m (Working p) = {#the (load m p)#}"
| "running m _ = {#}"

text \<open>
  \<open>tp_base\<close>: the queue is well formed and holds \<open>xs\<close>. \<open>tp_ctrl\<close>: the mutex belongs to the thread that is inside, a thread that is
  about to take a task finds one, and the main thread has joined only threads that have exited. \<open>tp_ptrs\<close>: every object
  belongs to the queue or to one thread. \<open>tp_log\<close>: the tasks taken are the first ones added, in that order, and every task
  taken has been executed once or is running.
\<close>

definition tp_base :: "'t threadpool \<Rightarrow> ptr list \<Rightarrow> bool" where
  "tp_base s xs \<longleftrightarrow> seq_rep (tp_queue s) xs \<and> fails (snd (tp_queue s)) = (\<lambda>_. False) \<and> mem_wf (tp_workers s) \<and>
     fails (tp_workers s) = (\<lambda>_. False)"

definition tp_ctrl :: "nat \<Rightarrow> 't threadpool \<Rightarrow> ptr list \<Rightarrow> bool" where
  "tp_ctrl n s xs \<longleftrightarrow>
     (\<forall>i. tp_lock s = Some (Pool_thread i) \<longleftrightarrow> i < n \<and> holds (tp_pc s i)) \<and>
     (tp_lock s = Some Main_thread \<longleftrightarrow> (\<exists>p. tp_main s = Add_locked p)) \<and>
     (\<forall>i<n. tp_pc s i = At_test \<longrightarrow> tp_shutdown s \<or> xs \<noteq> []) \<and>
     (tp_shutdown s \<longleftrightarrow> tp_main s \<in> {Broadcast, Drain, Destroyed} \<union> range Join) \<and>
     (\<forall>k. tp_main s = Join k \<longrightarrow> k \<le> n \<and> (\<forall>i<k. tp_pc s i = Exited)) \<and>
     (tp_main s \<in> {Drain, Destroyed} \<longrightarrow> (\<forall>i<n. tp_pc s i = Exited))"

definition tp_ptrs :: "nat \<Rightarrow> 't threadpool \<Rightarrow> ptr list \<Rightarrow> bool" where
  "tp_ptrs n s xs \<longleftrightarrow> distinct xs \<and> (\<forall>p\<in>set xs. load (tp_workers s) p \<noteq> None) \<and>
     (\<forall>i<n. \<forall>p. pc_task (tp_pc s i) = Some p \<longrightarrow> p \<notin> set xs \<and> load (tp_workers s) p \<noteq> None \<and>
        (\<forall>j<n. pc_task (tp_pc s j) = Some p \<longrightarrow> j = i)) \<and>
     (\<forall>p. main_task (tp_main s) = Some p \<longrightarrow> p \<notin> set xs \<and> load (tp_workers s) p \<noteq> None \<and>
        (\<forall>i<n. pc_task (tp_pc s i) \<noteq> Some p))"

definition tp_log :: "nat \<Rightarrow> 't threadpool \<Rightarrow> ptr list \<Rightarrow> bool" where
  "tp_log n s xs \<longleftrightarrow>
     (tp_main s \<noteq> Destroyed \<longrightarrow> tp_size s = int (length xs) \<and> tp_added s = tp_started s @ map (\<lambda>p. the (load (tp_workers s) p)) xs) \<and>
     mset (tp_started s) = mset (tp_done s) + (\<Sum>i<n. running (tp_workers s) (tp_pc s i))"

definition tp_inv :: "nat \<Rightarrow> 't threadpool \<Rightarrow> ptr list \<Rightarrow> bool" where
  "tp_inv n s xs \<longleftrightarrow> tp_base s xs \<and> tp_ctrl n s xs \<and> tp_ptrs n s xs \<and> tp_log n s xs"

lemma tp_init_inv: "tp_inv n threadpool_init []"
  by (auto simp: tp_inv_def tp_base_def tp_ctrl_def tp_ptrs_def tp_log_def threadpool_init_def seq_rep_init holds_def)

lemma sum_running_upd:
  fixes n :: nat
  shows "i < n \<Longrightarrow> (\<Sum>j<n. running m ((g(i := p)) j)) + running m (g i) = (\<Sum>j<n. running m (g j)) + running m p"
proof -
  assume i: "i < n"
  have "(\<Sum>j<n. running m ((g(i := p)) j)) = running m p + (\<Sum>j\<in>{..<n} - {i}. running m (g j))"
    using i by (subst sum.remove [of "{..<n}" i]) (auto intro!: arg_cong2 [where f = "(+)"] sum.cong)
  moreover have "(\<Sum>j<n. running m (g j)) = running m (g i) + (\<Sum>j\<in>{..<n} - {i}. running m (g j))"
    using i by (subst sum.remove [of "{..<n}" i]) auto
  ultimately show ?thesis
    by simp
qed

text \<open>The queue.\<close>

lemma queue_peek_seq: "seq_rep q xs \<Longrightarrow> queue_peek (snd q) (fst q) = Some (case xs of [] \<Rightarrow> None | x # _ \<Rightarrow> Some x)"
  by (auto simp: seq_rep_def list_rep_def queue_peek_def split: list.splits option.splits)

lemma free_store_fails:
  "mem_free m p = Some m1 \<Longrightarrow> fails m1 = fails m" "store m p v = Some m1 \<Longrightarrow> fails m1 = fails m"
  by (cases p; auto split: if_splits)+

lemma queue_enqueue_fails: "queue_enqueue m q d = Some (r, q1, m1) \<Longrightarrow> fails m1 = fails m"
  by (auto simp: queue_enqueue_def list_ins_next_def malloc_def Let_def bind_eq_Some dest!: free_store_fails
      split: if_splits prod.splits ptr.splits)

lemma queue_dequeue_fails: "queue_dequeue m q = Some (r, d, q1, m1) \<Longrightarrow> fails m1 = fails m"
  by (auto simp: queue_dequeue_def list_rem_next_def Let_def bind_eq_Some dest!: free_store_fails
      split: if_splits prod.splits ptr.splits)

lemma seq_rep_size: "seq_rep q xs \<Longrightarrow> l_size (fst q) = int (length xs)"
  by (auto simp: seq_rep_def list_rep_def)

section \<open>Every step keeps the invariant\<close>

text \<open>A step that only moves threads that have no task.\<close>

lemma tp_inv_moved:
  assumes inv: "tp_inv n s xs" and ctrl: "tp_ctrl n s' xs"
    and same: "tp_queue s' = tp_queue s" "tp_workers s' = tp_workers s" "tp_size s' = tp_size s" "tp_added s' = tp_added s"
      "tp_started s' = tp_started s" "tp_done s' = tp_done s" "main_task (tp_main s') = main_task (tp_main s)"
      "tp_main s' = Destroyed \<longleftrightarrow> tp_main s = Destroyed"
    and pcs: "\<And>i. i < n \<Longrightarrow> tp_pc s' i = tp_pc s i \<or> pc_task (tp_pc s' i) = None \<and> pc_task (tp_pc s i) = None"
  shows "tp_inv n s' xs"
proof -
  have t: "pc_task (tp_pc s' i) = pc_task (tp_pc s i)" if "i < n" for i
    using pcs [OF that] by auto
  have "running m (tp_pc s' i) = running m (tp_pc s i)" if "i < n" for i and m :: "'a mem"
    using pcs [OF that] by (cases "tp_pc s' i"; cases "tp_pc s i") auto
  then have r: "(\<Sum>i<n. running m (tp_pc s' i)) = (\<Sum>i<n. running m (tp_pc s i))" for m :: "'a mem"
    by (auto intro: sum.cong)
  show ?thesis
    using inv ctrl same t r unfolding tp_inv_def tp_base_def tp_ptrs_def tp_log_def by simp
qed

lemma tp_ctrlD:
  assumes "tp_ctrl n s xs"
  shows "tp_lock s = Some (Pool_thread i) \<longleftrightarrow> i < n \<and> holds (tp_pc s i)"
    and "tp_lock s = Some Main_thread \<longleftrightarrow> (\<exists>p. tp_main s = Add_locked p)"
    and "i < n \<Longrightarrow> tp_pc s i = At_test \<Longrightarrow> tp_shutdown s \<or> xs \<noteq> []"
    and "tp_shutdown s \<longleftrightarrow> tp_main s \<in> {Broadcast, Drain, Destroyed} \<union> range Join"
    and "tp_main s = Join k \<Longrightarrow> k \<le> n" and "tp_main s = Join k \<Longrightarrow> i < k \<Longrightarrow> tp_pc s i = Exited"
    and "tp_main s \<in> {Drain, Destroyed} \<Longrightarrow> i < n \<Longrightarrow> tp_pc s i = Exited"
  using assms unfolding tp_ctrl_def by blast+

lemma tp_ctrlI:
  assumes "\<And>i. tp_lock s = Some (Pool_thread i) \<longleftrightarrow> i < n \<and> holds (tp_pc s i)"
    and "tp_lock s = Some Main_thread \<longleftrightarrow> (\<exists>p. tp_main s = Add_locked p)"
    and "\<And>i. i < n \<Longrightarrow> tp_pc s i = At_test \<Longrightarrow> tp_shutdown s \<or> xs \<noteq> []"
    and "tp_shutdown s \<longleftrightarrow> tp_main s \<in> {Broadcast, Drain, Destroyed} \<union> range Join"
    and "\<And>k. tp_main s = Join k \<Longrightarrow> k \<le> n" and "\<And>k i. tp_main s = Join k \<Longrightarrow> i < k \<Longrightarrow> tp_pc s i = Exited"
    and "\<And>i. tp_main s \<in> {Drain, Destroyed} \<Longrightarrow> i < n \<Longrightarrow> tp_pc s i = Exited"
  shows "tp_ctrl n s xs"
  unfolding tp_ctrl_def using assms by blast

lemma tp_ctrl_goto:
  assumes C: "tp_ctrl n s xs" and i: "i < n" "tp_pc s i \<noteq> Exited" and "p = At_test \<longrightarrow> tp_shutdown s \<or> xs \<noteq> []"
    and l: "l = (if holds p then Some (Pool_thread i) else if holds (tp_pc s i) then None else tp_lock s)"
    and free: "holds p \<longrightarrow> holds (tp_pc s i) \<or> tp_lock s = None"
  shows "tp_ctrl n (goto i p (s\<lparr>tp_lock := l\<rparr>)) xs"
proof (rule tp_ctrlI)
  note D = tp_ctrlD [OF C]
  have only: "holds (tp_pc s i) \<Longrightarrow> tp_lock s = Some (Pool_thread i)"
    using D(1) [of i] i(1) by simp
  fix j
  show "tp_lock (goto i p (s\<lparr>tp_lock := l\<rparr>)) = Some (Pool_thread j) \<longleftrightarrow> j < n \<and> holds (tp_pc (goto i p (s\<lparr>tp_lock := l\<rparr>)) j)"
    using D(1) [of j] D(1) [of i] i(1) l free by (cases "j = i"; cases "holds p"; cases "holds (tp_pc s i)") (auto simp: goto_def)
  show "tp_lock (goto i p (s\<lparr>tp_lock := l\<rparr>)) = Some Main_thread \<longleftrightarrow> (\<exists>q. tp_main (goto i p (s\<lparr>tp_lock := l\<rparr>)) = Add_locked q)"
    using D(2) only l free by (cases "holds p"; cases "holds (tp_pc s i)") (auto simp: goto_def)
  show "tp_shutdown (goto i p (s\<lparr>tp_lock := l\<rparr>)) \<or> xs \<noteq> []" if "j < n" "tp_pc (goto i p (s\<lparr>tp_lock := l\<rparr>)) j = At_test"
    using D(3) [of j] that assms(4) by (cases "j = i") (simp_all add: goto_def)
  show "tp_shutdown (goto i p (s\<lparr>tp_lock := l\<rparr>)) \<longleftrightarrow>
      tp_main (goto i p (s\<lparr>tp_lock := l\<rparr>)) \<in> {Broadcast, Drain, Destroyed} \<union> range Join"
    using D(4) by (simp add: goto_def)
  show "k \<le> n" if "tp_main (goto i p (s\<lparr>tp_lock := l\<rparr>)) = Join k" for k
    using D(5) [of k] that by (simp add: goto_def)
  show "tp_pc (goto i p (s\<lparr>tp_lock := l\<rparr>)) j = Exited" if "tp_main (goto i p (s\<lparr>tp_lock := l\<rparr>)) = Join k" "j < k" for k
    using D(6) [of k j] D(6) [of k i] that i by (cases "j = i") (simp_all add: goto_def)
  show "tp_pc (goto i p (s\<lparr>tp_lock := l\<rparr>)) j = Exited" if "tp_main (goto i p (s\<lparr>tp_lock := l\<rparr>)) \<in> {Drain, Destroyed}" "j < n"
    using D(7) [of i] that i by (simp add: goto_def)
qed

lemma tp_inv_goto:
  assumes "tp_inv n s xs" and "i < n" and "tp_pc s i \<noteq> Exited" and "p = At_test \<longrightarrow> tp_shutdown s \<or> xs \<noteq> []"
    and "l = (if holds p then Some (Pool_thread i) else if holds (tp_pc s i) then None else tp_lock s)"
    and "holds p \<longrightarrow> holds (tp_pc s i) \<or> tp_lock s = None" and "pc_task p = None" "pc_task (tp_pc s i) = None"
  shows "tp_inv n (goto i p (s\<lparr>tp_lock := l\<rparr>)) xs"
proof (rule tp_inv_moved [OF assms(1)])
  show "tp_ctrl n (goto i p (s\<lparr>tp_lock := l\<rparr>)) xs"
    using assms by (intro tp_ctrl_goto) (auto simp: tp_inv_def)
qed (use assms(7,8) in \<open>auto simp: goto_def\<close>)

lemma goto_lock: "goto i p s = goto i p (s\<lparr>tp_lock := tp_lock s\<rparr>)"
  by simp

lemma tp_ctrl_cong:
  assumes "tp_ctrl n s xs" and "tp_lock s' = tp_lock s" "tp_pc s' = tp_pc s" "tp_main s' = tp_main s" "tp_shutdown s' = tp_shutdown s"
    and "xs = ys \<or> tp_lock s = None"
  shows "tp_ctrl n s' ys"
proof -
  note D = tp_ctrlD [OF assms(1)]
  have test: "tp_shutdown s \<or> ys \<noteq> []" if "i < n" "tp_pc s i = At_test" for i
    using D(1,3) [of i] assms(6) that by (auto simp: holds_def)
  have "tp_ctrl n s ys"
    by (rule tp_ctrlI) ((rule D(1,2,4) | erule D(5) | erule (1) D(6,7) test)+)
  then show ?thesis
    unfolding tp_ctrl_def assms(2-5) .
qed

lemma take_work_inv:
  assumes inv: "tp_inv n s xs" and i: "i < n" "tp_pc s i = At_test" and sh: "\<not> tp_shutdown s"
  shows "\<exists>s' ys. take_work i s = Next s' \<and> tp_inv n s' ys"
proof -
  have B: "tp_base s xs" and C: "tp_ctrl n s xs" and P: "tp_ptrs n s xs" and L: "tp_log n s xs"
    using inv by (auto simp: tp_inv_def)
  have nd: "tp_main s \<noteq> Destroyed"
    using C sh unfolding tp_ctrl_def by auto
  obtain p ys where xs: "xs = p # ys"
    using C i sh unfolding tp_ctrl_def by (cases xs) auto
  have size: "tp_size s = int (length xs)" and added: "tp_added s = tp_started s @ map (\<lambda>p. the (load (tp_workers s) p)) xs"
    using L nd by (auto simp: tp_log_def)
  have q: "seq_rep (tp_queue s) (p # ys)"
    using B xs by (simp add: tp_base_def)
  obtain q' where q': "queue_dequeue (snd (tp_queue s)) (fst (tp_queue s)) = Some (0, Some p, q')" "seq_rep q' ys"
    using que.remove_Cons [OF q] by blast
  obtain t where t: "load (tp_workers s) p = Some t"
    using P xs by (auto simp: tp_ptrs_def)
  have c: "c_int (tp_size s - 1) = Some (int (length ys))"
    using q size xs by (auto simp: c_int_def seq_rep_def INT_MIN_def INT_MAX_def)
  define s0 where "s0 = s\<lparr>tp_size := int (length ys), tp_queue := q', tp_started := tp_started s @ [t]\<rparr>"
  define s' where "s' = goto i (Working p) (s0\<lparr>tp_lock := None\<rparr>)"
  have run: "take_work i s = Next s'"
    using queue_peek_seq [OF q] q'(1) t c size xs by (simp add: take_work_def s'_def s0_def)
  have "tp_ctrl n (goto i (Working p) (s\<lparr>tp_lock := None\<rparr>)) xs"
    by (rule tp_ctrl_goto [OF C]) (use i in \<open>auto simp: holds_def\<close>)
  then have "tp_ctrl n s' ys"
    by (rule tp_ctrl_cong) (simp_all add: s'_def s0_def goto_def)
  moreover have "tp_base s' ys"
    using B q' queue_dequeue_fails [of _ _ _ _ "fst q'" "snd q'"] q'(1) by (auto simp: tp_base_def s'_def s0_def goto_def)
  moreover have "tp_ptrs n s' ys"
    using P xs t i unfolding tp_ptrs_def s'_def s0_def goto_def by (auto split: if_splits)
  moreover have "tp_log n s' ys"
  proof -
    have "(\<Sum>j<n. running (tp_workers s) (((tp_pc s)(i := Working p)) j)) = (\<Sum>j<n. running (tp_workers s) (tp_pc s j)) + {#t#}"
      using sum_running_upd [OF i(1), of "tp_workers s" "tp_pc s" "Working p"] i(2) t by simp
    then show ?thesis
      using L added xs t nd by (simp add: tp_log_def s'_def s0_def goto_def)
  qed
  ultimately show ?thesis
    using run by (auto simp: tp_inv_def)
qed

lemma tp_ptrsD:
  assumes P: "tp_ptrs n s xs" and i: "i < n" "pc_task (tp_pc s i) = Some p"
  shows "p \<notin> set xs" "load (tp_workers s) p \<noteq> None" "j < n \<Longrightarrow> pc_task (tp_pc s j) = Some p \<Longrightarrow> j = i"
    "main_task (tp_main s) \<noteq> Some p"
proof -
  note A = P [unfolded tp_ptrs_def, THEN conjunct2, THEN conjunct2, THEN conjunct1, rule_format, OF i]
  note M = P [unfolded tp_ptrs_def, THEN conjunct2, THEN conjunct2, THEN conjunct2, rule_format, of p]
  show "p \<notin> set xs" "load (tp_workers s) p \<noteq> None"
    by (rule A [THEN conjunct1], rule A [THEN conjunct2, THEN conjunct1])
  show "j < n \<Longrightarrow> pc_task (tp_pc s j) = Some p \<Longrightarrow> j = i"
    using A by simp
  show "main_task (tp_main s) \<noteq> Some p"
    using M i by auto
qed

lemma tp_ptrs_mainD:
  assumes P: "tp_ptrs n s xs" and p: "main_task (tp_main s) = Some p"
  shows "p \<notin> set xs" "load (tp_workers s) p \<noteq> None"
  using P [unfolded tp_ptrs_def, THEN conjunct2, THEN conjunct2, THEN conjunct2, rule_format, OF p] by simp_all

lemma tp_ptrs_queueD:
  assumes P: "tp_ptrs n s xs"
  shows "distinct xs" "p \<in> set xs \<Longrightarrow> load (tp_workers s) p \<noteq> None"
  using P [unfolded tp_ptrs_def] by simp_all

lemma tp_ptrsI:
  assumes "distinct xs" and "\<And>p. p \<in> set xs \<Longrightarrow> load (tp_workers s) p \<noteq> None"
    and "\<And>i p. i < n \<Longrightarrow> pc_task (tp_pc s i) = Some p \<Longrightarrow> p \<notin> set xs \<and> load (tp_workers s) p \<noteq> None"
    and "\<And>i j p. i < n \<Longrightarrow> j < n \<Longrightarrow> pc_task (tp_pc s i) = Some p \<Longrightarrow> pc_task (tp_pc s j) = Some p \<Longrightarrow> j = i"
    and "\<And>p. main_task (tp_main s) = Some p \<Longrightarrow> p \<notin> set xs \<and> load (tp_workers s) p \<noteq> None"
    and "\<And>i p. main_task (tp_main s) = Some p \<Longrightarrow> i < n \<Longrightarrow> pc_task (tp_pc s i) \<noteq> Some p"
  shows "tp_ptrs n s xs"
  unfolding tp_ptrs_def using assms by simp

lemma working_inv:
  assumes inv: "tp_inv n s xs" and i: "i < n" "tp_pc s i = Working p"
  shows "\<exists>t. load (tp_workers s) p = Some t \<and> tp_inv n (goto i (Freeing p) (s\<lparr>tp_done := tp_done s @ [t]\<rparr>)) xs"
proof -
  have B: "tp_base s xs" and C: "tp_ctrl n s xs" and P: "tp_ptrs n s xs" and L: "tp_log n s xs"
    using inv by (auto simp: tp_inv_def)
  obtain t where t: "load (tp_workers s) p = Some t"
    using tp_ptrsD(2) [OF P i(1), of p] i(2) by auto
  let ?s = "goto i (Freeing p) (s\<lparr>tp_done := tp_done s @ [t]\<rparr>)"
  have "tp_ctrl n (goto i (Freeing p) (s\<lparr>tp_lock := tp_lock s\<rparr>)) xs"
    by (rule tp_ctrl_goto [OF C]) (use i in \<open>auto simp: holds_def\<close>)
  then have "tp_ctrl n ?s xs"
    by (rule tp_ctrl_cong) (simp_all add: goto_def)
  moreover have "pc_task (((tp_pc s)(i := Freeing p)) j) = pc_task (tp_pc s j)" for j
    using i(2) by simp
  then have "tp_ptrs n ?s xs"
    using P unfolding tp_ptrs_def goto_def by simp
  moreover have "tp_log n ?s xs"
    using L sum_running_upd [OF i(1), of "tp_workers s" "tp_pc s" "Freeing p"] i(2) t by (simp add: tp_log_def goto_def)
  moreover have "tp_base ?s xs"
    using B by (simp add: tp_base_def goto_def)
  ultimately show ?thesis
    using t by (auto simp: tp_inv_def)
qed

text \<open>The objects that are still needed are not touched.\<close>

lemma running_cong: "(\<And>p. pc = Working p \<Longrightarrow> load m' p = load m p) \<Longrightarrow> running m' pc = running m pc"
  by (cases pc) auto

lemma freeing_inv:
  assumes inv: "tp_inv n s xs" and i: "i < n" "tp_pc s i = Freeing p"
  shows "\<exists>m. mem_free (tp_workers s) p = Some m \<and> tp_inv n (goto i At_lock (s\<lparr>tp_workers := m\<rparr>)) xs"
proof -
  have B: "tp_base s xs" and C: "tp_ctrl n s xs" and P: "tp_ptrs n s xs" and L: "tp_log n s xs"
    using inv by (auto simp: tp_inv_def)
  obtain t where t: "load (tp_workers s) p = Some t"
    using tp_ptrsD(2) [OF P i(1), of p] i(2) by auto
  obtain m where m: "mem_free (tp_workers s) p = Some m" "load m = (load (tp_workers s))(p := None)"
      "fails m = fails (tp_workers s)" "mem_wf m"
    using free_live [OF t] B by (auto simp: tp_base_def)
  let ?s = "goto i At_lock (s\<lparr>tp_workers := m\<rparr>)"
  have new: "p \<notin> set xs" "\<And>j. j < n \<Longrightarrow> pc_task (tp_pc s j) = Some p \<Longrightarrow> j = i" "main_task (tp_main s) \<noteq> Some p"
    using tp_ptrsD [OF P i(1), of p] i(2) by simp_all
  have "tp_ctrl n (goto i At_lock (s\<lparr>tp_lock := tp_lock s\<rparr>)) xs"
    by (rule tp_ctrl_goto [OF C]) (use i in \<open>auto simp: holds_def\<close>)
  then have "tp_ctrl n ?s xs"
    by (rule tp_ctrl_cong) (simp_all add: goto_def)
  moreover have "tp_ptrs n ?s xs"
  proof (rule tp_ptrsI)
    fix j q assume j: "j < n" "pc_task (tp_pc ?s j) = Some q"
    then have "j \<noteq> i" "pc_task (tp_pc s j) = Some q"
      by (auto simp: goto_def split: if_splits)
    then show "q \<notin> set xs \<and> load (tp_workers ?s) q \<noteq> None"
      using tp_ptrsD(1,2) [OF P j(1)] new(2) [OF j(1)] m(2) by (auto simp: goto_def)
  next
    fix j k q assume "j < n" "k < n" "pc_task (tp_pc ?s j) = Some q" "pc_task (tp_pc ?s k) = Some q"
    then show "k = j"
      using tp_ptrsD(3) [OF P, of j q k] by (auto simp: goto_def split: if_splits)
  next
    fix j q assume "main_task (tp_main ?s) = Some q" "j < n"
    then show "pc_task (tp_pc ?s j) \<noteq> Some q"
      using tp_ptrsD(4) [OF P, of j q] by (auto simp: goto_def)
  next
    fix q assume "main_task (tp_main ?s) = Some q"
    then show "q \<notin> set xs \<and> load (tp_workers ?s) q \<noteq> None"
      using tp_ptrs_mainD [OF P, of q] new(3) m(2) by (auto simp: goto_def)
  qed (use tp_ptrs_queueD [OF P] new(1) m(2) in \<open>auto simp: goto_def\<close>)
  moreover have "tp_log n ?s xs"
  proof -
    have "(\<Sum>j<n. running m (((tp_pc s)(i := At_lock)) j)) = (\<Sum>j<n. running (tp_workers s) (((tp_pc s)(i := At_lock)) j))"
      using new(2) m(2) by (intro sum.cong refl running_cong) (auto split: if_splits)
    moreover have "map (\<lambda>q. the (load m q)) xs = map (\<lambda>q. the (load (tp_workers s) q)) xs"
      using new(1) m(2) by auto
    ultimately show ?thesis
      using L sum_running_upd [OF i(1), of "tp_workers s" "tp_pc s" At_lock] i(2) by (simp add: tp_log_def goto_def)
  qed
  moreover have "tp_base ?s xs"
    using B m by (simp add: tp_base_def goto_def)
  ultimately show ?thesis
    using m(1) by (auto simp: tp_inv_def)
qed

lemma add_worker_inv:
  assumes inv: "tp_inv n s xs" and idle: "tp_main s = Idle"
  shows "\<exists>s'. threadpool_add_worker t s = Next s' \<and> tp_inv n s' xs"
proof -
  have B: "tp_base s xs" and C: "tp_ctrl n s xs" and P: "tp_ptrs n s xs" and L: "tp_log n s xs"
    using inv by (auto simp: tp_inv_def)
  obtain p m where m: "malloc t (tp_workers s) = (p, m)" "p \<noteq> Null" "load (tp_workers s) p = None"
      "load m = (load (tp_workers s))(p := Some t)" "fails m = fails (tp_workers s)" "mem_wf m"
    using malloc_live [of "tp_workers s" t] B by (auto simp: tp_base_def)
  let ?s = "s\<lparr>tp_workers := m, tp_main := Add_lock p\<rparr>"
  have new: "p \<notin> set xs" "\<And>j. j < n \<Longrightarrow> pc_task (tp_pc s j) \<noteq> Some p"
    using P m(3) by (auto simp: tp_ptrs_def)
  note D = tp_ctrlD [OF C]
  have "\<not> tp_shutdown s"
    using D(4) idle by auto
  then have "tp_ctrl n ?s xs"
    using D(1,2,3) idle by (intro tp_ctrlI) auto
  moreover have "tp_ptrs n ?s xs"
    using P new m(4) unfolding tp_ptrs_def by (auto split: if_splits)
  moreover have "(\<Sum>j<n. running m (tp_pc s j)) = (\<Sum>j<n. running (tp_workers s) (tp_pc s j))"
    using new(2) m(4) by (intro sum.cong refl running_cong) force+
  then have "tp_log n ?s xs"
    using L idle map_load_other [OF new(1)] m(4) new(1) by (auto simp: tp_log_def)
  moreover have "tp_base ?s xs"
    using B m by (simp add: tp_base_def)
  moreover have "threadpool_add_worker t s = Next ?s"
    using m(1,2) by (cases p) (auto simp: threadpool_add_worker_def)
  ultimately show ?thesis
    by (auto simp: tp_inv_def)
qed

lemma add_locked_inv:
  assumes inv: "tp_inv n s xs" and main: "tp_main s = Add_locked p" and few: "int (length xs) < INT_MAX"
  shows "\<exists>s' t. add_locked p s = Next s' \<and> tp_inv n s' (xs @ [p])"
proof -
  have B: "tp_base s xs" and C: "tp_ctrl n s xs" and P: "tp_ptrs n s xs" and L: "tp_log n s xs"
    using inv by (auto simp: tp_inv_def)
  have "room (Suc 0) (tp_queue s)"
    using B few seq_rep_size [of "tp_queue s" xs] by (auto simp: tp_base_def room_def alloc_ok_def)
  then obtain q where q: "queue_enqueue (snd (tp_queue s)) (fst (tp_queue s)) p = Some (0, q)" "seq_rep q (xs @ [p])"
    using que.insert_ok [of "tp_queue s" xs 0 p] B by (auto simp: tp_base_def)
  obtain t where t: "load (tp_workers s) p = Some t"
    using P main by (auto simp: tp_ptrs_def)
  have size: "tp_size s = int (length xs)" and added: "tp_added s = tp_started s @ map (\<lambda>p. the (load (tp_workers s) p)) xs"
    using L main by (auto simp: tp_log_def)
  have c: "c_int (tp_size s + 1) = Some (int (length xs) + 1)"
    using size few by (simp add: c_int_def INT_MIN_def)
  define s' where "s' = s\<lparr>tp_queue := q, tp_size := int (length xs) + 1, tp_lock := None, tp_main := Add_signal, tp_added := tp_added s @ [t]\<rparr>"
  have run: "add_locked p s = Next s'"
    using q(1) c t by (simp add: add_locked_def s'_def)
  note D = tp_ctrlD [OF C]
  have lock: "tp_lock s = Some Main_thread"
    using D(2) main by simp
  then have "\<not> (i < n \<and> holds (tp_pc s i))" for i
    using D(1) [of i] by simp
  moreover have "\<not> tp_shutdown s"
    using D(4) main by auto
  ultimately have "tp_ctrl n s' (xs @ [p])"
    by (intro tp_ctrlI) (auto simp: s'_def)
  moreover have "tp_ptrs n s' (xs @ [p])"
    using P main t unfolding tp_ptrs_def s'_def by auto
  moreover have "tp_log n s' (xs @ [p])"
    using L added t by (simp add: tp_log_def s'_def)
  moreover have "tp_base s' (xs @ [p])"
    using B q queue_enqueue_fails [of _ _ _ _ "fst q" "snd q"] by (auto simp: tp_base_def s'_def)
  ultimately show ?thesis
    using run by (auto simp: tp_inv_def)
qed

lemma drain_queue_ok: "seq_rep q xs \<Longrightarrow> fails (snd q) = f \<Longrightarrow> \<exists>q'. drain_queue q = Some q' \<and> seq_rep q' [] \<and> fails (snd q') = f"
proof (induction xs arbitrary: q)
  case Nil
  then show ?case
    using queue_peek_seq [OF Nil(1)] by (subst drain_queue.simps) auto
next
  case (Cons x xs)
  obtain q' where q': "queue_dequeue (snd q) (fst q) = Some (0, Some x, q')" "seq_rep q' xs"
    using que.remove_Cons [OF Cons.prems(1)] by blast
  have "fails (snd q') = f"
    using queue_dequeue_fails [of _ _ _ _ "fst q'" "snd q'"] q'(1) Cons.prems(2) by auto
  then show ?case
    using Cons.IH [OF q'(2)] queue_peek_seq [OF Cons.prems(1)] q'(1) by (subst drain_queue.simps) auto
qed

lemma tp_ctrl_wake:
  assumes C: "tp_ctrl n s xs" and main: "tp_main s = Add_signal \<and> c = Idle \<or> tp_main s = Broadcast \<and> c = Join 0"
  shows "tp_ctrl n (wake P (s\<lparr>tp_main := c\<rparr>)) xs"
proof (rule tp_ctrlI)
  note D = tp_ctrlD [OF C]
  fix i
  show "tp_lock (wake P (s\<lparr>tp_main := c\<rparr>)) = Some (Pool_thread i) \<longleftrightarrow> i < n \<and> holds (tp_pc (wake P (s\<lparr>tp_main := c\<rparr>)) i)"
    using D(1) [of i] by (auto simp: wake_def holds_def)
  show "tp_shutdown (wake P (s\<lparr>tp_main := c\<rparr>)) \<or> xs \<noteq> []" if "i < n" "tp_pc (wake P (s\<lparr>tp_main := c\<rparr>)) i = At_test"
    using D(3) [of i] that by (auto simp: wake_def split: if_splits)
qed (use tp_ctrlD(2,4) [OF C] main in \<open>auto simp: wake_def\<close>)

lemma tp_inv_wake:
  assumes "tp_inv n s xs" and "tp_main s = Add_signal \<and> c = Idle \<or> tp_main s = Broadcast \<and> c = Join 0"
  shows "tp_inv n (wake P (s\<lparr>tp_main := c\<rparr>)) xs"
proof (rule tp_inv_moved [OF assms(1)])
  show "tp_ctrl n (wake P (s\<lparr>tp_main := c\<rparr>)) xs"
    using assms by (intro tp_ctrl_wake) (auto simp: tp_inv_def)
qed (use assms(2) in \<open>auto simp: wake_def\<close>)

text \<open>The other steps of the main thread that change nothing but its position, the mutex and the flag.\<close>

lemma tp_inv_main:
  assumes inv: "tp_inv n s xs"
    and "tp_main s = Idle \<and> s' = s\<lparr>tp_shutdown := True, tp_main := Broadcast\<rparr> \<or>
      tp_main s = Add_lock p \<and> tp_lock s = None \<and> s' = s\<lparr>tp_lock := Some Main_thread, tp_main := Add_locked p\<rparr> \<or>
      tp_main s = Join k \<and> k < n \<and> tp_pc s k = Exited \<and> s' = s\<lparr>tp_main := Join (Suc k)\<rparr> \<or>
      tp_main s = Join k \<and> \<not> k < n \<and> s' = s\<lparr>tp_main := Drain\<rparr>"
  shows "tp_inv n s' xs"
proof -
  have C: "tp_ctrl n s xs"
    using inv by (simp add: tp_inv_def)
  note D = tp_ctrlD [OF C]
  have "tp_ctrl n s' xs"
    using assms(2)
  proof (elim disjE conjE)
    assume "tp_main s = Idle" "s' = s\<lparr>tp_shutdown := True, tp_main := Broadcast\<rparr>"
    then show ?thesis
      using D(1,2) by (intro tp_ctrlI) auto
  next
    assume "tp_main s = Add_lock p" "tp_lock s = None" "s' = s\<lparr>tp_lock := Some Main_thread, tp_main := Add_locked p\<rparr>"
    then show ?thesis
      using D(1,3,4) by (intro tp_ctrlI) auto
  next
    assume "tp_main s = Join k" "k < n" "tp_pc s k = Exited" "s' = s\<lparr>tp_main := Join (Suc k)\<rparr>"
    then show ?thesis
      using D(1,2,3,4) D(6) [of k] by (intro tp_ctrlI) (auto simp: less_Suc_eq)
  next
    assume "tp_main s = Join k" "\<not> k < n" "s' = s\<lparr>tp_main := Drain\<rparr>"
    then show ?thesis
      using D(1,2,3,4) D(6) [of k] by (intro tp_ctrlI) auto
  qed
  then show ?thesis
    by (rule tp_inv_moved [OF inv]) (use assms(2) in auto)
qed

lemma drain_inv:
  assumes inv: "tp_inv n s xs" and main: "tp_main s = Drain"
  shows "\<exists>q. drain_queue (tp_queue s) = Some q \<and> tp_inv n (s\<lparr>tp_queue := q, tp_main := Destroyed\<rparr>) []"
proof -
  have B: "tp_base s xs" and C: "tp_ctrl n s xs" and P: "tp_ptrs n s xs" and L: "tp_log n s xs"
    using inv by (auto simp: tp_inv_def)
  note D = tp_ctrlD [OF C]
  obtain q where q: "drain_queue (tp_queue s) = Some q" "seq_rep q []" "fails (snd q) = (\<lambda>_. False)"
    using drain_queue_ok [of "tp_queue s" xs "\<lambda>_. False"] B unfolding tp_base_def by blast
  have "tp_ctrl n (s\<lparr>tp_queue := q, tp_main := Destroyed\<rparr>) []"
    using D(1,2,4,7) main by (intro tp_ctrlI) auto
  then show ?thesis
    using B P L q by (auto simp: tp_inv_def tp_base_def tp_ptrs_def tp_log_def)
qed

definition kept :: "nat \<Rightarrow> 't threadpool res \<Rightarrow> bool" where
  "kept n r \<longleftrightarrow> (case r of Blocked \<Rightarrow> True | Crash \<Rightarrow> False | Next s \<Rightarrow> \<exists>xs. tp_inv n s xs)"

lemma kept_simps [simp]: "kept n Blocked" "\<not> kept n Crash" "kept n (Next s) \<longleftrightarrow> (\<exists>xs. tp_inv n s xs)"
  by (simp_all add: kept_def)

lemma handle_kept:
  assumes inv: "tp_inv n s xs" and i: "i < n"
  shows "kept n (threadpool_handle i s)"
proof (cases "tp_pc s i")
  case At_lock
  then show ?thesis
    using tp_inv_goto [OF inv i, of At_check "Some (Pool_thread i)"] by (auto simp: threadpool_handle_def holds_def)
next
  case At_check
  have "tp_main s \<noteq> Destroyed"
    using tp_ctrlD(7) [of n s xs i] inv i At_check by (auto simp: tp_inv_def)
  then have "tp_size s = int (length xs)"
    using inv by (auto simp: tp_inv_def tp_log_def)
  moreover have "tp_lock s = Some (Pool_thread i)"
    using tp_ctrlD(1) [of n s xs i] inv i At_check by (auto simp: tp_inv_def holds_def)
  then have "s\<lparr>tp_lock := Some (Pool_thread i)\<rparr> = s"
    by simp
  ultimately show ?thesis
    using tp_inv_goto [OF inv i, of Sleepy "Some (Pool_thread i)"] tp_inv_goto [OF inv i, of At_test "Some (Pool_thread i)"] At_check
    by (auto simp: threadpool_handle_def holds_def)
next
  case Sleepy
  then show ?thesis
    using tp_inv_goto [OF inv i, of Waiting_cond None] by (auto simp: threadpool_handle_def holds_def)
next
  case Woken
  then show ?thesis
    using tp_inv_goto [OF inv i, of At_check "Some (Pool_thread i)"] by (auto simp: threadpool_handle_def holds_def)
next
  case At_test
  then show ?thesis
    using tp_inv_goto [OF inv i, of Exited None] take_work_inv [OF inv i At_test]
    by (cases "tp_shutdown s") (simp_all add: threadpool_handle_def holds_def, blast, metis kept_simps(3))
next
  case (Working p)
  then show ?thesis
    using working_inv [OF inv i Working] by (auto simp: threadpool_handle_def)
next
  case (Freeing p)
  then show ?thesis
    using freeing_inv [OF inv i Freeing] by (auto simp: threadpool_handle_def)
qed (simp_all add: threadpool_handle_def)

lemma tp_inv_few: "tp_inv n s xs \<Longrightarrow> tp_main s \<noteq> Destroyed \<Longrightarrow> length xs \<le> length (tp_added s)"
  by (auto simp: tp_inv_def tp_log_def)

lemma main_kept:
  assumes inv: "tp_inv n s xs" and few: "int (length (tp_added s)) < INT_MAX"
  shows "kept n (main_step n cmd w s)"
proof (cases "tp_main s")
  case Idle
  show ?thesis
  proof (cases cmd)
    case None
    then show ?thesis
      using Idle tp_inv_main [OF inv, of "s\<lparr>tp_shutdown := True, tp_main := Broadcast\<rparr>"] inv
      by (auto simp: main_step_def threadpool_destroy_def)
  next
    case (Some t)
    then show ?thesis
      using Idle add_worker_inv [OF inv Idle, of t] by (auto simp: main_step_def)
  qed
next
  case (Add_lock p)
  then show ?thesis
    using tp_inv_main [OF inv, of "s\<lparr>tp_lock := Some Main_thread, tp_main := Add_locked p\<rparr>" p] by (auto simp: main_step_def)
next
  case (Add_locked p)
  then show ?thesis
    using add_locked_inv [OF inv Add_locked] tp_inv_few [OF inv] few by (auto simp: main_step_def)
next
  case Add_signal
  then show ?thesis
    using tp_inv_wake [OF inv, of Idle] by (auto simp: main_step_def)
next
  case Broadcast
  then show ?thesis
    using tp_inv_wake [OF inv, of "Join 0"] by (auto simp: main_step_def)
next
  case (Join k)
  then show ?thesis
    using tp_inv_main [OF inv, of "s\<lparr>tp_main := Join (Suc k)\<rparr>" _ k] tp_inv_main [OF inv, of "s\<lparr>tp_main := Drain\<rparr>" _ k]
    by (auto simp: main_step_def)
next
  case Drain
  then show ?thesis
    using drain_inv [OF inv Drain] by (auto simp: main_step_def)
qed (simp add: main_step_def)

lemma tp_act_kept:
  assumes inv: "tp_inv n s xs" and few: "int (length (tp_added s)) < INT_MAX"
  shows "kept n (tp_act n a s)"
proof (cases a)
  case (Spurious i)
  then show ?thesis
    using tp_inv_goto [OF inv, of i Woken "tp_lock s"] by (auto simp: holds_def)
qed (use handle_kept [OF inv] main_kept [OF inv few] in auto)


lemma tp_act_added: "tp_act n a s = Next s' \<Longrightarrow> length (tp_added s) \<le> length (tp_added s')"
  by (cases a) (auto simp: threadpool_handle_def take_work_def main_step_def threadpool_add_worker_def add_locked_def
      threadpool_destroy_def goto_def wake_def split: if_splits pc.splits cpc.splits option.splits prod.splits ptr.splits)

lemma tp_reach_inv: "tp_reach n s \<Longrightarrow> int (length (tp_added s)) < INT_MAX \<Longrightarrow> \<exists>xs. tp_inv n s xs"
proof (induction rule: tp_reach.induct)
  case tp_start
  show ?case
    using tp_init_inv by blast
next
  case (tp_step s a s')
  then have few: "int (length (tp_added s)) < INT_MAX"
    using tp_act_added [OF tp_step.hyps(2)] by simp
  then obtain xs where "tp_inv n s xs"
    using tp_step.IH by blast
  then show ?case
    using tp_act_kept [of n s xs a] few tp_step.hyps(2) by simp
qed

section \<open>Shutdown\<close>

text \<open>
  \<open>tp_settled\<close>: the flag is set and the broadcast is over, and no thread is waiting or about to wait. From there every step
  brings the end closer.
\<close>

definition tp_settled :: "nat \<Rightarrow> 't threadpool \<Rightarrow> bool" where
  "tp_settled n s \<longleftrightarrow> tp_main s \<in> {Drain, Destroyed} \<union> range Join \<and> (\<forall>i<n. tp_pc s i \<notin> {Sleepy, Waiting_cond})"

fun pc_rank :: "pc \<Rightarrow> nat" where
  "pc_rank (Working p) = 6"
| "pc_rank (Freeing p) = 5"
| "pc_rank At_lock = 4"
| "pc_rank Woken = 4"
| "pc_rank At_check = 3"
| "pc_rank At_test = 2"
| "pc_rank _ = 0"

fun main_rank :: "nat \<Rightarrow> cpc \<Rightarrow> nat" where
  "main_rank n (Join k) = 2 + (n - k)"
| "main_rank n Drain = 1"
| "main_rank n _ = 0"

definition tp_rank :: "nat \<Rightarrow> 't threadpool \<Rightarrow> nat" where
  "tp_rank n s = (\<Sum>i<n. pc_rank (tp_pc s i)) + main_rank n (tp_main s)"

lemma sum_rank_upd:
  fixes n :: nat
  assumes "i < n" and "pc_rank p < pc_rank (g i)"
  shows "(\<Sum>j<n. pc_rank ((g(i := p)) j)) < (\<Sum>j<n. pc_rank (g j))"
  using assms by (intro sum_strict_mono_ex1) auto

lemma settled_goto:
  assumes "tp_settled n s" and "i < n" and "pc_rank p < pc_rank (tp_pc s i)" and "p \<notin> {Sleepy, Waiting_cond}"
    and "tp_pc s' = (tp_pc s)(i := p)" "tp_main s' = tp_main s"
  shows "tp_settled n s' \<and> tp_rank n s' < tp_rank n s"
  using assms sum_rank_upd [of i n p "tp_pc s"] by (auto simp: tp_settled_def tp_rank_def)

lemma handle_settled:
  assumes inv: "tp_inv n s xs" and st: "tp_settled n s" and i: "i < n" and "threadpool_handle i s = Next s'"
  shows "tp_settled n s' \<and> tp_rank n s' < tp_rank n s"
proof -
  have sh: "tp_shutdown s"
    using inv st tp_ctrlD(4) [of n s xs] by (auto simp: tp_inv_def tp_settled_def)
  have "tp_pc s i \<noteq> Sleepy"
    using st i by (auto simp: tp_settled_def)
  then have "pc_rank (tp_pc s' i) < pc_rank (tp_pc s i) \<and> tp_pc s' i \<notin> {Sleepy, Waiting_cond} \<and>
      tp_pc s' = (tp_pc s)(i := tp_pc s' i) \<and> tp_main s' = tp_main s"
    using assms(4) sh by (cases "tp_pc s i") (auto simp: threadpool_handle_def goto_def split: if_splits option.splits)
  then show ?thesis
    using settled_goto [OF st i] by blast
qed

lemma main_settled:
  assumes "tp_settled n s" and "main_step n cmd w s = Next s'"
  shows "tp_settled n s' \<and> tp_rank n s' < tp_rank n s"
  using assms by (auto simp: tp_settled_def tp_rank_def main_step_def split: if_splits option.splits)

lemma act_settled:
  assumes "tp_inv n s xs" and "tp_settled n s" and "tp_act n a s = Next s'"
  shows "tp_settled n s' \<and> tp_rank n s' < tp_rank n s"
  using assms handle_settled [OF assms(1,2)] main_settled [OF assms(2)]
  by (cases a) (auto simp: tp_settled_def split: if_splits)

lemma settled_added:
  assumes "tp_act n a s = Next s'" and "tp_settled n s"
  shows "tp_added s' = tp_added s"
  using assms by (cases a) (auto simp: threadpool_handle_def take_work_def main_step_def tp_settled_def goto_def wake_def
      split: if_splits pc.splits option.splits prod.splits)

lemma tp_schedule_reach: "tp_reach n s \<Longrightarrow> tp_schedule n as s = Some s' \<Longrightarrow> tp_reach n s'"
  by (induction "as" arbitrary: s) (auto split: res.splits intro: tp_step)

lemma settled_progress:
  assumes inv: "tp_inv n s xs" and few: "int (length (tp_added s)) < INT_MAX" and st: "tp_settled n s"
    and stuck: "\<And>a s'. tp_act n a s \<noteq> Next s'"
  shows "tp_main s = Destroyed"
proof -
  have C: "tp_ctrl n s xs"
    using inv by (simp add: tp_inv_def)
  have blocked: "tp_act n a s = Blocked" for a
    using tp_act_kept [OF inv few, of a] stuck [of a] by (cases "tp_act n a s") auto
  have thread: "threadpool_handle i s = Blocked" if "i < n" for i
    using blocked [of "Run i"] that by simp
  have exited: "tp_pc s i = Exited" if i: "i < n" for i
  proof (rule ccontr)
    assume "tp_pc s i \<noteq> Exited"
    then have "tp_lock s \<noteq> None"
      using thread [OF i] st i by (cases "tp_pc s i") (auto simp: threadpool_handle_def tp_settled_def take_work_def split: if_splits option.splits prod.splits)
    moreover have "tp_lock s \<noteq> Some Main_thread"
      using tp_ctrlD(2) [OF C] st by (auto simp: tp_settled_def)
    ultimately obtain j where j: "tp_lock s = Some (Pool_thread j)"
      by (metis option.exhaust owner.exhaust)
    then have "j < n" "holds (tp_pc s j)"
      using tp_ctrlD(1) [OF C, of j] by auto
    then show False
      using thread [of j] by (auto simp: threadpool_handle_def holds_def take_work_def split: if_splits option.splits prod.splits)
  qed
  have "main_step n None 0 s = Blocked"
    using blocked [of "Main None 0"] by simp
  then show ?thesis
    using st exited by (auto simp: main_step_def tp_settled_def split: if_splits option.splits)
qed

section \<open>Properties\<close>

text \<open>
  C10: However the threads are scheduled, the pool never runs into undefined behaviour or a failed \<^verbatim>\<open>assert\<close> (as long as no
  allocation fails and fewer than \<^verbatim>\<open>INT_MAX\<close> tasks are added); at most one thread is between taking and releasing the
  mutex; the tasks taken are the first tasks added, in that order, \<^verbatim>\<open>cur_queue_size\<close> counts the others; and every task that was
  taken has been executed exactly once or is being executed by exactly one thread.
\<close>

theorem pool_runs_each_task_once:
  assumes "tp_reach n s" and "int (length (tp_added s)) < INT_MAX"
  shows "tp_act n a s \<noteq> Crash \<and> (\<forall>i<n. \<forall>j<n. holds (tp_pc s i) \<and> holds (tp_pc s j) \<longrightarrow> i = j) \<and>
    (tp_main s \<noteq> Destroyed \<longrightarrow> (\<exists>pending. tp_added s = tp_started s @ pending \<and> tp_size s = int (length pending))) \<and>
    mset (tp_started s) = mset (tp_done s) + (\<Sum>i<n. running (tp_workers s) (tp_pc s i))"
proof -
  obtain xs where inv: "tp_inv n s xs"
    using tp_reach_inv [OF assms] by blast
  have "i = j" if "i < n" "j < n" "holds (tp_pc s i)" "holds (tp_pc s j)" for i j
    using tp_ctrlD(1) [of n s xs i] tp_ctrlD(1) [of n s xs j] inv that by (auto simp: tp_inv_def)
  moreover have "tp_act n a s \<noteq> Crash"
    using tp_act_kept [OF inv assms(2), of a] by auto
  ultimately show ?thesis
    using inv by (auto simp: tp_inv_def tp_log_def)
qed

text \<open>
  C11: \<^verbatim>\<open>threadpool_destroy\<close> ends when its broadcast reaches every waiting thread: from a state in which no thread is waiting or
  about to wait any more, every schedule is finite, and where it cannot go on all threads have exited and the pool is destroyed.
\<close>

theorem shutdown_terminates:
  assumes "tp_reach n s" and "int (length (tp_added s)) < INT_MAX" and "tp_settled n s" and "tp_schedule n as s = Some s'"
  shows "length as \<le> tp_rank n s \<and>
    ((\<forall>a s2. tp_act n a s' \<noteq> Next s2) \<longrightarrow> tp_main s' = Destroyed \<and> (\<forall>i<n. tp_pc s' i = Exited))"
proof -
  obtain xs where "tp_inv n s xs"
    using tp_reach_inv [OF assms(1,2)] by blast
  then show ?thesis
    using assms(2-4)
  proof (induction "as" arbitrary: s xs)
    case Nil
    then show ?case
      using settled_progress [OF Nil.prems(1-3)] tp_ctrlD(7) [of n s xs] by (auto simp: tp_inv_def)
  next
    case (Cons a "as")
    then obtain s1 where s1: "tp_act n a s = Next s1" "tp_schedule n as s1 = Some s'"
      by (auto split: res.splits)
    obtain ys where "tp_inv n s1 ys"
      using tp_act_kept [OF Cons.prems(1,2), of a] s1(1) by auto
    moreover have "tp_settled n s1" "tp_rank n s1 < tp_rank n s"
      using act_settled [OF Cons.prems(1,3) s1(1)] by auto
    moreover have "tp_added s1 = tp_added s"
      using s1(1) Cons.prems(3) by (rule settled_added)
    ultimately show ?case
      using Cons.IH [of s1 ys] Cons.prems(2) s1(2) by auto
  qed
qed

text \<open>
  C38: \<^verbatim>\<open>threadpool_destroy\<close> sets the flag and broadcasts without the mutex. A thread that has seen the flag unset and is about
  to wait then misses the broadcast: a pool with one thread reaches a state in which the flag is set, the thread waits, the main
  thread waits for it to exit, and neither can go on.
\<close>

theorem destroy_loses_wakeup:
  "\<exists>s :: nat threadpool. tp_reach 1 s \<and> tp_shutdown s \<and> tp_pc s 0 = Waiting_cond \<and> tp_main s = Join 0 \<and>
     (\<forall>i. tp_act 1 (Run i) s = Blocked) \<and> (\<forall>cmd w. tp_act 1 (Main cmd w) s = Blocked)"
proof -
  let ?as = "[Run 0, Run 0, Main None 0, Main None 0, Run 0] :: nat action list"
  obtain s :: "nat threadpool" where s: "tp_schedule 1 ?as threadpool_init = Some s" "tp_shutdown s" "tp_pc s 0 = Waiting_cond"
      "tp_main s = Join 0"
    by (auto simp: threadpool_init_def threadpool_handle_def main_step_def threadpool_destroy_def goto_def wake_def)
  then have "tp_reach 1 s"
    using tp_schedule_reach [OF tp_start] by blast
  then show ?thesis
    using s by (intro exI [of _ s]) (auto simp: threadpool_handle_def main_step_def)
qed

section \<open>Witnesses\<close>

text \<open>One thread executes task 5; then the main thread destroys the pool.\<close>

lemmas tp_eval = threadpool_init_def threadpool_handle_def main_step_def threadpool_destroy_def goto_def wake_def
  threadpool_add_worker_def malloc_def empty_mem_def add_locked_def take_work_def queue_enqueue_def queue_dequeue_def
  queue_peek_def list_ins_next_def list_rem_next_def list_init_def list_zero_def c_int_def INT_MIN_def INT_MAX_def

definition ex_run :: "nat action list" where
  "ex_run = [Main (Some 5) 0, Main None 0, Main None 0, Main None 0, Run 0, Run 0, Run 0, Run 0]"

definition ex_close :: "nat action list" where
  "ex_close = [Run 0, Run 0, Run 0, Run 0, Main None 0, Main None 0, Main None 0]"

lemma ex_pool_run:
  "\<exists>s. tp_schedule 1 ex_run threadpool_init = Some s \<and> tp_done s = [5] \<and> tp_pc s 0 = Freeing (Ptr 0) \<and> tp_added s = [5]"
  unfolding ex_run_def by (simp add: tp_eval)

lemma ex_pool_close:
  "\<exists>s s1. tp_schedule 1 (ex_run @ [Main None 0, Main None 0]) threadpool_init = Some s \<and> tp_added s = [5] \<and> tp_settled 1 s \<and>
     tp_schedule 1 ex_close s = Some s1 \<and> tp_pc s1 0 = Exited \<and> tp_main s1 = Destroyed"
  unfolding ex_run_def ex_close_def by (simp add: tp_eval drain_queue.simps tp_settled_def)

theorem pool_runs_each_task_once_witness:
  "\<exists>s. tp_schedule 1 ex_run threadpool_init = Some s \<and> tp_act 1 (Run 0) s \<noteq> Crash \<and> tp_done s = [5] \<and> mset (tp_started s) = mset [5]"
proof -
  obtain s where s: "tp_schedule 1 ex_run threadpool_init = Some s" "tp_done s = [5]" "tp_pc s 0 = Freeing (Ptr 0)" "tp_added s = [5]"
    using ex_pool_run by blast
  then show ?thesis
    using pool_runs_each_task_once [OF tp_schedule_reach [OF tp_start s(1)], of "Run 0"] by (simp add: INT_MAX_def)
qed

theorem shutdown_terminates_witness:
  "\<exists>s s1. tp_schedule 1 (ex_run @ [Main None 0, Main None 0]) threadpool_init = Some s \<and> tp_schedule 1 ex_close s = Some s1 \<and>
     7 \<le> tp_rank 1 s \<and> tp_main s1 = Destroyed"
proof -
  obtain s s1 where s: "tp_schedule 1 (ex_run @ [Main None 0, Main None 0]) threadpool_init = Some s" "tp_added s = [5]" "tp_settled 1 s"
      "tp_schedule 1 ex_close s = Some s1" "tp_pc s1 0 = Exited" "tp_main s1 = Destroyed"
    using ex_pool_close by blast
  then show ?thesis
    using shutdown_terminates [OF tp_schedule_reach [OF tp_start s(1)] _ s(3,4)] by (simp add: INT_MAX_def ex_close_def)
qed

end
