(* ===== verification/Processpool.thy ===== *)
theory Processpool
  imports Prelude "HOL-Library.Monad_Syntax" "HOL-Library.Word"
begin

text \<open>
  The process pool of \<^verbatim>\<open>lib/processpool/processpool.h\<close>: the constructor that forks the children, the event loop of the parent, which
  hands new connections to the children in turn and looks after signals, and the event loop of a child. What \<^verbatim>\<open>fork\<close>, \<^verbatim>\<open>epoll_wait\<close>,
  \<^verbatim>\<open>recv\<close>, \<^verbatim>\<open>accept\<close> and \<^verbatim>\<open>waitpid\<close> give is input; what is sent, closed and killed is a log. \<^const>\<open>None\<close> is a failed \<^verbatim>\<open>assert\<close> or an access
  outside an array.
\<close>

section \<open>The pool\<close>

definition MAX_PROCESS_NUMBER :: nat where "MAX_PROCESS_NUMBER = 16"
definition USER_PER_PROCESS :: int where "USER_PER_PROCESS = 65535"

text \<open>A child: its process id, and which ends of its pipe are open in this process.\<close>

record process =
  m_pid :: int
  m_pipe0 :: bool
  m_pipe1 :: bool

definition process_new :: process where
  "process_new = \<lparr>m_pid = -1, m_pipe0 = False, m_pipe1 = False\<rparr>"

datatype io = Send_conn nat | Close_pipe nat nat | Kill int

record processpool =
  m_process_number :: nat
  m_idx :: int
  m_stop :: bool
  m_sub_process :: "process list"
  sub_process_counter :: nat
  pl_log :: "io list"

text \<open>
  The loop of the constructor from index \<open>i\<close>, on what the calls of \<^verbatim>\<open>fork\<close> give: 0 in the child.
\<close>

fun fork_loop :: "nat \<Rightarrow> int list \<Rightarrow> processpool \<Rightarrow> processpool option" where
  "fork_loop i [] s = Some s"
| "fork_loop i (pid # pids) s =
     (if pid < 0 then None
      else if pid > 0 then
        fork_loop (Suc i) pids
          (s\<lparr>m_sub_process := (m_sub_process s)[i := \<lparr>m_pid = pid, m_pipe0 = True, m_pipe1 = False\<rparr>], pl_log := pl_log s @ [Close_pipe i 1]\<rparr>)
      else Some (s\<lparr>m_sub_process := (m_sub_process s)[i := \<lparr>m_pid = 0, m_pipe0 = False, m_pipe1 = True\<rparr>],
                   pl_log := pl_log s @ [Close_pipe i 0], m_idx := int i\<rparr>))"

definition processpool_new :: "nat \<Rightarrow> int list \<Rightarrow> processpool option" where
  "processpool_new process_number forks =
     (if 0 < process_number \<and> process_number \<le> MAX_PROCESS_NUMBER then
        fork_loop 0 (take process_number forks)
          \<lparr>m_process_number = process_number, m_idx = -1, m_stop = False, m_sub_process = replicate process_number process_new,
           sub_process_counter = 0, pl_log = []\<rparr>
      else None)"

text \<open>
  \<^verbatim>\<open>create\<close>, on the pool that \<^verbatim>\<open>m_instance\<close> points to, \<^const>\<open>None\<close> for NULL: there is one pool, made by the first call.
\<close>

definition create :: "processpool option \<Rightarrow> nat \<Rightarrow> int list \<Rightarrow> processpool option" where
  "create m_instance process_number forks = (case m_instance of Some s \<Rightarrow> Some s | None \<Rightarrow> processpool_new process_number forks)"

lemma create_once: "create None n forks = Some s \<Longrightarrow> create (Some s) n' forks' = Some s"
  by (simp add: create_def)

text \<open>
  \<^verbatim>\<open>sig_handler\<close> sends the first byte of the signal's number, on a machine that stores the low byte first; the loops read it back as a \<^verbatim>\<open>char\<close>.
\<close>

definition sig_handler :: "int \<Rightarrow> 8 word" where
  "sig_handler sig = word_of_int sig"

lemma sig_handler_read_back: "0 \<le> sig \<Longrightarrow> sig < 128 \<Longrightarrow> sint (sig_handler sig) = sig"
  by (simp add: sig_handler_def sint_sbintrunc' signed_take_bit_int_eq_self)

section \<open>The parent\<close>

definition sub :: "processpool \<Rightarrow> nat \<Rightarrow> process option" where
  "sub s i = (if i < length (m_sub_process s) then Some (m_sub_process s ! i) else None)"

text \<open>Lines 329 to 337: the search for a child that is alive, from \<open>i\<close>.\<close>

partial_function (option) rr_search :: "processpool \<Rightarrow> nat \<Rightarrow> nat option" where
  "rr_search s i =
     Option.bind (sub s i) (\<lambda>p.
       if m_pid p \<noteq> -1 then Some i
       else let j = (i + 1) mod m_process_number s in
         if j = sub_process_counter s then Some j else rr_search s j)"

text \<open>Lines 325 to 349; the flag is false for the \<^verbatim>\<open>break\<close>.\<close>

definition parent_listen :: "processpool \<Rightarrow> (bool \<times> processpool) option" where
  "parent_listen s = do {
     i \<leftarrow> rr_search s (sub_process_counter s);
     p \<leftarrow> sub s i;
     if m_pid p = -1 then Some (False, s\<lparr>m_stop := True\<rparr>)
     else Some (True, s\<lparr>sub_process_counter := (i + 1) mod m_process_number s, pl_log := pl_log s @ [Send_conn i]\<rparr>)
   }"

text \<open>Lines 374 to 382: the loop over the children for one process id, from index \<open>i\<close>.\<close>

fun reap_loop :: "int \<Rightarrow> nat \<Rightarrow> process list \<Rightarrow> process list \<times> io list" where
  "reap_loop pid i [] = ([], [])"
| "reap_loop pid i (p # ps) =
     (let (qs, es) = reap_loop pid (Suc i) ps in
      if m_pid p = pid then (p\<lparr>m_pid := -1, m_pipe0 := False\<rparr> # qs, Close_pipe i 0 # es) else (p # qs, es))"

definition reap :: "int \<Rightarrow> processpool \<Rightarrow> processpool" where
  "reap pid s =
     (let (ps, es) = reap_loop pid 0 (m_sub_process s) in s\<lparr>m_sub_process := ps, pl_log := pl_log s @ es\<rparr>)"

text \<open>A signal: for \<^verbatim>\<open>SIGCHLD\<close>, with the process ids that \<^verbatim>\<open>waitpid\<close> gives, all positive.\<close>

datatype signal = SIGCHLD "int list" | SIGTERM | SIGINT | Other_signal

definition kill_all :: "processpool \<Rightarrow> processpool" where
  "kill_all s = s\<lparr>pl_log := pl_log s @ map (Kill \<circ> m_pid) (filter (\<lambda>p. m_pid p \<noteq> -1) (m_sub_process s))\<rparr>"

fun parent_signal :: "signal \<Rightarrow> processpool \<Rightarrow> processpool" where
  "parent_signal (SIGCHLD pids) s =
     (let s = fold reap pids s in s\<lparr>m_stop := list_all (\<lambda>p. m_pid p = -1) (m_sub_process s)\<rparr>)"
| "parent_signal SIGTERM s = kill_all s"
| "parent_signal SIGINT s = kill_all s"
| "parent_signal Other_signal s = s"

text \<open>An event: a connection, signals (none when the receive fails), or anything else. The loop over the events of one \<^verbatim>\<open>epoll_wait\<close>.\<close>

datatype pevent = Listen | Signals "signal list" | Other_event

fun parent_events :: "pevent list \<Rightarrow> processpool \<Rightarrow> processpool option" where
  "parent_events [] s = Some s"
| "parent_events (Listen # es) s = do {
     (go, s) \<leftarrow> parent_listen s;
     if go then parent_events es s else Some s
   }"
| "parent_events (Signals sigs # es) s = parent_events es (fold parent_signal sigs s)"
| "parent_events (Other_event # es) s = parent_events es s"

text \<open>The main loop of the parent, on what \<^verbatim>\<open>epoll_wait\<close> gives, \<^const>\<open>None\<close> for a failure; the flag says whether it has ended.\<close>

fun run_parent :: "pevent list option list \<Rightarrow> processpool \<Rightarrow> (bool \<times> processpool) option" where
  "run_parent bs s =
     (if m_stop s then Some (True, s)
      else case bs of
        [] \<Rightarrow> Some (False, s)
      | None # _ \<Rightarrow> Some (True, s)
      | Some es # bs1 \<Rightarrow> Option.bind (parent_events es s) (run_parent bs1))"

declare run_parent.simps [simp del]

section \<open>A child\<close>

text \<open>
  The events of a child: the pipe (whether what the receive gives lets the child go on, and what \<^verbatim>\<open>accept\<close> gives), signals, a client's socket. The log:
  users initialised and served. The array of users is indexed by the socket.
\<close>

datatype cevent = Pipe bool int | Child_signals "signal list" | Client int | Other_child_event

datatype user_io = Init_user int | Process_user int

record child =
  c_stop :: bool
  c_log :: "user_io list"

definition user :: "int \<Rightarrow> unit option" where
  "user fd = (if 0 \<le> fd \<and> fd < USER_PER_PROCESS then Some () else None)"

fun child_event :: "cevent \<Rightarrow> child \<Rightarrow> child option" where
  "child_event (Pipe ok connfd) c =
     (if \<not> ok \<or> connfd < 0 then Some c else do { user connfd; Some (c\<lparr>c_log := c_log c @ [Init_user connfd]\<rparr>) })"
| "child_event (Child_signals sigs) c =
     Some (if \<exists>sg\<in>set sigs. sg = SIGTERM \<or> sg = SIGINT then c\<lparr>c_stop := True\<rparr> else c)"
| "child_event (Client fd) c = do { user fd; Some (c\<lparr>c_log := c_log c @ [Process_user fd]\<rparr>) }"
| "child_event Other_child_event c = Some c"

fun child_events :: "cevent list \<Rightarrow> child \<Rightarrow> child option" where
  "child_events [] c = Some c"
| "child_events (e # es) c = Option.bind (child_event e c) (child_events es)"

fun run_child :: "cevent list option list \<Rightarrow> child \<Rightarrow> (bool \<times> child) option" where
  "run_child bs c =
     (if c_stop c then Some (True, c)
      else case bs of
        [] \<Rightarrow> Some (False, c)
      | None # _ \<Rightarrow> Some (True, c)
      | Some es # bs1 \<Rightarrow> Option.bind (child_events es c) (run_child bs1))"

declare run_child.simps [simp del]

text \<open>\<^verbatim>\<open>run\<close>: the child or the parent, by \<^verbatim>\<open>m_idx\<close>.\<close>

definition run ::
  "pevent list option list \<Rightarrow> cevent list option list \<Rightarrow> processpool \<Rightarrow> ((bool \<times> processpool) + (bool \<times> child)) option" where
  "run pes ces s =
     (if m_idx s \<noteq> -1 then map_option Inr (run_child ces \<lparr>c_stop = m_stop s, c_log = []\<rparr>)
      else map_option Inl (run_parent pes s))"

section \<open>Round robin\<close>

abbreviation alive :: "processpool \<Rightarrow> nat \<Rightarrow> bool" where
  "alive s i \<equiv> m_pid (m_sub_process s ! i) \<noteq> -1"

definition pool_ok :: "processpool \<Rightarrow> bool" where
  "pool_ok s \<longleftrightarrow> length (m_sub_process s) = m_process_number s \<and> sub_process_counter s < m_process_number s"

lemma pool_okD:
  assumes "pool_ok s"
  shows "length (m_sub_process s) = m_process_number s" "sub_process_counter s < m_process_number s" "0 < m_process_number s"
  using assms by (auto simp: pool_ok_def)

lemma wrap_neq:
  assumes "c < n" "0 < k" "k < (n :: nat)"
  shows "(c + k) mod n \<noteq> c"
proof (cases "c + k < n")
  case True
  then show ?thesis using assms by simp
next
  case False
  then have "(c + k) mod n = c + k - n" using assms by (simp add: mod_if)
  then show ?thesis using assms False by linarith
qed

lemma rr_search_at:
  assumes "pool_ok s" "j \<le> d" "d < m_process_number s" "alive s ((sub_process_counter s + d) mod m_process_number s)"
    "\<And>e. e < d \<Longrightarrow> \<not> alive s ((sub_process_counter s + e) mod m_process_number s)"
  shows "rr_search s ((sub_process_counter s + j) mod m_process_number s) = Some ((sub_process_counter s + d) mod m_process_number s)"
  using assms(2)
proof (induction "d - j" arbitrary: j)
  case 0
  then have "j = d" by simp
  then show ?case using assms(4) pool_okD [OF assms(1)] by (simp add: rr_search.simps [of s] sub_def)
next
  case (Suc k)
  then have j: "j < d" by simp
  have IH: "rr_search s ((sub_process_counter s + Suc j) mod m_process_number s)
      = Some ((sub_process_counter s + d) mod m_process_number s)"
    using Suc by (intro Suc.hyps(1)) auto
  have step: "((sub_process_counter s + j) mod m_process_number s + 1) mod m_process_number s
      = (sub_process_counter s + Suc j) mod m_process_number s"
    by (simp add: mod_Suc_eq)
  have "(sub_process_counter s + Suc j) mod m_process_number s \<noteq> sub_process_counter s"
    using wrap_neq [of "sub_process_counter s" "m_process_number s" "Suc j"] pool_okD [OF assms(1)] j assms(3) by simp
  then show ?case
    using IH assms(5) [OF j] pool_okD [OF assms(1)] unfolding rr_search.simps [of s "(sub_process_counter s + j) mod _"] step
    by (simp add: sub_def Let_def)
qed

lemma rr_search_none:
  assumes "pool_ok s" "j < m_process_number s" "\<And>i. i < m_process_number s \<Longrightarrow> \<not> alive s i"
  shows "rr_search s ((sub_process_counter s + j) mod m_process_number s) = Some (sub_process_counter s)"
  using assms(2)
proof (induction "m_process_number s - j" arbitrary: j rule: less_induct)
  case less
  note ok = pool_okD [OF assms(1)]
  have step: "((sub_process_counter s + j) mod m_process_number s + 1) mod m_process_number s
      = (sub_process_counter s + Suc j) mod m_process_number s"
    by (simp add: mod_Suc_eq)
  have dead: "\<not> alive s ((sub_process_counter s + j) mod m_process_number s)" using assms(3) ok by simp
  show ?case
  proof (cases "Suc j = m_process_number s")
    case True
    then have "(sub_process_counter s + Suc j) mod m_process_number s = sub_process_counter s" using ok by simp
    then show ?thesis
      using dead ok unfolding rr_search.simps [of s "(sub_process_counter s + j) mod _"] step by (simp add: sub_def Let_def)
  next
    case False
    then have "rr_search s ((sub_process_counter s + Suc j) mod m_process_number s) = Some (sub_process_counter s)"
      using less.prems by (intro less.hyps) auto
    then show ?thesis
      using dead ok unfolding rr_search.simps [of s "(sub_process_counter s + j) mod _"] step by (simp add: sub_def Let_def)
  qed
qed

lemma parent_listen_at:
  assumes "pool_ok s" "d < m_process_number s" "alive s ((sub_process_counter s + d) mod m_process_number s)"
    "\<And>e. e < d \<Longrightarrow> \<not> alive s ((sub_process_counter s + e) mod m_process_number s)"
  shows "parent_listen s = Some (True,
    s\<lparr>sub_process_counter := (sub_process_counter s + d + 1) mod m_process_number s,
      pl_log := pl_log s @ [Send_conn ((sub_process_counter s + d) mod m_process_number s)]\<rparr>)"
  using rr_search_at [of s 0 d, OF assms(1) _ assms(2,3,4)] pool_okD [OF assms(1)] assms(3)
  by (simp add: parent_listen_def sub_def mod_Suc_eq)

lemma parent_listen_none:
  assumes "pool_ok s" "\<And>i. i < m_process_number s \<Longrightarrow> \<not> alive s i"
  shows "parent_listen s = Some (False, s\<lparr>m_stop := True\<rparr>)"
  using rr_search_none [of s 0, OF assms(1) _ assms(2)] pool_okD [OF assms(1)] assms(2)
  by (simp add: parent_listen_def sub_def)

lemma first_alive:
  assumes "pool_ok s" "i < m_process_number s" "alive s i"
  obtains d where "d < m_process_number s" "alive s ((sub_process_counter s + d) mod m_process_number s)"
    "\<And>e. e < d \<Longrightarrow> \<not> alive s ((sub_process_counter s + e) mod m_process_number s)"
proof -
  let ?c = "sub_process_counter s" and ?n = "m_process_number s"
  let ?P = "\<lambda>d. d < ?n \<and> alive s ((?c + d) mod ?n)"
  note ok = pool_okD [OF assms(1)]
  have "(?c + ((i + ?n - ?c) mod ?n)) mod ?n = (?c + (i + ?n - ?c)) mod ?n" by (rule mod_add_right_eq)
  also have "\<dots> = i" using ok assms(2) by simp
  finally have "?P ((i + ?n - ?c) mod ?n)" using ok assms(3) by simp
  then have least: "?P (LEAST d. ?P d)" by (rule LeastI)
  moreover have "\<not> alive s ((?c + e) mod ?n)" if "e < (LEAST d. ?P d)" for e
    using not_less_Least [OF that] that least by auto
  ultimately show ?thesis using that by blast
qed

text \<open>A connection goes to a child that is alive, or, when there is none, the parent stops.\<close>

lemma parent_listen_cases:
  assumes "pool_ok s"
  obtains (sent) i c where "i < m_process_number s" "alive s i" "c < m_process_number s"
      "parent_listen s = Some (True, s\<lparr>sub_process_counter := c, pl_log := pl_log s @ [Send_conn i]\<rparr>)"
    | (none) "\<And>i. i < m_process_number s \<Longrightarrow> \<not> alive s i" "parent_listen s = Some (False, s\<lparr>m_stop := True\<rparr>)"
proof (cases "\<exists>i < m_process_number s. alive s i")
  case True
  then obtain i where i: "i < m_process_number s" "alive s i" by blast
  obtain d where d: "d < m_process_number s" "alive s ((sub_process_counter s + d) mod m_process_number s)"
    "\<And>e. e < d \<Longrightarrow> \<not> alive s ((sub_process_counter s + e) mod m_process_number s)"
    using first_alive [OF assms i] by blast
  show ?thesis
    using d(2) pool_okD(3) [OF assms] by (intro sent [OF _ _ _ parent_listen_at [OF assms d]]) auto
next
  case False
  then show ?thesis using parent_listen_none [OF assms] by (intro none) auto
qed

text \<open>While every child is alive, connections go to the children in turn.\<close>

lemma listen_turns:
  assumes "pool_ok s" "\<And>i. i < m_process_number s \<Longrightarrow> alive s i"
  shows "parent_events (replicate k Listen) s = Some
    (s\<lparr>sub_process_counter := (sub_process_counter s + k) mod m_process_number s,
       pl_log := pl_log s @ map (\<lambda>j. Send_conn ((sub_process_counter s + j) mod m_process_number s)) [0..<k]\<rparr>)"
  using assms
proof (induction k arbitrary: s)
  case 0
  then show ?case using pool_okD(2) [OF 0(1)] by simp
next
  case (Suc k)
  note ok = pool_okD [OF Suc.prems(1)]
  let ?t = "s\<lparr>sub_process_counter := (sub_process_counter s + 0 + 1) mod m_process_number s,
      pl_log := pl_log s @ [Send_conn ((sub_process_counter s + 0) mod m_process_number s)]\<rparr>"
  have listen: "parent_listen s = Some (True, ?t)"
    using ok Suc.prems by (intro parent_listen_at) auto
  have t: "pool_ok ?t" "\<And>i. i < m_process_number ?t \<Longrightarrow> alive ?t i"
    using ok Suc.prems by (auto simp: pool_ok_def)
  have "[0..<Suc k] = 0 # map Suc [0..<k]" by (simp add: map_Suc_upt upt_conv_Cons)
  then show ?case
    using Suc.IH [OF t] listen by (simp add: mod_simps ac_simps)
qed

section \<open>The life of a pool\<close>

text \<open>What holds of the parent at every moment: a child is alive exactly as long as the parent's end of its pipe is open; every
  closed end was closed once; and nothing was sent through an end after it was closed.\<close>

fun closes :: "nat \<Rightarrow> io list \<Rightarrow> nat" where
  "closes i [] = 0"
| "closes i (e # es) = (if e = Close_pipe i 0 then 1 else 0) + closes i es"

fun open_sends :: "nat set \<Rightarrow> io list \<Rightarrow> bool" where
  "open_sends A [] = True"
| "open_sends A (Send_conn i # es) = (i \<in> A \<and> open_sends A es)"
| "open_sends A (Close_pipe i e # es) = open_sends (if e = 0 then A - {i} else A) es"
| "open_sends A (Kill p # es) = open_sends A es"

definition parent_ok :: "processpool \<Rightarrow> bool" where
  "parent_ok s \<longleftrightarrow> pool_ok s
     \<and> (\<forall>i < m_process_number s. (m_pipe0 (m_sub_process s ! i) \<longleftrightarrow> alive s i) \<and> closes i (pl_log s) = (if alive s i then 0 else 1))
     \<and> open_sends {..<m_process_number s} (pl_log s)"

lemma closes_append [simp]: "closes i (es @ fs) = closes i es + closes i fs"
  by (induction es) auto

lemma closes_set: "closes i es = 0 \<longleftrightarrow> Close_pipe i 0 \<notin> set es"
  by (induction es) auto

lemma open_sends_append:
  "open_sends A (es @ fs) \<longleftrightarrow> open_sends A es \<and> open_sends {i \<in> A. closes i es = 0} fs"
proof (induction A es rule: open_sends.induct)
  case (3 A i e es)
  have "{j \<in> (if e = 0 then A - {i} else A). closes j es = 0} = {j \<in> A. closes j (Close_pipe i e # es) = 0}" by auto
  then show ?case using 3 by simp
qed (auto cong: conj_cong)

lemma parent_okI:
  assumes "pool_ok s" "\<And>i. i < m_process_number s \<Longrightarrow> m_pipe0 (m_sub_process s ! i) \<longleftrightarrow> alive s i"
    "\<And>i. i < m_process_number s \<Longrightarrow> closes i (pl_log s) = (if alive s i then 0 else 1)"
    "open_sends {..<m_process_number s} (pl_log s)"
  shows "parent_ok s"
  using assms by (simp add: parent_ok_def)

lemma parent_okD:
  assumes "parent_ok s"
  shows "pool_ok s" "i < m_process_number s \<Longrightarrow> m_pipe0 (m_sub_process s ! i) \<longleftrightarrow> alive s i"
    "i < m_process_number s \<Longrightarrow> closes i (pl_log s) = (if alive s i then 0 else 1)"
    "open_sends {..<m_process_number s} (pl_log s)"
  using assms by (auto simp: parent_ok_def)

lemma parent_ok_stop [simp]: "parent_ok (s\<lparr>m_stop := b\<rparr>) = parent_ok s"
  by (simp add: parent_ok_def pool_ok_def)

lemma parent_listen_ok:
  assumes "parent_ok s"
  shows "\<exists>go t. parent_listen s = Some (go, t) \<and> parent_ok t \<and> m_process_number t = m_process_number s"
  using parent_okD(1) [OF assms]
proof (cases rule: parent_listen_cases)
  case (sent i c)
  have "closes i (pl_log s) = 0" using parent_okD(3) [OF assms sent(1)] sent(2) by simp
  then have "parent_ok (s\<lparr>sub_process_counter := c, pl_log := pl_log s @ [Send_conn i]\<rparr>)"
    using parent_okD [OF assms] sent by (intro parent_okI) (auto simp: pool_ok_def open_sends_append)
  then show ?thesis using sent(4) by auto
next
  case none
  then show ?thesis using assms by auto
qed

lemma reap_loop_fst: "fst (reap_loop pid i ps) = map (\<lambda>p. if m_pid p = pid then p\<lparr>m_pid := -1, m_pipe0 := False\<rparr> else p) ps"
  by (induction ps arbitrary: i) (auto simp: split_def Let_def)

lemma reap_loop_sends: "open_sends A (snd (reap_loop pid i ps))"
  by (induction ps arbitrary: i A) (auto simp: split_def Let_def)

lemma reap_loop_closes:
  "closes j (snd (reap_loop pid i ps)) = (if i \<le> j \<and> j < i + length ps \<and> m_pid (ps ! (j - i)) = pid then 1 else 0)"
proof (induction ps arbitrary: i)
  case (Cons p ps)
  have "j \<noteq> i \<Longrightarrow> i \<le> j \<Longrightarrow> (p # ps) ! (j - i) = ps ! (j - Suc i)" by (simp add: nth_Cons')
  then show ?case using Cons [of "Suc i"] by (auto simp: split_def Let_def)
qed simp

lemma reap_ok:
  assumes "parent_ok s" "0 < pid"
  shows "parent_ok (reap pid s)" "m_process_number (reap pid s) = m_process_number s"
proof -
  let ?r = "reap_loop pid 0 (m_sub_process s)"
  have r: "reap pid s = s\<lparr>m_sub_process := fst ?r, pl_log := pl_log s @ snd ?r\<rparr>" by (simp add: reap_def split_def Let_def)
  have ok: "length (m_sub_process s) = m_process_number s" "sub_process_counter s < m_process_number s"
    using pool_okD [OF parent_okD(1) [OF assms(1)]] by auto
  have at: "fst ?r ! i = (let p = m_sub_process s ! i in if m_pid p = pid then p\<lparr>m_pid := -1, m_pipe0 := False\<rparr> else p)"
    if "i < m_process_number s" for i
    using that ok by (simp add: reap_loop_fst Let_def)
  show "parent_ok (reap pid s)"
    unfolding r
  proof (rule parent_okI, goal_cases)
    case 1
    then show ?case using ok by (simp add: pool_ok_def reap_loop_fst)
  next
    case (2 i)
    then show ?case using parent_okD(2) [OF assms(1), of i] at [of i] by (simp add: Let_def)
  next
    case (3 i)
    then show ?case
      using parent_okD(3) [OF assms(1), of i] at [of i] ok assms(2) by (auto simp: Let_def reap_loop_closes)
  next
    case 4
    then show ?case using parent_okD(4) [OF assms(1)] by (simp add: open_sends_append reap_loop_sends)
  qed
  show "m_process_number (reap pid s) = m_process_number s" by (simp add: r)
qed

lemma reaps_ok:
  "parent_ok s \<Longrightarrow> \<forall>pid \<in> set pids. 0 < pid \<Longrightarrow>
   parent_ok (fold reap pids s) \<and> m_process_number (fold reap pids s) = m_process_number s"
  by (induction pids arbitrary: s) (simp_all add: reap_ok)

lemma kills_closes: "closes i (map (Kill \<circ> f) ps) = 0" and kills_sends: "open_sends A (map (Kill \<circ> f) ps)"
  by (induction ps) auto

lemma kill_all_ok: "parent_ok s \<Longrightarrow> parent_ok (kill_all s) \<and> m_process_number (kill_all s) = m_process_number s"
  by (auto simp: kill_all_def parent_ok_def pool_ok_def open_sends_append kills_closes kills_sends)

text \<open>What \<^verbatim>\<open>waitpid\<close> gives in the loop is positive.\<close>

definition signal_ok :: "signal \<Rightarrow> bool" where
  "signal_ok sg = (case sg of SIGCHLD pids \<Rightarrow> list_all (\<lambda>pid. 0 < pid) pids | _ \<Rightarrow> True)"

definition pevent_ok :: "pevent \<Rightarrow> bool" where
  "pevent_ok e = (case e of Signals sigs \<Rightarrow> list_all signal_ok sigs | _ \<Rightarrow> True)"

lemma parent_signal_ok:
  "parent_ok s \<Longrightarrow> signal_ok sg \<Longrightarrow> parent_ok (parent_signal sg s) \<and> m_process_number (parent_signal sg s) = m_process_number s"
  using reaps_ok [of s] kill_all_ok [of s] by (cases sg) (auto simp: signal_ok_def Let_def list_all_iff)

lemma parent_signals_ok:
  "parent_ok s \<Longrightarrow> list_all signal_ok sigs \<Longrightarrow>
   parent_ok (fold parent_signal sigs s) \<and> m_process_number (fold parent_signal sigs s) = m_process_number s"
  by (induction sigs arbitrary: s) (simp_all add: parent_signal_ok)

lemma parent_events_ok:
  "parent_ok s \<Longrightarrow> list_all pevent_ok es \<Longrightarrow>
   \<exists>t. parent_events es s = Some t \<and> parent_ok t \<and> m_process_number t = m_process_number s"
proof (induction es s rule: parent_events.induct)
  case (2 es s)
  obtain go t where "parent_listen s = Some (go, t)" "parent_ok t" "m_process_number t = m_process_number s"
    using parent_listen_ok [OF 2(2)] by blast
  then show ?case using 2(1) [of "(go, t)" go t] 2(3) by (cases go) auto
next
  case (3 sigs es s)
  then show ?case using parent_signals_ok [of s sigs] by (simp add: pevent_ok_def)
qed auto

lemma run_parent_ok:
  "parent_ok s \<Longrightarrow> \<forall>es. Some es \<in> set bs \<longrightarrow> list_all pevent_ok es \<Longrightarrow>
   \<exists>fin t. run_parent bs s = Some (fin, t) \<and> parent_ok t \<and> m_process_number t = m_process_number s"
proof (induction bs arbitrary: s)
  case Nil
  then show ?case by (auto simp: run_parent.simps)
next
  case (Cons b bs)
  show ?case
  proof (cases "m_stop s \<or> b = None")
    case True
    then show ?thesis using Cons.prems(1) by (auto simp: run_parent.simps)
  next
    case False
    then obtain es where es: "b = Some es" by auto
    then obtain t where "parent_events es s = Some t" "parent_ok t" "m_process_number t = m_process_number s"
      using parent_events_ok [OF Cons.prems(1), of es] Cons.prems(2) by auto
    then show ?thesis using Cons.IH [of t] Cons.prems(2) False es by (simp add: run_parent.simps [of "_ # _"])
  qed
qed

text \<open>The constructor in the parent: every call of \<^verbatim>\<open>fork\<close> gives a process id.\<close>

lemma fork_loop_parent:
  "\<forall>pid \<in> set pids. 0 < pid \<Longrightarrow> i + length pids = length (m_sub_process s) \<Longrightarrow>
   fork_loop i pids s = Some (s\<lparr>
     m_sub_process := take i (m_sub_process s) @ map (\<lambda>pid. \<lparr>m_pid = pid, m_pipe0 = True, m_pipe1 = False\<rparr>) pids,
     pl_log := pl_log s @ map (\<lambda>j. Close_pipe j 1) [i..<i + length pids]\<rparr>)"
proof (induction pids arbitrary: i s)
  case (Cons pid pids)
  then show ?case
    by (simp add: take_Suc_conv_app_nth upt_rec [of i])
qed simp

lemma closes_other: "closes i (map (\<lambda>j. Close_pipe j 1) js) = 0" and sends_other: "open_sends A (map (\<lambda>j. Close_pipe j 1) js)"
  by (induction js) auto

lemmas constructor_log = closes_other [simplified] sends_other [simplified]

lemma processpool_parent:
  assumes "0 < n" "n \<le> MAX_PROCESS_NUMBER" "length forks = n" "\<forall>pid \<in> set forks. 0 < pid"
  obtains s where "processpool_new n forks = Some s" "parent_ok s" "m_idx s = -1" "\<not> m_stop s" "m_process_number s = n"
    "\<And>i. i < n \<Longrightarrow> alive s i" "sub_process_counter s = 0" "map m_pid (m_sub_process s) = forks"
proof -
  let ?s = "\<lparr>m_process_number = n, m_idx = -1, m_stop = False, m_sub_process = replicate n process_new,
           sub_process_counter = 0, pl_log = []\<rparr>"
  let ?t = "?s\<lparr>m_sub_process := map (\<lambda>pid. \<lparr>m_pid = pid, m_pipe0 = True, m_pipe1 = False\<rparr>) forks,
     pl_log := map (\<lambda>j. Close_pipe j 1) [0..<n]\<rparr>"
  have new: "processpool_new n forks = Some ?t"
    using assms fork_loop_parent [of forks 0 ?s] by (simp add: processpool_new_def)
  have pid: "forks ! i \<noteq> -1" if "i < n" for i using assms(3,4) that nth_mem [of i forks] by fastforce
  have "parent_ok ?t"
    using assms pid by (intro parent_okI) (auto simp: pool_ok_def constructor_log)
  then show ?thesis using pid assms(3) by (intro that [OF new]) (auto simp: comp_def)
qed

text \<open>Reaping marks the children whose process ids are reported.\<close>

lemma reap_pids: "map m_pid (m_sub_process (reap pid s)) = map (\<lambda>p. if p = pid then -1 else p) (map m_pid (m_sub_process s))"
  by (simp add: reap_def split_def Let_def reap_loop_fst)

lemma reaps_pids:
  "\<forall>pid \<in> set pids. 0 < pid \<Longrightarrow>
   map m_pid (m_sub_process (fold reap pids s)) = map (\<lambda>p. if p \<in> set pids then -1 else p) (map m_pid (m_sub_process s))"
proof (induction pids arbitrary: s)
  case (Cons pid pids)
  then have "map m_pid (m_sub_process (fold reap (pid # pids) s))
      = map (\<lambda>p. if p \<in> set pids then -1 else p) (map m_pid (m_sub_process (reap pid s)))" by (simp del: map_map)
  also have "\<dots> = map (\<lambda>p. if p \<in> set (pid # pids) then -1 else p) (map m_pid (m_sub_process s))"
    unfolding reap_pids map_map by (rule map_cong) auto
  finally show ?case .
qed simp

definition pids :: "processpool \<Rightarrow> int set" where
  "pids s = set (map m_pid (m_sub_process s)) - {-1}"

lemma reaps_alive: "\<forall>pid \<in> set ps. 0 < pid \<Longrightarrow> pids (fold reap ps s) = pids s - set ps"
  unfolding pids_def using reaps_pids [of ps s] by auto

lemma parent_chld:
  assumes "\<forall>pid \<in> set ps. 0 < pid"
  shows "pids (parent_signal (SIGCHLD ps) s) = pids s - set ps"
    "m_stop (parent_signal (SIGCHLD ps) s) \<longleftrightarrow> pids s \<subseteq> set ps"
proof -
  show *: "pids (parent_signal (SIGCHLD ps) s) = pids s - set ps"
    using reaps_alive [OF assms, of s] by (simp add: pids_def Let_def)
  have "m_stop (parent_signal (SIGCHLD ps) s) \<longleftrightarrow> pids (parent_signal (SIGCHLD ps) s) = {}"
    by (auto simp: pids_def Let_def list_all_iff)
  then show "m_stop (parent_signal (SIGCHLD ps) s) \<longleftrightarrow> pids s \<subseteq> set ps" using * by simp
qed

text \<open>The parent's loop ends as soon as, and not before, every child has been reported.\<close>

lemma run_parent_chlds:
  assumes "\<forall>ps \<in> set pss. \<forall>pid \<in> set ps. 0 < pid" "m_stop s \<longleftrightarrow> pids s = {}"
  shows "\<exists>t. run_parent (map (\<lambda>ps. Some [Signals [SIGCHLD ps]]) pss) s = Some (pids s \<subseteq> (\<Union>ps \<in> set pss. set ps), t)"
  using assms
proof (induction pss arbitrary: s)
  case Nil
  then show ?case by (auto simp: run_parent.simps)
next
  case (Cons ps pss)
  show ?case
  proof (cases "m_stop s")
    case True
    then show ?thesis using Cons.prems(2) by (auto simp: run_parent.simps)
  next
    case False
    let ?t = "parent_signal (SIGCHLD ps) s"
    have ps: "\<forall>pid \<in> set ps. 0 < pid" using Cons.prems(1) by simp
    have "pids ?t \<subseteq> (\<Union>ps \<in> set pss. set ps) \<longleftrightarrow> pids s \<subseteq> (\<Union>ps \<in> set (ps # pss). set ps)"
      unfolding parent_chld(1) [OF ps] by auto
    moreover obtain t where "run_parent (map (\<lambda>ps. Some [Signals [SIGCHLD ps]]) pss) ?t
        = Some (pids ?t \<subseteq> (\<Union>ps \<in> set pss. set ps), t)"
      using Cons.IH [of ?t] Cons.prems(1) unfolding parent_chld [OF ps] Diff_eq_empty_iff by (metis list.set_intros(2))
    ultimately have "run_parent (map (\<lambda>ps. Some [Signals [SIGCHLD ps]]) (ps # pss)) s
        = Some (pids s \<subseteq> (\<Union>ps \<in> set (ps # pss). set ps), t)"
      using False by (simp add: run_parent.simps [of "_ # _"] del: parent_signal.simps)
    then show ?thesis by (rule exI)
  qed
qed

section \<open>The properties\<close>



text \<open>
  C13: a connection goes to the first child that is alive, in cyclic order from the one after the last child used, and the parent stops
  when there is none; so while all children are alive, consecutive connections go to the children in turn.
\<close>

theorem round_robin:
  assumes "length (m_sub_process s) = m_process_number s" "sub_process_counter s < m_process_number s"
  shows "((\<forall>i < m_process_number s. m_pid (m_sub_process s ! i) = -1) \<longrightarrow> parent_listen s = Some (False, s\<lparr>m_stop := True\<rparr>))
    \<and> (\<forall>d < m_process_number s. m_pid (m_sub_process s ! ((sub_process_counter s + d) mod m_process_number s)) \<noteq> -1 \<longrightarrow>
        (\<forall>e < d. m_pid (m_sub_process s ! ((sub_process_counter s + e) mod m_process_number s)) = -1) \<longrightarrow>
        parent_listen s = Some (True, s\<lparr>sub_process_counter := (sub_process_counter s + d + 1) mod m_process_number s,
          pl_log := pl_log s @ [Send_conn ((sub_process_counter s + d) mod m_process_number s)]\<rparr>))
    \<and> ((\<forall>i < m_process_number s. m_pid (m_sub_process s ! i) \<noteq> -1) \<longrightarrow>
        parent_events (replicate k Listen) s = Some (s\<lparr>sub_process_counter := (sub_process_counter s + k) mod m_process_number s,
          pl_log := pl_log s @ map (\<lambda>j. Send_conn ((sub_process_counter s + j) mod m_process_number s)) [0..<k]\<rparr>))"
proof -
  have ok: "pool_ok s" using assms by (simp add: pool_ok_def)
  show ?thesis
    by (intro conjI impI allI parent_listen_none [OF ok] parent_listen_at [OF ok] listen_turns [OF ok]) simp_all
qed

definition ex_pool :: processpool where
  "ex_pool = \<lparr>m_process_number = 3, m_idx = -1, m_stop = False,
     m_sub_process = map (\<lambda>pid. \<lparr>m_pid = pid, m_pipe0 = pid \<noteq> -1, m_pipe1 = False\<rparr>) [10, -1, 12], sub_process_counter = 1, pl_log = []\<rparr>"

theorem round_robin_witness:
  "parent_listen ex_pool = Some (True, ex_pool\<lparr>sub_process_counter := 0, pl_log := [Send_conn 2]\<rparr>)"
  using round_robin [THEN conjunct2, THEN conjunct1, rule_format, of ex_pool 1] by (simp add: ex_pool_def)

text \<open>
  C14: told to terminate, the parent kills every child, in order, and its loop then ends exactly when every child has been reported as
  gone, in however many rounds the reports come.
\<close>

theorem pool_shuts_down:
  assumes "0 < n" "n \<le> MAX_PROCESS_NUMBER" "length forks = n" "\<forall>pid \<in> set forks. 0 < pid"
    "\<forall>ps \<in> set pss. \<forall>pid \<in> set ps. 0 < pid"
  shows "\<exists>s t. processpool_new n forks = Some s
     \<and> pl_log (parent_signal SIGTERM s) = pl_log s @ map Kill forks
     \<and> run_parent (Some [Signals [SIGTERM]] # map (\<lambda>ps. Some [Signals [SIGCHLD ps]]) pss) s
       = Some (set forks \<subseteq> (\<Union>ps \<in> set pss. set ps), t)"
proof -
  obtain s where s: "processpool_new n forks = Some s" "\<not> m_stop s" "m_process_number s = n" "\<And>i. i < n \<Longrightarrow> alive s i" "parent_ok s"
    "map m_pid (m_sub_process s) = forks"
    using processpool_parent [OF assms(1-4)] by metis
  have pos: "-1 \<notin> set forks" using assms(4) by force
  let ?t = "kill_all s"
  have "m_pid p \<noteq> -1" if "p \<in> set (m_sub_process s)" for p
    using pos imageI [OF that, of m_pid] unfolding s(6) [symmetric] by auto
  then have "filter (\<lambda>p. m_pid p \<noteq> -1) (m_sub_process s) = m_sub_process s" by simp
  then have log: "pl_log ?t = pl_log s @ map Kill forks"
    unfolding s(6) [symmetric] by (simp add: kill_all_def)
  have pids: "pids ?t = set forks" unfolding pids_def s(6) [symmetric] using pos s(6) by (auto simp: kill_all_def)
  have "m_stop ?t \<longleftrightarrow> pids ?t = {}" using s(2) pids assms(1,3) by (auto simp: kill_all_def)
  then obtain t where "run_parent (map (\<lambda>ps. Some [Signals [SIGCHLD ps]]) pss) ?t
      = Some (set forks \<subseteq> (\<Union>ps \<in> set pss. set ps), t)"
    using run_parent_chlds [OF assms(5)] pids by metis
  then have "run_parent (Some [Signals [SIGTERM]] # map (\<lambda>ps. Some [Signals [SIGCHLD ps]]) pss) s
      = Some (set forks \<subseteq> (\<Union>ps \<in> set pss. set ps), t)"
    using s(2) by (simp add: run_parent.simps [of "_ # _"])
  then show ?thesis using s(1) log by auto
qed

theorem pool_shuts_down_witness:
  "\<exists>s t. processpool_new 2 [10, 11] = Some s
     \<and> pl_log (parent_signal SIGTERM s) = pl_log s @ map Kill [10, 11]
     \<and> run_parent (Some [Signals [SIGTERM]] # map (\<lambda>ps. Some [Signals [SIGCHLD ps]]) [[11], [10]]) s
       = Some (set [10, 11 :: int] \<subseteq> (\<Union>ps \<in> set [[11], [10]]. set ps), t)"
  by (rule pool_shuts_down) (auto simp: MAX_PROCESS_NUMBER_def)

end
