(* ===== verification/Chat.thy ===== *)
theory Chat
  imports C_Strings "HOL-Library.Monad_Syntax"
begin

text \<open>
  The chat server and client of \<^verbatim>\<open>lib/pthread\<close>. In the server (\<^verbatim>\<open>chat_server.c\<close>) a mutex protects the array of client sockets, so
  that what happens under it is one step; what is not protected, the variable that hands a socket to a new thread, is
  read in a step of its own. \<^const>\<open>None\<close> is undefined behaviour: an access outside an array.
\<close>

section \<open>The server\<close>

definition MAX_CLNT :: nat where "MAX_CLNT = 256"

text \<open>
  The global array and counter, the variable \<^verbatim>\<open>clnt_sock\<close> of \<^verbatim>\<open>main\<close>, the number of threads that were created and have not read it
  yet, the sockets that the running threads serve, and the writes.
\<close>

record chat =
  clnt_cnt :: nat
  clnt_socks :: "int list"
  clnt_sock :: int
  ch_created :: nat
  ch_serving :: "int list"
  ch_log :: "(int \<times> string) list"

definition chat_init :: chat where
  "chat_init = \<lparr>clnt_cnt = 0, clnt_socks = replicate MAX_CLNT 0, clnt_sock = 0, ch_created = 0, ch_serving = [], ch_log = []\<rparr>"

text \<open>An array access.\<close>

definition get :: "'a list \<Rightarrow> nat \<Rightarrow> 'a option" where
  "get a i = (if i < length a then Some (a ! i) else None)"

definition put_at :: "'a list \<Rightarrow> nat \<Rightarrow> 'a \<Rightarrow> 'a list option" where
  "put_at a i v = (if i < length a then Some (a[i := v]) else None)"

text \<open>Lines 48 to 54: a client connects; its thread is created and will read \<^verbatim>\<open>clnt_sock\<close> later.\<close>

definition chat_accept :: "int \<Rightarrow> chat \<Rightarrow> chat option" where
  "chat_accept fd s = do {
     a \<leftarrow> put_at (clnt_socks s) (clnt_cnt s) fd;
     Some (s\<lparr>clnt_sock := fd, clnt_socks := a, clnt_cnt := Suc (clnt_cnt s), ch_created := Suc (ch_created s)\<rparr>)
   }"

text \<open>Line 65: a created thread starts.\<close>

definition chat_start :: "chat \<Rightarrow> chat" where
  "chat_start s =
     (if ch_created s = 0 then s
      else s\<lparr>ch_created := ch_created s - 1, ch_serving := ch_serving s @ [clnt_sock s]\<rparr>)"

fun send_loop :: "string \<Rightarrow> nat \<Rightarrow> nat \<Rightarrow> chat \<Rightarrow> chat option" where
  "send_loop msg i 0 s = Some s"
| "send_loop msg i (Suc n) s = do {
     fd \<leftarrow> get (clnt_socks s) i;
     send_loop msg (Suc i) n (s\<lparr>ch_log := ch_log s @ [(fd, msg)]\<rparr>)
   }"

definition send_msg :: "string \<Rightarrow> chat \<Rightarrow> chat option" where
  "send_msg msg s = send_loop msg 0 (clnt_cnt s) s"

text \<open>
  Lines 75 and 76, \<^verbatim>\<open>while (i++ < clnt_cnt-1) clnt_socks[i] = clnt_socks[i+1]\<close>, with \<open>n\<close> turns left: the increment comes before
  the body. Lines 73 to 79, the search, from index \<open>i\<close>.
\<close>

fun shift_loop :: "nat \<Rightarrow> nat \<Rightarrow> int list \<Rightarrow> int list option" where
  "shift_loop i 0 a = Some a"
| "shift_loop i (Suc n) a = do {
     v \<leftarrow> get a (Suc (Suc i));
     a \<leftarrow> put_at a (Suc i) v;
     shift_loop (Suc i) n a
   }"

fun find_loop :: "int \<Rightarrow> nat \<Rightarrow> nat \<Rightarrow> nat \<Rightarrow> int list \<Rightarrow> int list option" where
  "find_loop fd cnt i 0 a = Some a"
| "find_loop fd cnt i (Suc n) a = do {
     v \<leftarrow> get a i;
     if fd = v then shift_loop i (cnt - 1 - i) a else find_loop fd cnt (Suc i) n a
   }"

text \<open>Lines 72 to 82: the thread that serves \<open>fd\<close> has read the end of its input.\<close>

definition chat_leave :: "int \<Rightarrow> chat \<Rightarrow> chat option" where
  "chat_leave fd s = do {
     a \<leftarrow> find_loop fd (clnt_cnt s) 0 (clnt_cnt s) (clnt_socks s);
     Some (s\<lparr>clnt_socks := a, clnt_cnt := clnt_cnt s - 1, ch_serving := remove1 fd (ch_serving s)\<rparr>)
   }"

text \<open>
  The loop of \<^verbatim>\<open>handle_clnt\<close> on what its reads give, for a thread that serves \<open>fd\<close>; the empty string is the end. After an error,
  \<^const>\<open>None\<close>, the length -1 goes to every \<^verbatim>\<open>write\<close> as a size beyond the array.
\<close>

fun handle_clnt :: "int \<Rightarrow> string option list \<Rightarrow> chat \<Rightarrow> chat option" where
  "handle_clnt fd [] s = Some s"
| "handle_clnt fd (None # ms) s = (if clnt_cnt s = 0 then handle_clnt fd ms s else None)"
| "handle_clnt fd (Some m # ms) s = (if m = [] then chat_leave fd s else Option.bind (send_msg m s) (handle_clnt fd ms))"

section \<open>The client\<close>

definition NAME_SIZE :: nat where "NAME_SIZE = 20"
definition CHAT_BUF_SIZE :: nat where "CHAT_BUF_SIZE = 100"

text \<open>\<^verbatim>\<open>sprintf\<close> of a text into an array of \<open>n\<close> characters: the text and its NUL have to fit.\<close>

definition sprintf_to :: "nat \<Rightarrow> string \<Rightarrow> string option" where
  "sprintf_to n s = (if length s < n then Some s else None)"

definition client_name :: "string \<Rightarrow> string option" where
  "client_name arg = sprintf_to NAME_SIZE (''['' @ arg @ '']'')"

text \<open>
  The loop of \<^verbatim>\<open>send_msg\<close> on the lines that \<^verbatim>\<open>fgets\<close> reads, at most 99 characters each: whether the client has quit, and what it has
  written.
\<close>

fun client_send :: "string \<Rightarrow> string list \<Rightarrow> (bool \<times> string list) option" where
  "client_send name [] = Some (False, [])"
| "client_send name (msg # msgs) =
     (if strcmp msg (''q'' @ [NL]) = 0 \<or> strcmp msg (''Q'' @ [NL]) = 0 then Some (True, [])
      else do {
        name_msg \<leftarrow> sprintf_to (NAME_SIZE + CHAT_BUF_SIZE) (name @ '' '' @ c_prefix msg);
        (quit, out) \<leftarrow> client_send name msgs;
        Some (quit, name_msg # out)
      })"

text \<open>
  The loop of \<^verbatim>\<open>recv_msg\<close> on what \<^verbatim>\<open>read\<close> gives, \<^const>\<open>None\<close> for an error: the text printed. A read gives at most 119 characters, and 0
  of them at the end of the stream, where the loop goes on.
\<close>

fun client_recv :: "string option list \<Rightarrow> (bool \<times> string) option" where
  "client_recv [] = Some (False, [])"
| "client_recv (None # rs) = Some (True, [])"
| "client_recv (Some m # rs) = do {
     _ \<leftarrow> (if length m < NAME_SIZE + CHAT_BUF_SIZE then Some () else None);
     (stop, out) \<leftarrow> client_recv rs;
     Some (stop, c_prefix m @ out)
   }"

section \<open>Lemmas\<close>

text \<open>The connected sockets.\<close>

definition connected :: "chat \<Rightarrow> int list" where
  "connected s = take (clnt_cnt s) (clnt_socks s)"

definition chat_ok :: "chat \<Rightarrow> bool" where
  "chat_ok s \<longleftrightarrow> length (clnt_socks s) = MAX_CLNT \<and> clnt_cnt s \<le> MAX_CLNT"

lemma send_loop_ok:
  "i + n \<le> length (clnt_socks s) \<Longrightarrow>
   send_loop msg i n s = Some (s\<lparr>ch_log := ch_log s @ map (\<lambda>fd. (fd, msg)) (take n (drop i (clnt_socks s)))\<rparr>)"
proof (induction n arbitrary: i s)
  case (Suc n)
  then have "take (Suc n) (drop i (clnt_socks s)) = clnt_socks s ! i # take n (drop (Suc i) (clnt_socks s))"
    by (metis Cons_nth_drop_Suc Suc_le_lessD add_Suc_right add_leD1 le_add1 le_trans not_less_eq_eq take_Suc_Cons)
  then show ?case
    using Suc by (simp add: get_def)
qed simp

lemma shift_loop_ok:
  "i + n + 1 < length a \<Longrightarrow> shift_loop i n a = Some (take (Suc i) a @ take n (drop (i + 2) a) @ drop (i + n + 1) a)"
proof (induction n arbitrary: i a)
  case 0
  then show ?case
    by simp
next
  case (Suc n)
  let ?b = "a[Suc i := a ! Suc (Suc i)]"
  have "shift_loop i (Suc n) a = shift_loop (Suc i) n ?b"
    using Suc.prems by (simp add: get_def put_at_def)
  also have "\<dots> = Some (take (Suc (Suc i)) ?b @ take n (drop (Suc i + 2) ?b) @ drop (Suc i + n + 1) ?b)"
    using Suc.prems by (intro Suc.IH) simp
  also have "\<dots> = Some (take (Suc i) a @ take (Suc n) (drop (i + 2) a) @ drop (i + Suc n + 1) a)"
  proof -
    have "take (Suc (Suc i)) ?b = take (Suc i) a @ [a ! Suc (Suc i)]"
      using Suc.prems by (simp add: take_Suc_conv_app_nth [of "Suc i"])
    moreover have "drop (i + 2) a = a ! Suc (Suc i) # drop (Suc i + 2) a"
      using Suc.prems Cons_nth_drop_Suc [of "Suc (Suc i)" a] by simp
    ultimately show ?thesis
      by simp
  qed
  finally show ?case .
qed

lemma shift_loop_out: "0 < n \<Longrightarrow> length a \<le> i + n + 1 \<Longrightarrow> shift_loop i n a = None"
proof (induction n arbitrary: i a)
  case (Suc n)
  then show ?case
    using Suc.IH [of "a[Suc i := a ! Suc (Suc i)]" "Suc i"] by (cases "n = 0") (auto simp: get_def put_at_def)
qed simp

lemma find_loop_ok:
  assumes "k < cnt" and "cnt \<le> length a" and "a ! k = fd" and "\<forall>j<k. a ! j \<noteq> fd"
  shows "i \<le> k \<Longrightarrow> find_loop fd cnt i (cnt - i) a = shift_loop k (cnt - 1 - k) a"
proof (induction "k - i" arbitrary: i)
  case 0
  then have "i = k" "cnt - i = Suc (cnt - Suc i)"
    using assms(1) by auto
  then show ?case
    using assms by (simp add: get_def)
next
  case (Suc d)
  then have i: "i < k" "cnt - i = Suc (cnt - Suc i)" "d = k - Suc i"
    using assms(1) by auto
  then have "fd \<noteq> a ! i"
    using assms(4) by blast
  then show ?case
    using Suc.hyps(1) [of "Suc i"] assms i by (simp add: get_def)
qed

lemma find_loop_absent:
  "\<forall>j<n. a ! (i + j) \<noteq> fd \<Longrightarrow> i + n \<le> length a \<Longrightarrow> find_loop fd cnt i n a = Some a"
proof (induction n arbitrary: i)
  case (Suc n)
  have "a ! i \<noteq> fd"
    using Suc.prems(1) by force
  moreover have "\<forall>j<n. a ! (Suc i + j) \<noteq> fd"
    using Suc.prems(1) by (metis Suc_less_eq add_Suc add_Suc_right)
  ultimately show ?case
    using Suc by (simp add: get_def)
qed simp

lemma chat_ops_ok:
  "chat_ok chat_init" "chat_ok s \<Longrightarrow> chat_accept fd s = Some s' \<Longrightarrow> chat_ok s'" "chat_ok s \<Longrightarrow> chat_ok (chat_start s)"
  by (auto simp: chat_ok_def chat_init_def chat_accept_def chat_start_def put_at_def bind_eq_Some split: if_splits)

lemma chat_accept_connected: "chat_ok s \<Longrightarrow> chat_accept fd s = Some s' \<Longrightarrow> connected s' = connected s @ [fd]"
  by (auto simp: chat_ok_def connected_def chat_accept_def put_at_def bind_eq_Some take_Suc_conv_app_nth split: if_splits)

lemma chat_send_ok: "chat_ok s \<Longrightarrow> send_msg m s = Some (s\<lparr>ch_log := ch_log s @ map (\<lambda>fd. (fd, m)) (connected s)\<rparr>)"
  using send_loop_ok [of 0 "clnt_cnt s" s m] by (simp add: chat_ok_def send_msg_def connected_def)

text \<open>
  The thread of a client reads the variable of \<^verbatim>\<open>main\<close> after \<^verbatim>\<open>main\<close> may have written the next socket to it: both threads then serve the
  second client.
\<close>

lemma chat_start_late:
  "ch_created s = 0 \<Longrightarrow> chat_accept a s = Some s1 \<Longrightarrow> chat_accept b s1 = Some s2 \<Longrightarrow>
   ch_serving (chat_start (chat_start s2)) = ch_serving s @ [b, b]"
  by (auto simp: chat_accept_def chat_start_def put_at_def bind_eq_Some split: if_splits)

section \<open>Properties\<close>

text \<open>
  C39: A client that leaves is taken out of the array only when it is the last one. Otherwise the loop, which increments its index
  before it copies, keeps the client that has left and drops the one behind it; in a full array it reads behind the end.
\<close>

theorem chat_leave_drops_next:
  assumes ok: "chat_ok s" and k: "k < clnt_cnt s" "connected s ! k = fd" "\<forall>j<k. connected s ! j \<noteq> fd"
  shows "if Suc k = clnt_cnt s then \<exists>s'. chat_leave fd s = Some s' \<and> connected s' = butlast (connected s)
    else if clnt_cnt s = MAX_CLNT then chat_leave fd s = None
    else \<exists>s'. chat_leave fd s = Some s' \<and> connected s' = take (Suc k) (connected s) @ drop (k + 2) (connected s)"
proof -
  let ?a = "clnt_socks s" and ?n = "clnt_cnt s"
  have len: "length ?a = MAX_CLNT" "?n \<le> MAX_CLNT"
    using ok by (auto simp: chat_ok_def)
  have f: "find_loop fd ?n 0 ?n ?a = shift_loop k (?n - 1 - k) ?a"
    using find_loop_ok [of k ?n ?a fd 0] k len by (simp add: connected_def)
  consider "Suc k = ?n" | "Suc k < ?n" "?n = MAX_CLNT" | "Suc k < ?n" "?n < MAX_CLNT"
    using k(1) len(2) by linarith
  then show ?thesis
  proof cases
    case 1
    then have "?n - 1 - k = 0"
      by simp
    then have "chat_leave fd s = Some (s\<lparr>clnt_socks := ?a, clnt_cnt := ?n - 1, ch_serving := remove1 fd (ch_serving s)\<rparr>)"
      using f by (simp add: chat_leave_def)
    then show ?thesis
      using 1 len by (simp add: connected_def butlast_take)
  next
    case 2
    then show ?thesis
      using shift_loop_out [of "?n - 1 - k" ?a k] f len k(1) by (auto simp: chat_leave_def)
  next
    case 3
    let ?b = "take (Suc k) ?a @ take (?n - 1 - k) (drop (k + 2) ?a) @ drop (k + (?n - 1 - k) + 1) ?a"
    have "chat_leave fd s = Some (s\<lparr>clnt_socks := ?b, clnt_cnt := ?n - 1, ch_serving := remove1 fd (ch_serving s)\<rparr>)"
      using shift_loop_ok [of k "?n - 1 - k" ?a] f len 3 by (simp add: chat_leave_def)
    moreover have "take (?n - 1) ?b = take (Suc k) (take ?n ?a) @ drop (k + 2) (take ?n ?a)"
    proof -
      obtain d where d: "?n = k + 2 + d"
        using 3(1) by (metis Suc_leI add_2_eq_Suc' le_Suc_ex)
      have "take (Suc k + d) ?b = take (Suc k) ?a @ take d (take (Suc d) (drop (k + 2) ?a))"
        using 3 len d by simp
      then show ?thesis
        using 3 len d by (simp add: take_drop min_def add.commute)
    qed
    ultimately show ?thesis
      using 3 by (simp add: connected_def)
  qed
qed

definition ex_chat :: chat where
  "ex_chat = chat_init\<lparr>clnt_cnt := 3, clnt_socks := [4, 5, 6] @ replicate 253 0\<rparr>"

theorem chat_leave_drops_next_witness: "\<exists>s'. chat_leave 4 ex_chat = Some s' \<and> connected s' = [4, 6]"
  using chat_leave_drops_next [of ex_chat 0 4] by (simp add: ex_chat_def chat_ok_def connected_def MAX_CLNT_def)

text \<open>
  The buffers of the chat client hold what it puts into them exactly when the name on the command line has at most 17
  characters: a longer name overruns its array, and with a shorter one every line that \<^verbatim>\<open>fgets\<close> can read fits.
\<close>

theorem chat_client_fits:
  assumes "\<forall>m\<in>set msgs. length m < CHAT_BUF_SIZE"
  shows "if length arg \<le> 17 then \<exists>name. client_name arg = Some name \<and> client_send name msgs \<noteq> None else client_name arg = None"
proof -
  have "client_send name msgs \<noteq> None" if "length name < NAME_SIZE" for name
    using assms
  proof (induction msgs)
    case (Cons m ms)
    have "length (c_prefix m) \<le> length m"
      by (rule length_takeWhile_le)
    then have "length name + 1 + length (c_prefix m) < NAME_SIZE + CHAT_BUF_SIZE"
      using that Cons.prems by (simp add: NAME_SIZE_def CHAT_BUF_SIZE_def)
    then show ?case
      using Cons by (auto simp: sprintf_to_def)
  qed simp
  then show ?thesis
    by (auto simp: client_name_def sprintf_to_def NAME_SIZE_def)
qed

theorem chat_client_fits_witness:
  "(\<exists>name. client_name ''bob'' = Some name \<and> client_send name [''hi''] \<noteq> None) \<and> client_name ''a name of 20 letters'' = None"
  using chat_client_fits [of "[''hi'']" "''bob''"] chat_client_fits [of "[]" "''a name of 20 letters''"] by (simp add: CHAT_BUF_SIZE_def)

end
