(* ===== verification/Event_Server.thy ===== *)
theory Event_Server
  imports C_Strings "HOL-Library.Sublist"
begin

text \<open>
  The line echo server of \<^verbatim>\<open>lib/libevent/lowlevel_libevent_server.c\<close>: one connection with its fixed buffer, the read and the write
  callback. What \<^verbatim>\<open>recv\<close> and \<^verbatim>\<open>send\<close> give is the input of a callback; the event loop, that of libevent, decides the order of the
  callbacks. Console output is not modelled. \<^const>\<open>None\<close> is a failed \<^verbatim>\<open>assert\<close>.
\<close>

section \<open>The model\<close>

definition MAX_LINE :: nat where "MAX_LINE = 80"

definition rot13_char :: "char \<Rightarrow> char" where
  "rot13_char c =
     (let n = of_char c :: nat in
      if 97 \<le> n \<and> n \<le> 109 \<or> 65 \<le> n \<and> n \<le> 77 then char_of (n + 13)
      else if 110 \<le> n \<and> n \<le> 122 \<or> 78 \<le> n \<and> n \<le> 90 then char_of (n - 13)
      else c)"

text \<open>
  \<open>fs_write_event\<close>: the write event is pending. The last three fields record what was received, stored in the buffer, and sent.
\<close>

record fd_state =
  fs_buffer :: string
  fs_used :: nat
  fs_n_written :: nat
  fs_upto :: nat
  fs_write_event :: bool
  fs_received :: string
  fs_kept :: string
  fs_sent :: string

text \<open>The contents of the buffer of a new state are arbitrary: \<open>b\<close>, of \<^verbatim>\<open>MAX_LINE\<close> characters.\<close>

definition fd_state_init :: "string \<Rightarrow> fd_state" where
  "fd_state_init b = \<lparr>fs_buffer = b, fs_used = 0, fs_n_written = 0, fs_upto = 0, fs_write_event = False,
     fs_received = [], fs_kept = [], fs_sent = []\<rparr>"

text \<open>The flags say whether \<^verbatim>\<open>malloc\<close> and the two calls of \<^verbatim>\<open>event_new\<close> succeed; what was allocated before a failure is freed.\<close>

definition alloc_fd_state :: "bool \<Rightarrow> bool \<Rightarrow> bool \<Rightarrow> string \<Rightarrow> fd_state option" where
  "alloc_fd_state allocated read_event write_event b =
     (if \<not> allocated then None else if \<not> read_event then None else if \<not> write_event then None else Some (fd_state_init b))"

definition do_read_char :: "char \<Rightarrow> fd_state \<Rightarrow> fd_state" where
  "do_read_char c s =
     (let s = s\<lparr>fs_received := fs_received s @ [c]\<rparr>;
          s = (if fs_used s < MAX_LINE
               then s\<lparr>fs_buffer := (fs_buffer s)[fs_used s := c], fs_used := Suc (fs_used s), fs_kept := fs_kept s @ [c]\<rparr>
               else s)
      in if c = NL then s\<lparr>fs_write_event := True, fs_upto := fs_used s\<rparr> else s)"

datatype received = Data string | Closed | Recv_error

text \<open>
  The read callback on what \<^verbatim>\<open>recv\<close> gives, in chunks of at most 20 characters. The flag is false when the state was freed. Line 107
  assigns \<^verbatim>\<open>EAGAIN\<close> to \<^verbatim>\<open>errno\<close>, so that no error frees it.
\<close>

fun do_read :: "received list \<Rightarrow> fd_state \<Rightarrow> bool \<times> fd_state" where
  "do_read [] s = (True, s)"
| "do_read (Data cs # rs) s = do_read rs (fold do_read_char cs s)"
| "do_read (Closed # rs) s = (False, s)"
| "do_read (Recv_error # rs) s = (True, s)"

datatype sent = Wrote nat | Again | Send_error

text \<open>
  The write callback on what \<^verbatim>\<open>send\<close> gives; it never writes more than it is given. At the end of the list the call is still
  running.
\<close>

definition do_write_end :: "fd_state \<Rightarrow> fd_state" where
  "do_write_end s =
     (let s = (if fs_n_written s = fs_used s then s\<lparr>fs_n_written := 1, fs_upto := 1, fs_used := 1\<rparr> else s)
      in s\<lparr>fs_write_event := False\<rparr>)"

fun do_write :: "sent list \<Rightarrow> fd_state \<Rightarrow> (bool \<times> fd_state) option" where
  "do_write [] s = Some (True, if fs_n_written s < fs_upto s then s else do_write_end s)"
| "do_write (w # ws) s =
     (if \<not> fs_n_written s < fs_upto s then Some (True, do_write_end s)
      else case w of
        Again \<Rightarrow> Some (True, s)
      | Send_error \<Rightarrow> Some (False, s)
      | Wrote k \<Rightarrow>
          if k = 0 then None
          else let k = min k (fs_upto s - fs_n_written s) in
            do_write ws (s\<lparr>fs_n_written := fs_n_written s + k, fs_sent := fs_sent s @ take k (drop (fs_n_written s) (fs_buffer s))\<rparr>))"

text \<open>A connection: \<^verbatim>\<open>do_accept\<close> for the descriptor that \<^verbatim>\<open>accept\<close> gives, and the callbacks until the state is freed.\<close>

definition FD_SETSIZE :: int where "FD_SETSIZE = 1024"

datatype accepted = Accept_error | Refused | Accepted fd_state

definition do_accept :: "int \<Rightarrow> bool \<times> bool \<times> bool \<Rightarrow> string \<Rightarrow> accepted option" where
  "do_accept fd ok b =
     (if fd < 0 then Some Accept_error
      else if fd > FD_SETSIZE then Some Refused
      else case alloc_fd_state (fst ok) (fst (snd ok)) (snd (snd ok)) b of None \<Rightarrow> None | Some s \<Rightarrow> Some (Accepted s))"

datatype callback = Read "received list" | Write "sent list"

fun serve :: "callback list \<Rightarrow> fd_state \<Rightarrow> fd_state option" where
  "serve [] s = Some s"
| "serve (Read rs # cs) s = (let (alive, s) = do_read rs s in if alive then serve cs s else Some s)"
| "serve (Write ws # cs) s =
     (if \<not> fs_write_event s then serve cs s
      else case do_write ws s of None \<Rightarrow> None | Some (alive, s) \<Rightarrow> if alive then serve cs s else Some s)"

section \<open>Well-formed states\<close>

definition unsent :: "fd_state \<Rightarrow> string" where
  "unsent s = take (fs_used s - fs_n_written s) (drop (fs_n_written s) (fs_buffer s))"

definition fs_wf :: "fd_state \<Rightarrow> bool" where
  "fs_wf s \<longleftrightarrow> length (fs_buffer s) = MAX_LINE \<and> fs_n_written s \<le> fs_upto s \<and> fs_upto s \<le> fs_used s \<and> fs_used s \<le> MAX_LINE \<and>
     fs_sent s @ unsent s = fs_kept s \<and> subseq (fs_kept s) (fs_received s)"

lemma rot13_char_involution: "rot13_char (rot13_char c) = c"
proof -
  have "(of_char c :: nat) < 256"
    by simp
  then show ?thesis
    by (auto simp: rot13_char_def Let_def)
qed

lemma fs_wf_init: "length b = MAX_LINE \<Longrightarrow> fs_wf (fd_state_init b)"
  by (simp add: fs_wf_def fd_state_init_def unsent_def)

lemma unsent_snoc:
  assumes "n \<le> u" and "u < length b"
  shows "take (Suc u - n) (drop n (b[u := c])) = take (u - n) (drop n b) @ [c]"
proof -
  have "Suc u - n = Suc (u - n)" "u - n < length (drop n (b[u := c]))"
    using assms by auto
  then have "take (Suc u - n) (drop n (b[u := c])) = take (u - n) (drop n (b[u := c])) @ [drop n (b[u := c]) ! (u - n)]"
    by (simp add: take_Suc_conv_app_nth)
  then show ?thesis
    using assms by (simp add: drop_update_swap)
qed

lemma fs_wf_read_char:
  assumes "fs_wf s"
  shows "fs_wf (do_read_char c s)"
proof (cases "fs_used s < MAX_LINE")
  case True
  have "unsent (s\<lparr>fs_buffer := (fs_buffer s)[fs_used s := c], fs_used := Suc (fs_used s)\<rparr>) = unsent s @ [c]"
    using assms True unsent_snoc [of "fs_n_written s" "fs_used s" "fs_buffer s" c] by (simp add: fs_wf_def unsent_def)
  then show ?thesis
    using assms True by (auto simp: fs_wf_def do_read_char_def Let_def unsent_def)
next
  case False
  then show ?thesis
    using assms by (auto simp: fs_wf_def do_read_char_def Let_def unsent_def intro: subseq_rev_drop_many list_emb_append2)
qed

lemma fs_wf_read: "fs_wf s \<Longrightarrow> fs_wf (snd (do_read rs s))"
proof (induction rs s rule: do_read.induct)
  case (2 cs rs s)
  have "fs_wf (fold do_read_char cs s)"
    using 2(2) by (induction cs arbitrary: s) (auto simp: fs_wf_read_char)
  then show ?case
    using 2(1) by simp
qed auto

lemma fs_wf_write_end: "fs_wf s \<Longrightarrow> \<not> fs_n_written s < fs_upto s \<Longrightarrow> fs_wf (do_write_end s)"
  by (auto simp: fs_wf_def do_write_end_def Let_def unsent_def MAX_LINE_def)

lemma fs_wf_wrote:
  assumes wf: "fs_wf s" and k: "k \<le> fs_upto s - fs_n_written s"
  shows "fs_wf (s\<lparr>fs_n_written := fs_n_written s + k, fs_sent := fs_sent s @ take k (drop (fs_n_written s) (fs_buffer s))\<rparr>)"
proof -
  let ?n = "fs_n_written s" and ?u = "fs_used s" and ?b = "fs_buffer s"
  have "?u - ?n = k + (?u - (?n + k))"
    using wf k by (auto simp: fs_wf_def)
  then have "take (?u - ?n) (drop ?n ?b) = take k (drop ?n ?b) @ take (?u - (?n + k)) (drop (?n + k) ?b)"
    by (metis take_add drop_drop add.commute)
  then show ?thesis
    using wf k by (auto simp: fs_wf_def unsent_def)
qed

lemma fs_wf_write: "fs_wf s \<Longrightarrow> do_write ws s = Some (alive, s') \<Longrightarrow> fs_wf s'"
proof (induction ws s rule: do_write.induct)
  case (1 s)
  then show ?case
    by (auto simp: fs_wf_write_end split: if_splits)
next
  case (2 w ws s)
  show ?case
  proof (cases "fs_n_written s < fs_upto s")
    case True
    then show ?thesis
      using 2 fs_wf_wrote [OF 2(2)] by (cases w) (auto simp: Let_def split: if_splits)
  next
    case False
    then show ?thesis
      using 2 fs_wf_write_end by auto
  qed
qed

lemma fs_wf_serve: "fs_wf s \<Longrightarrow> serve cs s = Some s' \<Longrightarrow> fs_wf s'"
proof (induction cs s rule: serve.induct)
  case (2 rs cs s)
  then show ?case
    using fs_wf_read [OF 2(2), of rs] by (cases "do_read rs s") (auto split: if_splits)
next
  case (3 ws cs s)
  show ?case
  proof (cases "fs_write_event s")
    case True
    then obtain alive s1 where s1: "do_write ws s = Some (alive, s1)"
      using 3(4) by (auto split: option.splits)
    then show ?thesis
      using 3(2) [OF _ s1 refl] fs_wf_write [OF 3(3) s1] 3(4) True by (cases alive) auto
  next
    case False
    then show ?thesis
      using 3 by simp
  qed
qed auto

text \<open>Reading a line: the characters before the newline, and the newline.\<close>

lemma read_char_eqs:
  "do_read_char NL s = (if fs_used s < MAX_LINE
     then s\<lparr>fs_received := fs_received s @ [NL], fs_buffer := (fs_buffer s)[fs_used s := NL], fs_used := Suc (fs_used s),
       fs_kept := fs_kept s @ [NL], fs_write_event := True, fs_upto := Suc (fs_used s)\<rparr>
     else s\<lparr>fs_received := fs_received s @ [NL], fs_write_event := True, fs_upto := fs_used s\<rparr>)"
  by (simp add: do_read_char_def Let_def)

lemma fold_read_chars:
  "NL \<notin> set cs \<Longrightarrow> fs_used s + length cs \<le> MAX_LINE \<Longrightarrow> length (fs_buffer s) = MAX_LINE \<Longrightarrow>
   fold do_read_char cs s = s\<lparr>fs_received := fs_received s @ cs,
     fs_buffer := take (fs_used s) (fs_buffer s) @ cs @ drop (fs_used s + length cs) (fs_buffer s),
     fs_used := fs_used s + length cs, fs_kept := fs_kept s @ cs\<rparr>"
proof (induction cs arbitrary: s)
  case (Cons c cs)
  let ?s = "s\<lparr>fs_received := fs_received s @ [c], fs_buffer := (fs_buffer s)[fs_used s := c], fs_used := Suc (fs_used s),
    fs_kept := fs_kept s @ [c]\<rparr>"
  have "do_read_char c s = ?s"
    using Cons.prems by (auto simp: do_read_char_def Let_def)
  then show ?case
    using Cons.IH [of ?s] Cons.prems by (simp add: take_Suc_conv_app_nth)
qed simp

section \<open>Properties\<close>

text \<open>
  C15: Every callback keeps the state of a connection well formed: the counters are in order and stay inside the buffer, and what was
  sent, followed by what is still in the buffer, is what was stored, which is what was received except for the characters that
  found the buffer full. So the server echoes what it receives in order, and invents nothing.
\<close>

theorem echo_server_well_formed:
  assumes "do_accept fd ok b = Some (Accepted s0)" and "length b = MAX_LINE" and "serve cs s0 = Some s"
  shows "fs_n_written s \<le> fs_upto s \<and> fs_upto s \<le> fs_used s \<and> fs_used s \<le> MAX_LINE \<and> fs_sent s @ unsent s = fs_kept s \<and>
    subseq (fs_kept s) (fs_received s) \<and> prefix (fs_sent s) (fs_kept s)"
proof -
  have "s0 = fd_state_init b"
    using assms(1) by (auto simp: do_accept_def alloc_fd_state_def split: if_splits option.splits)
  then have "fs_wf s"
    using fs_wf_serve [OF fs_wf_init [OF assms(2)]] assms(3) by simp
  then show ?thesis
    unfolding fs_wf_def by (metis prefixI)
qed

text \<open>
  A completely written buffer is reset to position 1 instead of 0. A line of 80 characters is echoed whole on a new connection,
  and without its newline after another line.
\<close>

theorem echo_server_cuts_second_line:
  assumes "length cs = 79" and "NL \<notin> set cs" and "length b = MAX_LINE"
  shows "map_option fs_sent (serve [Read [Data (cs @ [NL])], Write [Wrote 80]] (fd_state_init b)) = Some (cs @ [NL]) \<and>
    map_option fs_sent (serve [Read [Data [NL]], Write [Wrote 1], Read [Data (cs @ [NL])], Write [Wrote 80]] (fd_state_init b)) =
      Some (NL # cs)"
proof -
  obtain c where "drop 79 b = [c]"
    using assms(3) by (cases "drop 79 b"; cases "tl (drop 79 b)") (auto simp: MAX_LINE_def dest!: arg_cong [where f = length])
  then have "(cs @ drop 79 b)[79 := NL] = cs @ [NL]" "take (Suc 0) (b[0 := NL]) = [NL]"
    using assms by (auto simp: list_update_append MAX_LINE_def take_Suc_conv_app_nth)
  then show ?thesis
    using assms by (simp add: fold_read_chars fd_state_init_def do_write_end_def read_char_eqs Let_def MAX_LINE_def)
qed

theorem echo_server_cuts_second_line_witness:
  "map_option fs_sent (serve [Read [Data [NL]], Write [Wrote 1], Read [Data (replicate 79 CHR ''a'' @ [NL])], Write [Wrote 80]]
     (fd_state_init (replicate 80 NUL))) = Some (NL # replicate 79 CHR ''a'')"
  using echo_server_cuts_second_line [of "replicate 79 CHR ''a''" "replicate 80 NUL"] by (simp add: NL_def MAX_LINE_def)

theorem echo_server_well_formed_witness:
  "\<exists>s. serve [Read [Data (''hi'' @ [NL]), Recv_error], Write [Wrote 2, Wrote 1]] (fd_state_init (replicate 80 NUL)) = Some s \<and>
     fs_sent s @ unsent s = ''hi'' @ [NL]"
proof -
  let ?cs = "[Read [Data (''hi'' @ [NL]), Recv_error], Write [Wrote 2, Wrote 1]]"
  have "map_option fs_kept (serve ?cs (fd_state_init (replicate 80 NUL))) = Some (''hi'' @ [NL])"
    by code_simp
  then obtain s where s: "serve ?cs (fd_state_init (replicate 80 NUL)) = Some s" "fs_kept s = ''hi'' @ [NL]"
    by auto
  then show ?thesis
    using echo_server_well_formed [of 7 "(True, True, True)" "replicate 80 NUL", OF _ _ s(1)]
    by (simp add: do_accept_def alloc_fd_state_def FD_SETSIZE_def MAX_LINE_def)
qed

end
