(* ===== verification/Epoll.thy ===== *)
theory Epoll
  imports C_Strings "HOL-Library.Monad_Syntax"
begin

text \<open>
  The programs of \<^verbatim>\<open>lib/epoll\<close>: the load generator \<^verbatim>\<open>epollclient.cpp\<close>, which drives many users through a state machine, its server
  \<^verbatim>\<open>epollserver.cpp\<close>, and the two ways of reading a socket in \<^verbatim>\<open>diff_LT_ET.c\<close>. The interest list of \<^verbatim>\<open>epoll\<close> is a map from descriptors to
  the events asked for; the events of a call of \<^verbatim>\<open>epoll_wait\<close> and what \<^verbatim>\<open>socket\<close>, \<^verbatim>\<open>send\<close> and \<^verbatim>\<open>recv\<close> give are inputs. \<^const>\<open>None\<close> is an access outside an
  array. Console output is left out, the text that the client has received, printed with \<^verbatim>\<open>%s\<close>, included.
\<close>

section \<open>The client\<close>

definition MAX_SOCKFD_COUNT :: int where "MAX_SOCKFD_COUNT = 65536"

datatype user_status = FREE | CONNECT_OK | SEND_OK | RECV_OK

record UserStatus =
  iUserStatus :: user_status
  iSockFd :: int
  cSendbuff :: string
  iBuffLen :: int

text \<open>\<^verbatim>\<open>uEpollEvents\<close>, which is written once and never read, is left out. What is asked for: input, output. Errors are always reported.\<close>

type_synonym interest = "bool \<times> bool"

text \<open>What happens on a descriptor, for the record.\<close>

datatype epoll_io = Sent int string | Received int string | Closed int

record EpollClient =
  m_pAllUserStatus :: "UserStatus list"
  m_iSockFd_UserId :: "int \<Rightarrow> int"
  cl_epoll :: "int \<rightharpoonup> interest"
  cl_log :: "epoll_io list"

definition user_new :: "nat \<Rightarrow> UserStatus" where
  "user_new i =
     (let t = ''client: '' @ show_nat i @ '' send message '' @ [CHR 0x22] @ ''hello server!'' @ [CHR 0x22, NL] in
      \<lparr>iUserStatus = FREE, iSockFd = -1, cSendbuff = t, iBuffLen = int (length t) + 1\<rparr>)"

text \<open>The constructor. The array from descriptors to users is filled with ones, that is, with -1.\<close>

definition client_new :: "nat \<Rightarrow> EpollClient" where
  "client_new iUserCount =
     \<lparr>m_pAllUserStatus = map user_new [0..<iUserCount], m_iSockFd_UserId = (\<lambda>_. -1), cl_epoll = Map.empty, cl_log = []\<rparr>"

definition get_user :: "int \<Rightarrow> EpollClient \<Rightarrow> UserStatus option" where
  "get_user i c = (if 0 \<le> i \<and> nat i < length (m_pAllUserStatus c) then Some (m_pAllUserStatus c ! nat i) else None)"

definition set_user :: "int \<Rightarrow> UserStatus \<Rightarrow> EpollClient \<Rightarrow> EpollClient" where
  "set_user i u c = c\<lparr>m_pAllUserStatus := (m_pAllUserStatus c)[nat i := u]\<rparr>"

definition set_user_id :: "int \<Rightarrow> int \<Rightarrow> EpollClient \<Rightarrow> EpollClient option" where
  "set_user_id fd i c =
     (if 0 \<le> fd \<and> fd < MAX_SOCKFD_COUNT then Some (c\<lparr>m_iSockFd_UserId := (m_iSockFd_UserId c)(fd := i)\<rparr>) else None)"

definition ConnectToServer :: "int \<Rightarrow> int \<Rightarrow> EpollClient \<Rightarrow> (int \<times> EpollClient) option" where
  "ConnectToServer i fd c = do {
     u \<leftarrow> get_user i c;
     if fd < 0 then Some (-1, set_user i (u\<lparr>iSockFd := -1\<rparr>) c)
     else Some (fd, set_user i (u\<lparr>iSockFd := fd, iUserStatus := CONNECT_OK\<rparr>) c)
   }"

text \<open>\<open>n\<close> is what \<^verbatim>\<open>send\<close> gives. The text goes out with its NUL.\<close>

definition SendToServerData :: "int \<Rightarrow> int \<Rightarrow> EpollClient \<Rightarrow> (int \<times> EpollClient) option" where
  "SendToServerData i n c = do {
     u \<leftarrow> get_user i c;
     if iUserStatus u = CONNECT_OK \<or> iUserStatus u = RECV_OK then
       (if n < 0 then Some (n, c)
        else Some (n, (set_user i (u\<lparr>iUserStatus := SEND_OK\<rparr>) c)\<lparr>cl_log := cl_log c @ [Sent (iSockFd u) (cSendbuff u)]\<rparr>))
     else Some (-1, c)
   }"

text \<open>\<open>r\<close> is what \<^verbatim>\<open>recv\<close> gives: \<^const>\<open>None\<close> for an error, the empty string at the end of the stream.\<close>

definition RecvFromServer :: "int \<Rightarrow> string option \<Rightarrow> EpollClient \<Rightarrow> (int \<times> EpollClient) option" where
  "RecvFromServer i r c = do {
     u \<leftarrow> get_user i c;
     if iUserStatus u = SEND_OK then
       (case r of
          None \<Rightarrow> Some (-1, c)
        | Some t \<Rightarrow>
            if t = [] then Some (0, c)
            else Some (int (length t), (set_user i (u\<lparr>iUserStatus := RECV_OK\<rparr>) c)\<lparr>cl_log := cl_log c @ [Received (iSockFd u) t]\<rparr>))
     else Some (-1, c)
   }"

definition CloseUser :: "int \<Rightarrow> EpollClient \<Rightarrow> EpollClient option" where
  "CloseUser i c = do {
     u \<leftarrow> get_user i c;
     Some ((set_user i (u\<lparr>iUserStatus := FREE, iSockFd := -1\<rparr>) c)\<lparr>cl_log := cl_log c @ [Closed (iSockFd u)]\<rparr>)
   }"

definition DelEpoll :: "int \<Rightarrow> EpollClient \<Rightarrow> EpollClient option" where
  "DelEpoll fd c = (if 0 < fd then set_user_id fd (-1) (c\<lparr>cl_epoll := (cl_epoll c)(fd := None)\<rparr>) else Some c)"

text \<open>The first loop of \<^verbatim>\<open>RunFun\<close>, on what the calls of \<^verbatim>\<open>socket\<close> give.\<close>

fun connect_loop :: "nat \<Rightarrow> int list \<Rightarrow> EpollClient \<Rightarrow> EpollClient option" where
  "connect_loop i [] c = Some c"
| "connect_loop i (fd # fds) c = do {
     (fd, c) \<leftarrow> ConnectToServer (int i) fd c;
     c \<leftarrow> set_user_id fd (int i) c;
     connect_loop (Suc i) fds (c\<lparr>cl_epoll := (cl_epoll c)(fd \<mapsto> (True, True))\<rparr>)
   }"

text \<open>An event: the descriptor, what is reported of it, and what the call of \<^verbatim>\<open>send\<close> or \<^verbatim>\<open>recv\<close> gives then.\<close>

record event =
  ev_fd :: int
  ev_in :: bool
  ev_out :: bool
  ev_send :: int
  ev_recv :: "string option"

definition drop_user :: "int \<Rightarrow> int \<Rightarrow> EpollClient \<Rightarrow> EpollClient option" where
  "drop_user fd i c = Option.bind (DelEpoll fd c) (CloseUser i)"

definition ask :: "int \<Rightarrow> interest \<Rightarrow> EpollClient \<Rightarrow> EpollClient" where
  "ask fd m c = c\<lparr>cl_epoll := (cl_epoll c)(fd \<mapsto> m)\<rparr>"

definition client_event :: "event \<Rightarrow> EpollClient \<Rightarrow> EpollClient option" where
  "client_event e c =
     (let fd = ev_fd e in
      if 0 \<le> fd \<and> fd < MAX_SOCKFD_COUNT then
        let i = m_iSockFd_UserId c fd in
        if ev_out e then do {
          (n, c) \<leftarrow> SendToServerData i (ev_send e) c;
          if 0 < n then Some (ask fd (True, False) c) else drop_user fd i c
        }
        else if ev_in e then do {
          (n, c) \<leftarrow> RecvFromServer i (ev_recv e) c;
          if n < 0 then drop_user fd i c
          else if n = 0 then drop_user fd i c
          else do {
            c \<leftarrow> set_user_id fd i c;
            Some (ask fd (False, True) c)
          }
        }
        else drop_user fd i c
      else None)"

fun client_run :: "event list \<Rightarrow> EpollClient \<Rightarrow> EpollClient option" where
  "client_run [] c = Some c"
| "client_run (e # es) c = Option.bind (client_event e c) (client_run es)"

section \<open>The server\<close>

record EpollServer =
  sv_epoll :: "int \<rightharpoonup> interest"
  sv_log :: "epoll_io list"

definition server_new :: EpollServer where
  "server_new = \<lparr>sv_epoll = Map.empty, sv_log = []\<rparr>"

text \<open>
  \<^verbatim>\<open>InitServer\<close>, on whether \<^verbatim>\<open>fcntl\<close>, \<^verbatim>\<open>socket\<close>, \<^verbatim>\<open>bind\<close>, \<^verbatim>\<open>listen\<close> and \<^verbatim>\<open>pthread_create\<close> succeed. After the last of them the function ends without a
  \<^verbatim>\<open>return\<close>, which is undefined.
\<close>

definition InitServer :: "bool \<Rightarrow> bool \<Rightarrow> bool \<Rightarrow> bool \<Rightarrow> bool \<Rightarrow> bool option" where
  "InitServer nonblocking opened bound listening started =
     (if \<not> nonblocking then Some False
      else if \<not> opened then Some False
      else if \<not> bound then Some False
      else if \<not> listening then Some False
      else if \<not> started then Some False
      else None)"

text \<open>One turn of the listening thread, on what \<^verbatim>\<open>accept\<close> gives.\<close>

definition ListenThread :: "int \<Rightarrow> EpollServer \<Rightarrow> EpollServer" where
  "ListenThread fd s = (if fd < 0 then s else s\<lparr>sv_epoll := (sv_epoll s)(fd \<mapsto> (True, False))\<rparr>)"

definition server_reply :: "int \<Rightarrow> string" where
  "server_reply fd = ''Hello,client fd: '' @ show_int fd @ [NL]"

text \<open>
  An event of \<^verbatim>\<open>Run\<close>. The array of 1024 characters is cleared before it is filled and printed up to a NUL, which has to be there. A descriptor that is
  dropped is not closed.
\<close>

definition server_event :: "event \<Rightarrow> EpollServer \<Rightarrow> EpollServer option" where
  "server_event e s =
     (let fd = ev_fd e in
      if ev_in e then
        (case ev_recv e of
           None \<Rightarrow> Some (s\<lparr>sv_epoll := (sv_epoll s)(fd := None)\<rparr>)
         | Some t \<Rightarrow>
             if t = [] then Some (s\<lparr>sv_epoll := (sv_epoll s)(fd := None)\<rparr>)
             else if length t < 1024 \<or> NUL \<in> set t
             then Some (s\<lparr>sv_epoll := (sv_epoll s)(fd \<mapsto> (False, True)), sv_log := sv_log s @ [Received fd t]\<rparr>)
             else None)
      else if ev_out e then
        (if ev_send e \<le> 0 then Some (s\<lparr>sv_epoll := (sv_epoll s)(fd := None)\<rparr>)
         else Some (s\<lparr>sv_epoll := (sv_epoll s)(fd \<mapsto> (True, False)), sv_log := sv_log s @ [Sent fd (server_reply fd)]\<rparr>))
      else Some (s\<lparr>sv_epoll := (sv_epoll s)(fd := None)\<rparr>))"

section \<open>Reading with level and with edge triggering\<close>

definition BUFFER_SIZE :: nat where "BUFFER_SIZE = 10"

text \<open>What \<^verbatim>\<open>recv\<close> gives: at most 9 characters, the end of the stream, nothing for the moment, or an error.\<close>

datatype recv = Chunk string | End_of_stream | Try_again | Recv_failed

text \<open>
  The interest list of the kernel, with the flag for edge triggering, and what was done. \<^verbatim>\<open>close\<close> takes a descriptor from the list.
\<close>

record lt_et_state =
  le_epoll :: "int \<rightharpoonup> bool"
  le_log :: "epoll_io list"

definition addfd :: "int \<Rightarrow> bool \<Rightarrow> lt_et_state \<Rightarrow> lt_et_state" where
  "addfd fd enable_et s = (if fd < 0 then s else s\<lparr>le_epoll := (le_epoll s)(fd \<mapsto> enable_et)\<rparr>)"

definition close_fd :: "int \<Rightarrow> lt_et_state \<Rightarrow> lt_et_state" where
  "close_fd fd s = s\<lparr>le_epoll := (le_epoll s)(fd := None), le_log := le_log s @ [Closed fd]\<rparr>"

definition got :: "int \<Rightarrow> string \<Rightarrow> lt_et_state \<Rightarrow> lt_et_state" where
  "got fd t s = s\<lparr>le_log := le_log s @ [Received fd t]\<rparr>"

text \<open>An event: the descriptor, whether there is input, what \<^verbatim>\<open>accept\<close> gives, and what the calls of \<^verbatim>\<open>recv\<close> give.\<close>

record socket_event =
  se_fd :: int
  se_in :: bool
  se_accept :: int
  se_recv :: "recv list"

text \<open>One call of \<^verbatim>\<open>recv\<close> of \<^verbatim>\<open>lt\<close>: nothing to read for the moment closes the socket, too.\<close>

fun lt_read :: "int \<Rightarrow> recv list \<Rightarrow> lt_et_state \<Rightarrow> lt_et_state" where
  "lt_read fd [] s = s"
| "lt_read fd (Chunk t # rs) s = got fd t s"
| "lt_read fd (End_of_stream # rs) s = close_fd fd s"
| "lt_read fd (Try_again # rs) s = close_fd fd s"
| "lt_read fd (Recv_failed # rs) s = close_fd fd s"

fun lt :: "socket_event list \<Rightarrow> int \<Rightarrow> lt_et_state \<Rightarrow> lt_et_state" where
  "lt [] listenfd s = s"
| "lt (e # es) listenfd s = lt es listenfd
     (if se_fd e = listenfd then addfd (se_accept e) False s
      else if se_in e then lt_read (se_fd e) (se_recv e) s
      else s)"

text \<open>The loop of \<^verbatim>\<open>et\<close>: calls of \<^verbatim>\<open>recv\<close> until one fails. The end of the stream closes the socket and does not leave the loop.\<close>

fun et_read :: "int \<Rightarrow> recv list \<Rightarrow> lt_et_state \<Rightarrow> lt_et_state" where
  "et_read fd [] s = s"
| "et_read fd (Chunk t # rs) s = et_read fd rs (got fd t s)"
| "et_read fd (End_of_stream # rs) s = et_read fd rs (close_fd fd s)"
| "et_read fd (Try_again # rs) s = s"
| "et_read fd (Recv_failed # rs) s = close_fd fd s"

fun et :: "socket_event list \<Rightarrow> int \<Rightarrow> lt_et_state \<Rightarrow> lt_et_state" where
  "et [] listenfd s = s"
| "et (e # es) listenfd s = et es listenfd
     (if se_fd e = listenfd then addfd (se_accept e) True s
      else if se_in e then et_read (se_fd e) (se_recv e) s
      else s)"

text \<open>The loop of \<^verbatim>\<open>main\<close>, on what the calls of \<^verbatim>\<open>epoll_wait\<close> give; one that fails ends it.\<close>

fun lt_main_loop :: "socket_event list option list \<Rightarrow> int \<Rightarrow> lt_et_state \<Rightarrow> lt_et_state" where
  "lt_main_loop [] listenfd s = s"
| "lt_main_loop (None # ws) listenfd s = s"
| "lt_main_loop (Some es # ws) listenfd s = lt_main_loop ws listenfd (lt es listenfd s)"

definition lt_main :: "socket_event list option list \<Rightarrow> int \<Rightarrow> lt_et_state" where
  "lt_main ws listenfd = close_fd listenfd (lt_main_loop ws listenfd (addfd listenfd True \<lparr>le_epoll = Map.empty, le_log = []\<rparr>))"

section \<open>The client as a state machine\<close>

text \<open>The kernel reports a registered descriptor, and only what was asked for it, errors apart.\<close>

definition reported :: "event \<Rightarrow> (int \<rightharpoonup> interest) \<Rightarrow> bool" where
  "reported e ep = (case ep (ev_fd e) of None \<Rightarrow> False | Some m \<Rightarrow> (ev_in e \<longrightarrow> fst m) \<and> (ev_out e \<longrightarrow> snd m))"

text \<open>The descriptors that \<^verbatim>\<open>socket\<close> gives: distinct, and not that of the standard input.\<close>

definition good_fds :: "int list \<Rightarrow> bool" where
  "good_fds fds \<longleftrightarrow> distinct fds \<and> (\<forall>fd \<in> set fds. 0 < fd \<and> fd < MAX_SOCKFD_COUNT)"

inductive client_reach :: "int list \<Rightarrow> EpollClient \<Rightarrow> bool" for fds where
  client_start: "connect_loop 0 fds (client_new (length fds)) = Some c \<Longrightarrow> client_reach fds c"
| client_step: "client_reach fds c \<Longrightarrow> reported e (cl_epoll c) \<Longrightarrow> client_event e c = Some c' \<Longrightarrow> client_reach fds c'"

text \<open>
  The contract of a connection: texts are sent and received in turn, starting with a send, until it is closed, once and for all.
\<close>

datatype phase = To_send | To_receive | Over

fun follow :: "phase \<Rightarrow> epoll_io list \<Rightarrow> phase option" where
  "follow p [] = Some p"
| "follow To_send (Sent _ _ # xs) = follow To_receive xs"
| "follow To_receive (Received _ _ # xs) = follow To_send xs"
| "follow p (Closed _ # xs) = (if p = Over then None else follow Over xs)"
| "follow _ _ = None"

fun io_fd :: "epoll_io \<Rightarrow> int" where
  "io_fd (Sent fd _) = fd"
| "io_fd (Received fd _) = fd"
| "io_fd (Closed fd) = fd"

definition talk :: "int \<Rightarrow> epoll_io list \<Rightarrow> epoll_io list" where
  "talk fd = filter (\<lambda>x. io_fd x = fd)"

lemma talk_simps [simp]: "talk fd [] = []" "talk fd (xs @ ys) = talk fd xs @ talk fd ys"
  "talk fd (x # xs) = (if io_fd x = fd then x # talk fd xs else talk fd xs)"
  by (simp_all add: talk_def)

lemma follow_append: "follow p (xs @ ys) = Option.bind (follow p xs) (\<lambda>q. follow q ys)"
  by (induction p xs rule: follow.induct) auto

text \<open>The user of a descriptor, and what the state of the program says about its phase.\<close>

definition user_of :: "int \<Rightarrow> EpollClient \<Rightarrow> UserStatus" where
  "user_of fd c = m_pAllUserStatus c ! nat (m_iSockFd_UserId c fd)"

definition phase_of :: "int \<Rightarrow> EpollClient \<Rightarrow> phase" where
  "phase_of fd c = (case cl_epoll c fd of None \<Rightarrow> Over | Some _ \<Rightarrow> if iUserStatus (user_of fd c) = SEND_OK then To_receive else To_send)"

definition interest_of :: "user_status \<Rightarrow> interest \<Rightarrow> bool" where
  "interest_of st m \<longleftrightarrow> st = CONNECT_OK \<and> m = (True, True) \<or> st = SEND_OK \<and> m = (True, False) \<or> st = RECV_OK \<and> m = (False, True)"

definition fd_ok :: "int \<Rightarrow> EpollClient \<Rightarrow> bool" where
  "fd_ok fd c \<longleftrightarrow> (\<forall>m. cl_epoll c fd = Some m \<longrightarrow>
     0 < fd \<and> fd < MAX_SOCKFD_COUNT \<and> get_user (m_iSockFd_UserId c fd) c = Some (user_of fd c) \<and> iSockFd (user_of fd c) = fd \<and>
     interest_of (iUserStatus (user_of fd c)) m)"

definition client_inv :: "int list \<Rightarrow> EpollClient \<Rightarrow> bool" where
  "client_inv fds c \<longleftrightarrow> (\<forall>fd. fd_ok fd c) \<and> dom (cl_epoll c) \<subseteq> set fds \<and>
     (\<forall>fd \<in> set fds. follow To_send (talk fd (cl_log c)) = Some (phase_of fd c))"

lemma get_user_Some: "get_user i c = Some u \<longleftrightarrow> 0 \<le> i \<and> nat i < length (m_pAllUserStatus c) \<and> u = m_pAllUserStatus c ! nat i"
  by (auto simp: get_user_def)

lemma set_user_simps [simp]:
  "m_iSockFd_UserId (set_user i u c) = m_iSockFd_UserId c" "cl_epoll (set_user i u c) = cl_epoll c" "cl_log (set_user i u c) = cl_log c"
  "length (m_pAllUserStatus (set_user i u c)) = length (m_pAllUserStatus c)"
  "m_pAllUserStatus (set_user i u c) = (m_pAllUserStatus c)[nat i := u]"
  by (simp_all add: set_user_def)

text \<open>
  An event on \<open>fd\<close> changes the user of \<open>fd\<close> and the entries of \<open>fd\<close>, nothing else: what holds of another descriptor is kept.
\<close>

definition only :: "int \<Rightarrow> EpollClient \<Rightarrow> EpollClient \<Rightarrow> bool" where
  "only fd c c' \<longleftrightarrow> (\<forall>g. g \<noteq> fd \<longrightarrow> cl_epoll c' g = cl_epoll c g \<and> m_iSockFd_UserId c' g = m_iSockFd_UserId c g \<and> talk g (cl_log c') = talk g (cl_log c))
     \<and> length (m_pAllUserStatus c') = length (m_pAllUserStatus c)
     \<and> (\<forall>j < length (m_pAllUserStatus c). j \<noteq> nat (m_iSockFd_UserId c fd) \<longrightarrow> m_pAllUserStatus c' ! j = m_pAllUserStatus c ! j)"

lemma only_other:
  assumes "only fd c c'" "fd_ok fd c" "fd_ok g c" "g \<noteq> fd" "cl_epoll c fd = Some m"
  shows "fd_ok g c' \<and> phase_of g c' = phase_of g c"
proof (cases "cl_epoll c g")
  case None
  then show ?thesis
    using assms(1,4) by (simp add: only_def fd_ok_def phase_of_def)
next
  case (Some k)
  let ?i = "m_iSockFd_UserId c fd" and ?j = "m_iSockFd_UserId c g"
  have j: "get_user ?j c = Some (user_of g c)" "iSockFd (user_of g c) = g"
    using assms(3) Some by (auto simp: fd_ok_def)
  have i: "get_user ?i c = Some (user_of fd c)" "iSockFd (user_of fd c) = fd"
    using assms(2,5) by (auto simp: fd_ok_def)
  have "nat ?j \<noteq> nat ?i"
    using i j assms(4) by (auto simp: user_of_def)
  then have same: "user_of g c' = user_of g c" "cl_epoll c' g = cl_epoll c g" "m_iSockFd_UserId c' g = ?j"
    "length (m_pAllUserStatus c') = length (m_pAllUserStatus c)"
    using assms(1,4) j(1) by (auto simp: only_def user_of_def get_user_Some)
  then have "get_user ?j c' = Some (user_of g c)"
    using j(1) by (simp add: get_user_Some user_of_def)
  then show ?thesis
    using same assms(3) Some by (simp add: fd_ok_def phase_of_def)
qed

lemma client_inv_step:
  assumes "client_inv fds c" "cl_epoll c fd = Some m" "only fd c c'" "fd_ok fd c'"
    "talk fd (cl_log c') = talk fd (cl_log c) @ xs" "follow (phase_of fd c) xs = Some (phase_of fd c')"
  shows "client_inv fds c'"
proof -
  have ok: "fd_ok g c" for g
    using assms(1) by (simp add: client_inv_def)
  have fd: "fd \<in> set fds"
    using assms(1,2) by (auto simp: client_inv_def)
  have other: "fd_ok g c' \<and> phase_of g c' = phase_of g c" if "g \<noteq> fd" for g
    using only_other [OF assms(3) ok ok that assms(2)] .
  have "follow To_send (talk g (cl_log c')) = Some (phase_of g c')" if "g \<in> set fds" for g
  proof (cases "g = fd")
    case True
    then show ?thesis
      using assms(1,5,6) fd by (simp add: client_inv_def follow_append)
  next
    case False
    then show ?thesis
      using assms(1,3) that other [OF False] by (simp add: client_inv_def only_def)
  qed
  moreover have "dom (cl_epoll c') \<subseteq> set fds"
    using assms(1,3) fd unfolding client_inv_def only_def by (metis domIff subset_iff)
  ultimately show ?thesis
    using other assms(4) unfolding client_inv_def by metis
qed

text \<open>The outcome of an event on \<open>fd\<close>: its user, its interest, its entry in the array of users, and what is recorded.\<close>

definition moved :: "int \<Rightarrow> UserStatus \<Rightarrow> interest option \<Rightarrow> int \<Rightarrow> epoll_io list \<Rightarrow> EpollClient \<Rightarrow> EpollClient" where
  "moved fd u m i xs c = c\<lparr>m_pAllUserStatus := (m_pAllUserStatus c)[nat (m_iSockFd_UserId c fd) := u],
     m_iSockFd_UserId := (m_iSockFd_UserId c)(fd := i), cl_epoll := (cl_epoll c)(fd := m), cl_log := cl_log c @ xs\<rparr>"

lemma moved_only: "\<forall>x \<in> set xs. io_fd x = fd \<Longrightarrow> only fd c (moved fd u m i xs c)"
  by (auto simp: only_def moved_def talk_def)

lemma user_of_moved:
  "get_user (m_iSockFd_UserId c fd) c = Some v \<Longrightarrow> user_of fd (moved fd u m (m_iSockFd_UserId c fd) xs c) = u"
  by (auto simp: user_of_def moved_def get_user_Some)

definition gone :: "UserStatus \<Rightarrow> UserStatus" where
  "gone u = u\<lparr>iUserStatus := FREE, iSockFd := -1\<rparr>"

lemma drop_user_gone:
  assumes "get_user (m_iSockFd_UserId c fd) c = Some u" "iSockFd u = fd" "0 < fd" "fd < MAX_SOCKFD_COUNT"
  shows "drop_user fd (m_iSockFd_UserId c fd) c = Some (moved fd (gone u) None (-1) [Closed fd] c)"
  using assms by (simp add: drop_user_def DelEpoll_def set_user_id_def CloseUser_def get_user_def set_user_def moved_def gone_def split: if_splits)

text \<open>What an event does, by the state of its user.\<close>

definition outcome :: "event \<Rightarrow> EpollClient \<Rightarrow> EpollClient" where
  "outcome e c =
     (let fd = ev_fd e; u = user_of fd c; i = m_iSockFd_UserId c fd in
      if ev_out e \<and> 0 < ev_send e then moved fd (u\<lparr>iUserStatus := SEND_OK\<rparr>) (Some (True, False)) i [Sent fd (cSendbuff u)] c
      else if ev_out e \<and> ev_send e = 0 then moved fd (gone u) None (-1) [Sent fd (cSendbuff u), Closed fd] c
      else if \<not> ev_out e \<and> ev_in e \<and> iUserStatus u = SEND_OK \<and> ev_recv e \<notin> {None, Some []}
      then moved fd (u\<lparr>iUserStatus := RECV_OK\<rparr>) (Some (False, True)) i [Received fd (the (ev_recv e))] c
      else moved fd (gone u) None (-1) [Closed fd] c)"

lemma client_event_outcome:
  assumes "fd_ok (ev_fd e) c" "reported e (cl_epoll c)"
  shows "client_event e c = Some (outcome e c)"
proof -
  let ?fd = "ev_fd e"
  let ?i = "m_iSockFd_UserId c ?fd" and ?u = "user_of ?fd c"
  obtain m where m: "cl_epoll c ?fd = Some m" "ev_in e \<longrightarrow> fst m" "ev_out e \<longrightarrow> snd m"
    using assms(2) by (auto simp: reported_def split: option.splits)
  have u: "0 < ?fd" "?fd < MAX_SOCKFD_COUNT" "get_user ?i c = Some ?u" "iSockFd ?u = ?fd" "interest_of (iUserStatus ?u) m"
    using assms(1) m(1) by (auto simp: fd_ok_def)
  note gone = drop_user_gone [OF u(3,4,1,2)]
  consider (out) "ev_out e" | (inp) "\<not> ev_out e" "ev_in e" | (err) "\<not> ev_out e" "\<not> ev_in e"
    by blast
  then show ?thesis
  proof cases
    case out
    then have st: "iUserStatus ?u = CONNECT_OK \<or> iUserStatus ?u = RECV_OK"
      using m(3) u(5) by (auto simp: interest_of_def)
    consider "ev_send e < 0" | "ev_send e = 0" | "0 < ev_send e" by linarith
    then show ?thesis
    proof cases
      case 1
      then show ?thesis
        using out st u gone by (simp add: client_event_def SendToServerData_def outcome_def Let_def)
    next
      case 2
      let ?c = "(set_user ?i (?u\<lparr>iUserStatus := SEND_OK\<rparr>) c)\<lparr>cl_log := cl_log c @ [Sent ?fd (cSendbuff ?u)]\<rparr>"
      have "get_user ?i ?c = Some (?u\<lparr>iUserStatus := SEND_OK\<rparr>)"
        using u(3) by (simp add: get_user_Some)
      then have "drop_user ?fd ?i ?c = Some (moved ?fd (gone (?u\<lparr>iUserStatus := SEND_OK\<rparr>)) None (-1) [Closed ?fd] ?c)"
        using drop_user_gone [of ?c ?fd "?u\<lparr>iUserStatus := SEND_OK\<rparr>"] u(1,2,4) by simp
      then show ?thesis
        using 2 out st u by (simp add: client_event_def SendToServerData_def outcome_def Let_def moved_def set_user_def gone_def)
    next
      case 3
      then show ?thesis
        using out st u by (simp add: client_event_def SendToServerData_def outcome_def Let_def moved_def set_user_def ask_def)
    qed
  next
    case inp
    show ?thesis
    proof (cases "iUserStatus ?u = SEND_OK \<and> ev_recv e \<notin> {None, Some []}")
      case True
      then obtain t where "ev_recv e = Some t" "t \<noteq> []" by auto
      then show ?thesis
        using inp True u by (simp add: client_event_def RecvFromServer_def outcome_def Let_def moved_def set_user_def set_user_id_def ask_def)
    next
      case False
      then show ?thesis
        using inp u gone by (auto simp: client_event_def RecvFromServer_def outcome_def Let_def split: option.splits)
    qed
  next
    case err
    then show ?thesis
      using u gone by (simp add: client_event_def outcome_def Let_def)
  qed
qed

lemma moved_ok:
  assumes "fd_ok fd c" "cl_epoll c fd = Some m" "iSockFd u = fd" "interest_of (iUserStatus u) k"
  shows "fd_ok fd (moved fd u (Some k) (m_iSockFd_UserId c fd) xs c)"
  using assms by (auto simp: fd_ok_def moved_def user_of_def get_user_Some)

lemma moved_inv:
  assumes "client_inv fds c" "cl_epoll c fd = Some m"
    "\<forall>x \<in> set xs. io_fd x = fd" "follow (phase_of fd c) xs = Some p"
    "i = (case m' of None \<Rightarrow> -1 | Some _ \<Rightarrow> m_iSockFd_UserId c fd)"
    "case m' of None \<Rightarrow> p = Over | Some k \<Rightarrow> iSockFd u = fd \<and> interest_of (iUserStatus u) k \<and> p = (if iUserStatus u = SEND_OK then To_receive else To_send)"
  shows "client_inv fds (moved fd u m' i xs c)"
proof (rule client_inv_step [OF assms(1,2) moved_only [OF assms(3)]])
  have "fd_ok fd c"
    using assms(1) by (simp add: client_inv_def)
  then have u: "0 < fd" "fd < MAX_SOCKFD_COUNT" "get_user (m_iSockFd_UserId c fd) c = Some (user_of fd c)"
    using assms(2) by (auto simp: fd_ok_def)
  let ?c = "moved fd u m' i xs c"
  have ep: "cl_epoll ?c fd = m'"
    by (simp add: moved_def)
  have who: "user_of fd ?c = u" if "m' \<noteq> None"
    using user_of_moved [OF u(3)] that assms(5) by auto
  show "fd_ok fd ?c"
    using moved_ok [OF \<open>fd_ok fd c\<close> assms(2)] ep assms(5,6) by (cases m') (auto simp: fd_ok_def)
  show "talk fd (cl_log ?c) = talk fd (cl_log c) @ xs"
    using assms(3) by (simp add: moved_def talk_def)
  show "follow (phase_of fd c) xs = Some (phase_of fd ?c)"
    using assms(4,6) who ep by (auto simp: phase_of_def split: option.splits)
qed

lemma outcome_inv:
  assumes "client_inv fds c" "reported e (cl_epoll c)"
  shows "client_inv fds (outcome e c)"
proof -
  let ?fd = "ev_fd e"
  let ?u = "user_of ?fd c"
  obtain m where m: "cl_epoll c ?fd = Some m" "ev_in e \<longrightarrow> fst m" "ev_out e \<longrightarrow> snd m"
    using assms(2) by (auto simp: reported_def split: option.splits)
  have "fd_ok ?fd c"
    using assms(1) by (simp add: client_inv_def)
  then have u: "iSockFd ?u = ?fd" "interest_of (iUserStatus ?u) m"
    using m(1) by (auto simp: fd_ok_def)
  have ph: "phase_of ?fd c = (if iUserStatus ?u = SEND_OK then To_receive else To_send)"
    using m(1) by (simp add: phase_of_def)
  have out: "iUserStatus ?u \<noteq> SEND_OK" if "ev_out e"
    using that m(3) u(2) by (auto simp: interest_of_def)
  show ?thesis
    unfolding outcome_def Let_def
    using ph u(1) out by (auto intro!: moved_inv [OF assms(1) m(1)] simp: interest_of_def gone_def)
qed

text \<open>After the users of \<open>gs\<close> have been connected.\<close>

definition joined :: "int list \<Rightarrow> EpollClient \<Rightarrow> bool" where
  "joined gs c \<longleftrightarrow> cl_log c = [] \<and> dom (cl_epoll c) = set gs \<and> length gs \<le> length (m_pAllUserStatus c) \<and>
     (\<forall>k < length gs. cl_epoll c (gs ! k) = Some (True, True) \<and> m_iSockFd_UserId c (gs ! k) = int k \<and>
        iUserStatus (m_pAllUserStatus c ! k) = CONNECT_OK \<and> iSockFd (m_pAllUserStatus c ! k) = gs ! k)"

lemma connect_loop_joined:
  "good_fds (gs @ fds) \<Longrightarrow> joined gs c \<Longrightarrow> length (m_pAllUserStatus c) = length gs + length fds \<Longrightarrow>
   \<exists>c'. connect_loop (length gs) fds c = Some c' \<and> joined (gs @ fds) c'"
proof (induction fds arbitrary: gs c)
  case (Cons fd fds)
  let ?k = "length gs"
  let ?u = "(m_pAllUserStatus c ! ?k)\<lparr>iSockFd := fd, iUserStatus := CONNECT_OK\<rparr>"
  let ?c = "(set_user (int ?k) ?u c)\<lparr>m_iSockFd_UserId := (m_iSockFd_UserId c)(fd := int ?k), cl_epoll := (cl_epoll c)(fd \<mapsto> (True, True))\<rparr>"
  have fd: "0 < fd" "fd < MAX_SOCKFD_COUNT" "fd \<notin> set gs" "good_fds ((gs @ [fd]) @ fds)"
    using Cons.prems(1) by (auto simp: good_fds_def)
  have "connect_loop ?k (fd # fds) c = connect_loop (Suc ?k) fds ?c"
    using fd(1,2) Cons.prems(3) by (simp add: ConnectToServer_def get_user_def set_user_id_def set_user_def)
  moreover have "joined (gs @ [fd]) ?c"
    using Cons.prems(2,3) fd(3) by (auto simp: joined_def nth_append less_Suc_eq dest: nth_mem)
  ultimately show ?case
    using Cons.IH [of "gs @ [fd]" ?c] fd(4) Cons.prems(3) by simp
qed simp

lemma joined_inv:
  assumes "good_fds fds" "joined fds c"
  shows "client_inv fds c"
proof -
  have at: "get_user (m_iSockFd_UserId c fd) c = Some (user_of fd c)" "iSockFd (user_of fd c) = fd"
    "iUserStatus (user_of fd c) = CONNECT_OK" "cl_epoll c fd = Some (True, True)" if fd: "fd \<in> set fds" for fd
  proof -
    obtain k where "k < length fds" "fd = fds ! k"
      using fd by (auto simp: in_set_conv_nth)
    then show "get_user (m_iSockFd_UserId c fd) c = Some (user_of fd c)" "iSockFd (user_of fd c) = fd"
      "iUserStatus (user_of fd c) = CONNECT_OK" "cl_epoll c fd = Some (True, True)"
      using assms(2) by (auto simp: joined_def user_of_def get_user_def)
  qed
  have "fd_ok fd c" for fd
  proof (cases "fd \<in> set fds")
    case True
    then show ?thesis
      using at [OF True] assms(1) by (simp add: fd_ok_def interest_of_def good_fds_def)
  next
    case False
    then show ?thesis
      using assms(2) by (auto simp: fd_ok_def joined_def)
  qed
  then show ?thesis
    using at assms(2) by (simp add: client_inv_def joined_def phase_of_def)
qed

lemma client_starts: "good_fds fds \<Longrightarrow> \<exists>c. connect_loop 0 fds (client_new (length fds)) = Some c \<and> joined fds c"
  using connect_loop_joined [of "[]" fds "client_new (length fds)"] by (simp add: joined_def client_new_def)

lemma client_reach_inv:
  assumes "client_reach fds c" "good_fds fds"
  shows "client_inv fds c"
  using assms
proof (induction rule: client_reach.induct)
  case (client_start c)
  then have "joined fds c"
    using client_starts [of fds] by auto
  then show ?case
    using joined_inv client_start.prems by blast
next
  case (client_step c e c')
  then have inv: "client_inv fds c"
    by blast
  then have "client_event e c = Some (outcome e c)"
    using client_event_outcome [OF _ client_step.hyps(2)] by (simp add: client_inv_def)
  then show ?case
    using outcome_inv [OF inv client_step.hyps(2)] client_step.hyps(3) by simp
qed

section \<open>Client and server together\<close>

text \<open>A round on the connection that is \<open>fd\<close> in the client and \<open>sfd\<close> in the server: the client sends, the server receives, replies, and the client receives.\<close>

definition can_send :: "int \<Rightarrow> string \<Rightarrow> event" where
  "can_send fd t = \<lparr>ev_fd = fd, ev_in = False, ev_out = True, ev_send = int (length t) + 1, ev_recv = None\<rparr>"

definition can_recv :: "int \<Rightarrow> string \<Rightarrow> event" where
  "can_recv fd t = \<lparr>ev_fd = fd, ev_in = True, ev_out = False, ev_send = 0, ev_recv = Some (t @ [NUL])\<rparr>"

definition one_round :: "int \<Rightarrow> int \<Rightarrow> EpollClient \<times> EpollServer \<Rightarrow> (EpollClient \<times> EpollServer) option" where
  "one_round fd sfd = (\<lambda>(c, s). do {
     let t = cSendbuff (user_of fd c);
     c \<leftarrow> client_event (can_send fd t) c;
     s \<leftarrow> server_event (can_recv sfd t) s;
     s \<leftarrow> server_event (can_send sfd (server_reply sfd)) s;
     c \<leftarrow> client_event (can_recv fd (server_reply sfd)) c;
     Some (c, s)
   })"

fun rounds :: "nat \<Rightarrow> int \<Rightarrow> int \<Rightarrow> EpollClient \<times> EpollServer \<Rightarrow> (EpollClient \<times> EpollServer) option" where
  "rounds 0 fd sfd x = Some x"
| "rounds (Suc n) fd sfd x = Option.bind (one_round fd sfd x) (rounds n fd sfd)"

definition ready :: "int \<Rightarrow> int \<Rightarrow> string \<Rightarrow> EpollClient \<times> EpollServer \<Rightarrow> bool" where
  "ready fd sfd t = (\<lambda>(c, s). fd_ok fd c \<and> fd \<in> dom (cl_epoll c) \<and> iUserStatus (user_of fd c) \<noteq> SEND_OK \<and> cSendbuff (user_of fd c) = t \<and>
     sv_epoll s sfd = Some (True, False))"

lemma round_ready:
  assumes "ready fd sfd t (c, s)"
  shows "\<exists>c' s'. one_round fd sfd (c, s) = Some (c', s') \<and> ready fd sfd t (c', s') \<and>
    cl_log c' = cl_log c @ [Sent fd t, Received fd (server_reply sfd @ [NUL])] \<and>
    sv_log s' = sv_log s @ [Received sfd (t @ [NUL]), Sent sfd (server_reply sfd)]"
proof -
  let ?u = "user_of fd c" and ?i = "m_iSockFd_UserId c fd"
  obtain m where m: "cl_epoll c fd = Some m" and ok: "fd_ok fd c" and st: "iUserStatus ?u \<noteq> SEND_OK" and t: "cSendbuff ?u = t"
    and s: "sv_epoll s sfd = Some (True, False)"
    using assms by (auto simp: ready_def)
  have u: "iSockFd ?u = fd" "get_user ?i c = Some ?u" "snd m"
    using ok m st by (auto simp: fd_ok_def interest_of_def)
  let ?c1 = "moved fd (?u\<lparr>iUserStatus := SEND_OK\<rparr>) (Some (True, False)) ?i [Sent fd t] c"
  have c1: "client_event (can_send fd t) c = Some ?c1"
    using client_event_outcome [of "can_send fd t" c] ok m u(3) t by (simp add: can_send_def reported_def outcome_def)
  have ok1: "fd_ok fd ?c1" "user_of fd ?c1 = ?u\<lparr>iUserStatus := SEND_OK\<rparr>" "m_iSockFd_UserId ?c1 fd = ?i" "cl_epoll ?c1 fd = Some (True, False)"
    using moved_ok [OF ok m] user_of_moved [OF u(2)] u(1) by (simp_all add: interest_of_def) (simp_all add: moved_def)
  let ?c2 = "moved fd (?u\<lparr>iUserStatus := RECV_OK\<rparr>) (Some (False, True)) ?i [Received fd (server_reply sfd @ [NUL])] ?c1"
  have c2: "client_event (can_recv fd (server_reply sfd)) ?c1 = Some ?c2"
    using client_event_outcome [of "can_recv fd (server_reply sfd)" ?c1] ok1 by (simp add: can_recv_def reported_def outcome_def)
  have ok2: "fd_ok fd ?c2" "user_of fd ?c2 = ?u\<lparr>iUserStatus := RECV_OK\<rparr>" "cl_epoll ?c2 fd = Some (False, True)"
    using moved_ok [OF ok1(1,4), of "?u\<lparr>iUserStatus := RECV_OK\<rparr>" "(False, True)"] user_of_moved [of ?c1 fd] ok1(1,3,4) u(1)
    by (auto simp: interest_of_def fd_ok_def) (simp add: moved_def)
  let ?s = "s\<lparr>sv_epoll := (sv_epoll s)(sfd \<mapsto> (True, False)), sv_log := sv_log s @ [Received sfd (t @ [NUL]), Sent sfd (server_reply sfd)]\<rparr>"
  have "one_round fd sfd (c, s) = Some (?c2, ?s)"
    using c1 c2 t by (simp add: one_round_def server_event_def can_recv_def can_send_def)
  moreover have "ready fd sfd t (?c2, ?s)"
    using ok2 t by (auto simp: ready_def)
  moreover have "cl_log ?c2 = cl_log c @ [Sent fd t, Received fd (server_reply sfd @ [NUL])]"
    by (simp add: moved_def)
  ultimately show ?thesis
    by auto
qed

lemma InitServer_never_true: "InitServer nonblocking opened bound listening started \<noteq> Some True"
  by (simp add: InitServer_def)

section \<open>Properties\<close>



text \<open>
  Edge and level triggered reading do the same for a connection whose stream goes on: what \<^verbatim>\<open>lt\<close> does in one event for each text, \<^verbatim>\<open>et\<close> does in one event. At the
  end of a stream \<^verbatim>\<open>et\<close>, which does not leave its loop, closes the descriptor a second time.
\<close>

definition chunk_event :: "int \<Rightarrow> recv list \<Rightarrow> socket_event" where
  "chunk_event fd rs = \<lparr>se_fd = fd, se_in = True, se_accept = -1, se_recv = rs\<rparr>"

lemma et_read_chunks: "et_read fd (map Chunk ts @ rs) s = et_read fd rs (fold (got fd) ts s)"
  by (induction ts arbitrary: s) auto

lemma lt_chunks: "fd \<noteq> listenfd \<Longrightarrow> lt (map (\<lambda>t. chunk_event fd [Chunk t]) ts @ es) listenfd s = lt es listenfd (fold (got fd) ts s)"
  by (induction ts arbitrary: s) (auto simp: chunk_event_def)

lemma fold_got: "fold (got fd) ts s = s\<lparr>le_log := le_log s @ map (Received fd) ts\<rparr>"
  by (induction ts arbitrary: s) (auto simp: got_def)

lemma lt_et:
  assumes "fd \<noteq> listenfd"
  shows "et [chunk_event fd (map Chunk ts @ [Try_again])] listenfd s = lt (map (\<lambda>t. chunk_event fd [Chunk t]) ts) listenfd s"
    and "le_log (lt (map (\<lambda>t. chunk_event fd [Chunk t]) ts @ [chunk_event fd [End_of_stream]]) listenfd s) = le_log s @ map (Received fd) ts @ [Closed fd]"
    and "le_log (et [chunk_event fd (map Chunk ts @ [End_of_stream, Recv_failed])] listenfd s) = le_log s @ map (Received fd) ts @ [Closed fd, Closed fd]"
  using assms lt_chunks [OF assms, of ts "[]" s]
  by (simp_all add: lt_chunks et_read_chunks fold_got close_fd_def) (simp_all add: chunk_event_def et_read_chunks fold_got close_fd_def)



end
