(* ===== verification/One_Shot.thy ===== *)
theory One_Shot
  imports Epoll
begin

text \<open>
  The program \<^verbatim>\<open>lib/epoll/test_epolloneshot.c\<close>: a thread for every event, and sockets registered with \<^verbatim>\<open>EPOLLONESHOT\<close> to keep two threads from
  reading the same one. The thread of \<^verbatim>\<open>main\<close> and the workers run interleaved; a step is what a thread does between two accesses to what is
  shared: the interest list of the kernel, and the variable \<^verbatim>\<open>fds_for_new_worker\<close>, whose address every worker is given. Its block is left before a
  worker may have read it; the model takes the storage to stay in place, as compilers do.
\<close>

section \<open>The program\<close>

text \<open>
  The file has its own type \<^verbatim>\<open>bool\<close>, with \<^verbatim>\<open>true\<close> 1 and \<^verbatim>\<open>false\<close> 2. The value of \<^verbatim>\<open>false\<close> is a parameter \<open>fls\<close>: 2 as written, 0 as meant.
\<close>

definition true_value :: int where "true_value = 1"

definition false_value :: int where "false_value = 2"

text \<open>A worker: given the descriptor in the variable of \<^verbatim>\<open>main\<close>, serving a descriptor, or at its end.\<close>

datatype oneshot_thread = Starting int | Reading int | Ended

text \<open>
  The interest list has, for a registered descriptor, whether it is one-shot and whether it is armed. \<open>os_todo\<close> is what the last \<^verbatim>\<open>epoll_wait\<close> has given
  and the loop has not come to yet, with the flag \<^verbatim>\<open>EPOLLIN\<close>. \<open>os_conns\<close> records the accepted connections, \<open>os_sockfd\<close> is the variable.
\<close>

record oneshot =
  os_epoll :: "int \<rightharpoonup> bool \<times> bool"
  os_todo :: "(int \<times> bool) list"
  os_sockfd :: int
  os_threads :: "oneshot_thread list"
  os_conns :: "int list"

definition addfd_oneshot :: "int \<Rightarrow> int \<Rightarrow> oneshot \<Rightarrow> oneshot" where
  "addfd_oneshot fd flag s =
     (if fd < 0 \<or> fd \<in> dom (os_epoll s) then s else s\<lparr>os_epoll := (os_epoll s)(fd \<mapsto> (flag \<noteq> 0, True))\<rparr>)"

definition reset_oneshot :: "int \<Rightarrow> oneshot \<Rightarrow> oneshot" where
  "reset_oneshot fd s = (if fd \<in> dom (os_epoll s) then s\<lparr>os_epoll := (os_epoll s)(fd \<mapsto> (True, True))\<rparr> else s)"

text \<open>The start of a worker, which reads the variable, and a turn of its loop.\<close>

definition worker_start :: "nat \<Rightarrow> oneshot \<Rightarrow> oneshot" where
  "worker_start i s = s\<lparr>os_threads := (os_threads s)[i := Reading (os_sockfd s)]\<rparr>"

fun worker :: "nat \<Rightarrow> int \<Rightarrow> recv \<Rightarrow> oneshot \<Rightarrow> oneshot" where
  "worker i fd End_of_stream s = s\<lparr>os_epoll := (os_epoll s)(fd := None), os_threads := (os_threads s)[i := Ended]\<rparr>"
| "worker i fd Try_again s = (reset_oneshot fd s)\<lparr>os_threads := (os_threads s)[i := Ended]\<rparr>"
| "worker i fd Recv_failed s = s"
| "worker i fd (Chunk t) s = s"

text \<open>An event in the loop of \<^verbatim>\<open>main\<close>. \<open>c\<close> is what \<^verbatim>\<open>accept\<close> gives.\<close>

definition main_event :: "int \<Rightarrow> int \<Rightarrow> int \<times> bool \<Rightarrow> oneshot \<Rightarrow> oneshot" where
  "main_event listenfd c = (\<lambda>(fd, epollin) s.
     if fd = listenfd then (addfd_oneshot c true_value s)\<lparr>os_conns := (if c < 0 then os_conns s else os_conns s @ [c])\<rparr>
     else if epollin then s\<lparr>os_sockfd := fd, os_threads := os_threads s @ [Starting fd]\<rparr>
     else s)"

text \<open>\<^verbatim>\<open>epoll_wait\<close> gives armed descriptors and disarms those of them that are one-shot.\<close>

definition disarm :: "int list \<Rightarrow> (int \<rightharpoonup> bool \<times> bool) \<Rightarrow> (int \<rightharpoonup> bool \<times> bool)" where
  "disarm fds ep = (\<lambda>fd. case ep fd of Some (True, a) \<Rightarrow> Some (True, a \<and> fd \<notin> set fds) | x \<Rightarrow> x)"

definition armed :: "int \<Rightarrow> oneshot \<Rightarrow> bool" where
  "armed fd s = (case os_epoll s fd of Some (_, a) \<Rightarrow> a | None \<Rightarrow> False)"

definition oneshot_start :: "int \<Rightarrow> int \<Rightarrow> oneshot" where
  "oneshot_start fls listenfd =
     addfd_oneshot listenfd fls \<lparr>os_epoll = Map.empty, os_todo = [], os_sockfd = -1, os_threads = [], os_conns = []\<rparr>"

text \<open>
  The interleaved steps. A descriptor that \<^verbatim>\<open>accept\<close> gives is negative, for an error, or was closed; so it is not registered.
\<close>

inductive oneshot_step :: "int \<Rightarrow> oneshot \<Rightarrow> oneshot \<Rightarrow> bool" for listenfd where
  step_wait: "os_todo s = [] \<Longrightarrow> distinct (map fst es) \<Longrightarrow> list_all (\<lambda>e. armed (fst e) s) es \<Longrightarrow>
    oneshot_step listenfd s (s\<lparr>os_epoll := disarm (map fst es) (os_epoll s), os_todo := es\<rparr>)"
| step_event: "os_todo s = e # es \<Longrightarrow> c < 0 \<or> c \<notin> dom (os_epoll s) \<Longrightarrow> oneshot_step listenfd s (main_event listenfd c e (s\<lparr>os_todo := es\<rparr>))"
| step_start: "i < length (os_threads s) \<Longrightarrow> os_threads s ! i = Starting fd \<Longrightarrow> oneshot_step listenfd s (worker_start i s)"
| step_recv: "i < length (os_threads s) \<Longrightarrow> os_threads s ! i = Reading fd \<Longrightarrow> oneshot_step listenfd s (worker i fd r s)"

inductive oneshot_reach :: "int \<Rightarrow> int \<Rightarrow> oneshot \<Rightarrow> bool" for fls listenfd where
  reach_start: "oneshot_reach fls listenfd (oneshot_start fls listenfd)"
| reach_step: "oneshot_reach fls listenfd s \<Longrightarrow> oneshot_step listenfd s s' \<Longrightarrow> oneshot_reach fls listenfd s'"

section \<open>One thread for a descriptor\<close>

definition serves_fd :: "int \<Rightarrow> oneshot_thread \<Rightarrow> bool" where
  "serves_fd fd t \<longleftrightarrow> t = Starting fd \<or> t = Reading fd"

text \<open>Who has a descriptor in hand: the kernel, when it is armed, the loop of \<^verbatim>\<open>main\<close>, or a worker.\<close>

definition holders :: "int \<Rightarrow> oneshot \<Rightarrow> nat" where
  "holders fd s = (if armed fd s then 1 else 0) + length (filter (\<lambda>e. fst e = fd) (os_todo s)) + length (filter (serves_fd fd) (os_threads s))"

text \<open>
  As written: the listening socket is one-shot and reported once, so there is one connection at most, and the variable, once set, always has its descriptor.
\<close>

definition oneshot_inv :: "int \<Rightarrow> oneshot \<Rightarrow> bool" where
  "oneshot_inv l s \<longleftrightarrow>
     (\<forall>fd. holders fd s \<le> 1) \<and>
     holders l s + length (os_conns s) \<le> 1 \<and>
     (\<forall>fd a. os_epoll s fd \<noteq> Some (False, a)) \<and> dom (os_epoll s) \<subseteq> insert l (set (os_conns s)) \<and>
     (\<forall>e \<in> set (os_todo s). fst e = l \<or> fst e \<in> set (os_conns s)) \<and>
     l \<in> dom (os_epoll s) \<and> l \<notin> set (os_conns s) \<and>
     (\<forall>fd. Starting fd \<in> set (os_threads s) \<longrightarrow> os_sockfd s = fd) \<and>
     (\<forall>fd. Starting fd \<in> set (os_threads s) \<or> Reading fd \<in> set (os_threads s) \<longrightarrow> fd \<in> set (os_conns s))"

lemma filter_upd:
  "i < length ts \<Longrightarrow> length (filter P (ts[i := t])) + (if P (ts ! i) then 1 else 0) = length (filter P ts) + (if P t then 1 else (0 :: nat))"
proof (induction ts arbitrary: i)
  case (Cons x ts)
  then show ?case
    by (cases i) (auto split: if_splits)
qed simp

lemma filter_fst_le: "distinct (map fst es) \<Longrightarrow> length (filter (\<lambda>e. fst e = fd) es) = (if fd \<in> set (map fst es) then 1 else 0)"
  by (induction es) auto

lemma holders_0: "holders fd s = 0 \<longleftrightarrow>
    \<not> armed fd s \<and> fd \<notin> set (map fst (os_todo s)) \<and> Starting fd \<notin> set (os_threads s) \<and> Reading fd \<notin> set (os_threads s)"
  by (auto simp: holders_def filter_empty_conv serves_fd_def)

lemma serves_fd_simps [simp]: "serves_fd fd (Starting a) \<longleftrightarrow> a = fd" "serves_fd fd (Reading a) \<longleftrightarrow> a = fd" "\<not> serves_fd fd Ended"
  by (auto simp: serves_fd_def)

lemma armed_simps [simp]:
  "armed fd (s\<lparr>os_todo := es\<rparr>) = armed fd s" "armed fd (s\<lparr>os_threads := ts\<rparr>) = armed fd s"
  "armed fd (s\<lparr>os_conns := cs\<rparr>) = armed fd s" "armed fd (s\<lparr>os_sockfd := x\<rparr>) = armed fd s"
  by (simp_all add: armed_def)

lemma holders_conns [simp]: "holders fd (s\<lparr>os_conns := cs\<rparr>) = holders fd s"
  by (simp add: holders_def)

lemma holders_wait:
  assumes "os_todo s = []" "distinct (map fst es)" "list_all (\<lambda>e. armed (fst e) s) es" "\<forall>fd a. os_epoll s fd \<noteq> Some (False, a)"
  shows "holders fd (s\<lparr>os_epoll := disarm (map fst es) (os_epoll s), os_todo := es\<rparr>) = holders fd s"
proof -
  have "armed fd (s\<lparr>os_epoll := disarm (map fst es) (os_epoll s), os_todo := es\<rparr>) \<longleftrightarrow> armed fd s \<and> fd \<notin> set (map fst es)"
  proof (cases "os_epoll s fd")
    case (Some x)
    then show ?thesis
      using assms(4) by (cases x) (auto simp: armed_def disarm_def split: bool.splits)
  qed (simp add: armed_def disarm_def)
  moreover have "fd \<in> set (map fst es) \<Longrightarrow> armed fd s"
    using assms(3) by (auto simp: list_all_iff)
  ultimately show ?thesis
    using assms(1) filter_fst_le [OF assms(2), of fd] by (auto simp: holders_def)
qed

lemma holders_event:
  assumes "os_todo s = e # es" "fst e \<noteq> l"
  shows "holders fd (main_event l c e (s\<lparr>os_todo := es\<rparr>)) \<le> holders fd s"
  using assms by (cases e) (auto simp: holders_def main_event_def)

lemma holders_accept:
  assumes "os_todo s = e # es" "fst e = l" "c < 0 \<or> c \<notin> dom (os_epoll s)"
  shows "holders fd (main_event l c e (s\<lparr>os_todo := es\<rparr>)) = holders fd s - (if fd = l then 1 else 0) + (if fd = c \<and> 0 \<le> c then 1 else 0)"
  using assms by (cases e) (auto simp: holders_def main_event_def addfd_oneshot_def armed_def split: option.splits)

lemma holders_start:
  assumes "i < length (os_threads s)" "os_threads s ! i = Starting (os_sockfd s)"
  shows "holders fd (worker_start i s) = holders fd s"
  using filter_upd [OF assms(1), of "serves_fd fd" "Reading (os_sockfd s)"] assms(2) by (auto simp: holders_def worker_start_def split: if_splits)

lemma holders_recv:
  assumes "i < length (os_threads s)" "os_threads s ! i = Reading a"
  shows "holders fd (worker i a r s) \<le> holders fd s"
  using filter_upd [OF assms(1), of "serves_fd fd" Ended] assms(2)
  by (cases r) (auto simp: holders_def reset_oneshot_def armed_def split: if_splits)

lemma disarm_dom [simp]: "dom (disarm fds ep) = dom ep"
  by (auto simp: disarm_def split: option.splits bool.splits)

lemma disarm_False [simp]: "disarm fds ep fd = Some (False, a) \<longleftrightarrow> ep fd = Some (False, a)"
  by (auto simp: disarm_def split: option.splits bool.splits)

lemma armed_dom: "armed fd s \<Longrightarrow> fd \<in> dom (os_epoll s)"
  by (auto simp: armed_def split: option.splits)

lemma inv_wait:
  assumes "oneshot_inv l s" "os_todo s = []" "distinct (map fst es)" "list_all (\<lambda>e. armed (fst e) s) es"
  shows "oneshot_inv l (s\<lparr>os_epoll := disarm (map fst es) (os_epoll s), os_todo := es\<rparr>)"
proof -
  have "\<forall>e \<in> set es. fst e = l \<or> fst e \<in> set (os_conns s)"
    using assms(1,4) armed_dom unfolding oneshot_inv_def list_all_iff by blast
  then show ?thesis
    using assms(1) holders_wait [OF assms(2-4)] by (simp add: oneshot_inv_def)
qed

lemma inv_accept:
  assumes "oneshot_inv l s" "os_todo s = e # es" "fst e = l" "c < 0 \<or> c \<notin> dom (os_epoll s)"
  shows "oneshot_inv l (main_event l c e (s\<lparr>os_todo := es\<rparr>))"
proof -
  have h: "holders l s = 1" and c: "os_conns s = []"
    using assms(1-3) by (auto simp: oneshot_inv_def holders_def split: if_splits)
  then have t: "Starting fd \<notin> set (os_threads s)" "Reading fd \<notin> set (os_threads s)" for fd
    using assms(1) by (auto simp: oneshot_inv_def)
  have none: "holders fd s = 0" if "fd \<noteq> l" for fd
  proof -
    have "dom (os_epoll s) \<subseteq> {l}"
      using assms(1) c by (simp add: oneshot_inv_def)
    then have "\<not> armed fd s"
      using armed_dom that by blast
    then show ?thesis
      using assms(1) c t that by (auto simp: holders_0 oneshot_inv_def)
  qed
  have "0 \<le> c \<Longrightarrow> c \<noteq> l"
    using assms(1,4) by (auto simp: oneshot_inv_def)
  then show ?thesis
    using assms c t h none holders_accept [OF assms(2-4)]
    by (cases e) (auto simp: oneshot_inv_def main_event_def addfd_oneshot_def true_value_def)
qed

lemma inv_event:
  assumes "oneshot_inv l s" "os_todo s = e # es" "fst e \<noteq> l"
  shows "oneshot_inv l (main_event l c e (s\<lparr>os_todo := es\<rparr>))"
proof -
  have "fst e \<in> set (os_conns s)" "length (os_conns s) \<le> 1"
    using assms by (auto simp: oneshot_inv_def)
  then have c: "os_conns s = [fst e]"
    by (cases "os_conns s") auto
  then have "holders l s = 0"
    using assms(1) by (auto simp: oneshot_inv_def)
  then have "holders l (main_event l c e (s\<lparr>os_todo := es\<rparr>)) = 0"
    using holders_event [OF assms(2,3), of l c] by simp
  moreover have "\<forall>fd. holders fd (main_event l c e (s\<lparr>os_todo := es\<rparr>)) \<le> 1"
    using holders_event [OF assms(2,3)] assms(1) unfolding oneshot_inv_def by (meson order_trans)
  ultimately show ?thesis
    using assms c by (cases e) (auto simp: oneshot_inv_def main_event_def)
qed

lemma inv_start:
  assumes "oneshot_inv l s" "i < length (os_threads s)" "os_threads s ! i = Starting fd"
  shows "oneshot_inv l (worker_start i s)"
proof -
  have th: "Starting fd \<in> set (os_threads s)"
    using assms(2,3) nth_mem by metis
  then have fd: "os_sockfd s = fd" "fd \<in> set (os_conns s)"
    using assms(1) unfolding oneshot_inv_def by blast+
  have "set ((os_threads s)[i := Reading fd]) \<subseteq> insert (Reading fd) (set (os_threads s))"
    by (rule set_update_subset_insert)
  then have "Starting a \<in> set ((os_threads s)[i := Reading fd]) \<Longrightarrow> Starting a \<in> set (os_threads s)"
    "Reading a \<in> set ((os_threads s)[i := Reading fd]) \<Longrightarrow> Reading a \<in> set (os_threads s) \<or> a = fd" for a
    by auto
  moreover have "holders a (worker_start i s) = holders a s" for a
    using holders_start [OF assms(2)] assms(3) fd(1) by simp
  ultimately show ?thesis
    using assms(1) fd unfolding oneshot_inv_def by (simp add: worker_start_def) blast
qed

lemma inv_kept:
  assumes "oneshot_inv l s" "os_conns s' = os_conns s" "os_todo s' = os_todo s" "os_sockfd s' = os_sockfd s" "\<And>a. holders a s' \<le> holders a s"
    "dom (os_epoll s') \<subseteq> dom (os_epoll s)" "l \<in> dom (os_epoll s')" "\<And>fd a. os_epoll s' fd \<noteq> Some (False, a)"
    "set (os_threads s') \<subseteq> insert Ended (set (os_threads s))"
  shows "oneshot_inv l s'"
proof -
  have "\<forall>a. holders a s' \<le> 1" "holders l s' + length (os_conns s) \<le> 1"
    using assms(1,5) unfolding oneshot_inv_def by (meson order_trans add_le_mono1)+
  moreover have "Starting a \<in> set (os_threads s') \<Longrightarrow> Starting a \<in> set (os_threads s)"
    "Reading a \<in> set (os_threads s') \<Longrightarrow> Reading a \<in> set (os_threads s)" for a
    using assms(9) by auto
  moreover have "dom (os_epoll s') \<subseteq> insert l (set (os_conns s))" "l \<notin> set (os_conns s)"
    "\<And>e. e \<in> set (os_todo s) \<Longrightarrow> fst e = l \<or> fst e \<in> set (os_conns s)"
    "\<And>fd. Starting fd \<in> set (os_threads s) \<Longrightarrow> os_sockfd s = fd \<and> fd \<in> set (os_conns s)"
    "\<And>fd. Reading fd \<in> set (os_threads s) \<Longrightarrow> fd \<in> set (os_conns s)"
    using assms(1,6) unfolding oneshot_inv_def by blast+
  ultimately show ?thesis
    using assms(7,8) unfolding oneshot_inv_def assms(2-4) by blast
qed

lemma inv_recv:
  assumes "oneshot_inv l s" "i < length (os_threads s)" "os_threads s ! i = Reading fd"
  shows "oneshot_inv l (worker i fd r s)"
proof -
  have "Reading fd \<in> set (os_threads s)"
    using assms(2,3) nth_mem by metis
  then have fd: "fd \<noteq> l" "l \<in> dom (os_epoll s)" "\<And>fd a. os_epoll s fd \<noteq> Some (False, a)"
    using assms(1) unfolding oneshot_inv_def by blast+
  show ?thesis
  proof (rule inv_kept [OF assms(1)])
    show "holders a (worker i fd r s) \<le> holders a s" for a
      using holders_recv [OF assms(2,3)] .
    show "set (os_threads (worker i fd r s)) \<subseteq> insert Ended (set (os_threads s))"
      by (cases r) (auto simp: set_update_subset_insert)
  qed (use fd in \<open>cases r; auto simp: reset_oneshot_def split: if_splits\<close>)+
qed

lemma oneshot_start_inv: "fls \<noteq> 0 \<Longrightarrow> 0 \<le> l \<Longrightarrow> oneshot_inv l (oneshot_start fls l)"
  by (auto simp: oneshot_start_def addfd_oneshot_def oneshot_inv_def holders_def armed_def)

lemma oneshot_reach_inv:
  assumes "oneshot_reach fls l s" "fls \<noteq> 0" "0 \<le> l"
  shows "oneshot_inv l s"
  using assms
proof (induction rule: oneshot_reach.induct)
  case (reach_step s s')
  then have inv: "oneshot_inv l s"
    by simp
  from reach_step(2) show ?case
  proof cases
    case (step_wait es)
    then show ?thesis
      using inv_wait [OF inv] by simp
  next
    case (step_event e es c)
    then show ?thesis
      using inv_accept [OF inv] inv_event [OF inv] by (cases "fst e = l") auto
  next
    case (step_start i fd)
    then show ?thesis
      using inv_start [OF inv] by simp
  next
    case (step_recv i fd r)
    then show ?thesis
      using inv_recv [OF inv] by simp
  qed
qed (simp add: oneshot_start_inv)

section \<open>Properties\<close>

text \<open>With \<^verbatim>\<open>false\<close> as meant: two connections, and an event on each of them in one \<^verbatim>\<open>epoll_wait\<close>.\<close>

lemma oneshot_race: "\<exists>s. oneshot_reach 0 3 s \<and> os_threads s = [Reading 5, Reading 5]"
proof -
  let ?ep = "[3 \<mapsto> (False, True)]"
  have "oneshot_reach 0 3 \<lparr>os_epoll = ?ep, os_todo = [], os_sockfd = -1, os_threads = [], os_conns = []\<rparr>"
    using reach_start [of 0 3] by (simp add: oneshot_start_def addfd_oneshot_def)
  note w = this
  have accept: "oneshot_reach 0 3 (s\<lparr>os_todo := [], os_epoll := (os_epoll s)(c \<mapsto> (True, True)), os_conns := os_conns s @ [c]\<rparr>)"
    if r: "oneshot_reach 0 3 s" and s: "os_todo s = []" "os_epoll s 3 = Some (False, True)" "c \<notin> dom (os_epoll s)" "0 \<le> c" for s c
  proof -
    have "disarm [3] (os_epoll s) = os_epoll s"
      using s(2) by (auto simp: disarm_def fun_eq_iff split: option.splits bool.splits)
    then have "oneshot_reach 0 3 (s\<lparr>os_todo := [(3, True)]\<rparr>)"
      using reach_step [OF r step_wait [of s "[(3, True)]" 3]] s by (simp add: armed_def)
    from reach_step [OF this step_event [of _ "(3, True)" "[]" c 3]] show ?thesis
      using s by (simp add: main_event_def addfd_oneshot_def true_value_def)
  qed
  have "oneshot_reach 0 3 \<lparr>os_epoll = ?ep(4 \<mapsto> (True, True), 5 \<mapsto> (True, True)), os_todo = [], os_sockfd = -1, os_threads = [], os_conns = [4, 5]\<rparr>"
    using accept [OF accept [OF w, of 4], of 5] by simp
  from reach_step [OF this step_wait [of _ "[(4, True), (5, True)]" 3]]
  have "\<exists>ep. oneshot_reach 0 3 \<lparr>os_epoll = ep, os_todo = [(4, True), (5, True)], os_sockfd = -1, os_threads = [], os_conns = [4, 5]\<rparr>"
    by (auto simp: armed_def)
  then obtain ep where "oneshot_reach 0 3 \<lparr>os_epoll = ep, os_todo = [(4, True), (5, True)], os_sockfd = -1, os_threads = [], os_conns = [4, 5]\<rparr>"
    by blast
  from reach_step [OF this step_event [of _ "(4, True)" "[(5, True)]" "-1" 3]]
  have "oneshot_reach 0 3 \<lparr>os_epoll = ep, os_todo = [(5, True)], os_sockfd = 4, os_threads = [Starting 4], os_conns = [4, 5]\<rparr>"
    by (simp add: main_event_def)
  from reach_step [OF this step_event [of _ "(5, True)" "[]" "-1" 3]]
  have "oneshot_reach 0 3 \<lparr>os_epoll = ep, os_todo = [], os_sockfd = 5, os_threads = [Starting 4, Starting 5], os_conns = [4, 5]\<rparr>"
    by (simp add: main_event_def)
  from reach_step [OF this step_start [of 0 _ 4 3]]
  have "oneshot_reach 0 3 \<lparr>os_epoll = ep, os_todo = [], os_sockfd = 5, os_threads = [Reading 5, Starting 5], os_conns = [4, 5]\<rparr>"
    by (simp add: worker_start_def)
  from reach_step [OF this step_start [of 1 _ 5 3]] show ?thesis
    by (auto simp: worker_start_def)
qed

text \<open>
  C18: As written, where \<^verbatim>\<open>false\<close> is 2, the listening socket is registered as one-shot, too: under every interleaving the server accepts at most one connection, and
  never do two threads serve it, nor does one serve it while the kernel may report it. With \<^verbatim>\<open>false\<close> as meant it accepts more, and then the variable that all threads
  share gives two threads the same socket, and none the other.
\<close>

theorem oneshot_listens_once:
  "(\<forall>l s. 0 \<le> l \<and> oneshot_reach false_value l s \<longrightarrow>
     length (os_conns s) \<le> 1 \<and> (\<forall>fd. length (filter (serves_fd fd) (os_threads s)) + (if armed fd s then 1 else 0) \<le> 1)) \<and>
   (\<exists>s. oneshot_reach 0 3 s \<and> os_threads s = [Reading 5, Reading 5])"
proof (intro conjI allI impI oneshot_race)
  fix l s
  assume "0 \<le> l \<and> oneshot_reach false_value l s"
  then have inv: "oneshot_inv l s"
    using oneshot_reach_inv [of false_value l s] by (simp add: false_value_def)
  then show "length (os_conns s) \<le> 1"
    by (simp add: oneshot_inv_def)
  show "length (filter (serves_fd fd) (os_threads s)) + (if armed fd s then 1 else 0) \<le> 1" for fd
    using inv by (auto simp: oneshot_inv_def holders_def dest: spec [of _ fd])
qed

theorem oneshot_listens_once_witness:
  "oneshot_reach false_value 3 (oneshot_start false_value 3) \<and> length (os_conns (oneshot_start false_value 3)) \<le> 1"
  using conjunct1 [OF oneshot_listens_once] reach_start [of false_value 3] by (meson zero_le_numeral)

end
