(* ===== verification/Curl_Epoll.thy ===== *)
theory Curl_Epoll
  imports Main
begin

text \<open>
  The program \<^verbatim>\<open>lib/libcurl/curl_epoll.c\<close>: a transfer driven by the socket interface of libcurl, with \<^verbatim>\<open>epoll\<close> or \<^verbatim>\<open>poll\<close>. libcurl is not part of the repository: what it
  does in a call, the callbacks that it makes and the number of transfers that are left, is input. \<^const>\<open>None\<close> is \<^verbatim>\<open>exit(1)\<close>.
\<close>

section \<open>The program\<close>

datatype curl_action = POLL_NONE | POLL_IN | POLL_OUT | POLL_INOUT | POLL_REMOVE

text \<open>
  The globals, \<^verbatim>\<open>pollfd\<close> with the events asked for (input, output), and the interest list of \<^verbatim>\<open>epollFd\<close>. \<open>ce_waits\<close> records the calls of \<^verbatim>\<open>epoll_wait\<close> and
  \<^verbatim>\<open>poll\<close>: the descriptors that are watched, and the time.
\<close>

record curl_epoll =
  ce_interest :: "int \<rightharpoonup> bool \<times> bool"
  ce_pollfd :: "int \<times> bool \<times> bool"
  ce_timeout :: int
  ce_waits :: "((int \<rightharpoonup> bool \<times> bool) \<times> int) list"

definition asks_in :: "curl_action \<Rightarrow> bool" where
  "asks_in action \<longleftrightarrow> action = POLL_IN \<or> action = POLL_INOUT"

definition asks_out :: "curl_action \<Rightarrow> bool" where
  "asks_out action \<longleftrightarrow> action = POLL_OUT \<or> action = POLL_INOUT"

text \<open>
  \<open>is_open\<close> tells whether the descriptor is open. \<^verbatim>\<open>epoll_ctl\<close> fails with \<^verbatim>\<open>EBADF\<close> on one that is not; closing has taken it from the list. On an open one
  \<^verbatim>\<open>EPOLL_CTL_ADD\<close> fails when it is in the list, \<^verbatim>\<open>EPOLL_CTL_MOD\<close> and \<^verbatim>\<open>EPOLL_CTL_DEL\<close> when it is not.
\<close>

definition socketCallback :: "int \<Rightarrow> bool \<Rightarrow> curl_action \<Rightarrow> curl_epoll \<Rightarrow> curl_epoll option" where
  "socketCallback fd is_open action s =
     (if action = POLL_REMOVE then
        (let s = s\<lparr>ce_pollfd := (-1, False, False)\<rparr> in
         if \<not> is_open then Some (s\<lparr>ce_interest := (ce_interest s)(fd := None)\<rparr>)
         else if ce_interest s fd = None then None
         else Some (s\<lparr>ce_interest := (ce_interest s)(fd := None)\<rparr>))
      else
        let ev = (asks_in action, asks_out action); s = s\<lparr>ce_pollfd := (fd, ev)\<rparr> in
        if ev \<noteq> (False, False) then
          (if is_open then Some (s\<lparr>ce_interest := (ce_interest s)(fd \<mapsto> ev)\<rparr>) else None)
        else Some s)"

definition timerCallback :: "int \<Rightarrow> curl_epoll \<Rightarrow> curl_epoll" where
  "timerCallback timeout_ms s = s\<lparr>ce_timeout := timeout_ms\<rparr>"

text \<open>What libcurl does in a call: the callbacks.\<close>

datatype curl_call = Socket int bool curl_action | Timer int

fun callbacks :: "curl_call list \<Rightarrow> curl_epoll \<Rightarrow> curl_epoll option" where
  "callbacks [] s = Some s"
| "callbacks (Socket fd is_open action # cs) s = Option.bind (socketCallback fd is_open action s) (callbacks cs)"
| "callbacks (Timer ms # cs) s = callbacks cs (timerCallback ms s)"

text \<open>What is watched by \<^verbatim>\<open>poll\<close>: \<^verbatim>\<open>pollfd\<close>, when it is set.\<close>

definition curl_polled :: "curl_epoll \<Rightarrow> (int \<rightharpoonup> bool \<times> bool)" where
  "curl_polled s = (case ce_pollfd s of (fd, ev) \<Rightarrow> if fd \<noteq> -1 then [fd \<mapsto> ev] else Map.empty)"

text \<open>
  A turn of the loop of \<^verbatim>\<open>main\<close>: whether the wait fails, and what libcurl does in \<^verbatim>\<open>curl_multi_socket_action\<close>, with the number of transfers left. The loop ends
  when there is none.
\<close>

fun curl_loop :: "bool \<Rightarrow> nat \<Rightarrow> (bool \<times> curl_call list \<times> nat) list \<Rightarrow> curl_epoll \<Rightarrow> curl_epoll option" where
  "curl_loop usePoll running [] s = Some s"
| "curl_loop usePoll running ((failed, cs, left) # ts) s =
     (if running = 0 then Some s
      else
        let s = s\<lparr>ce_waits := ce_waits s @ [(if usePoll then curl_polled s else ce_interest s, ce_timeout s)]\<rparr> in
        if failed then None
        else Option.bind (callbacks cs s) (curl_loop usePoll left ts))"

text \<open>\<open>cs\<close> are the callbacks of \<^verbatim>\<open>curl_multi_add_handle\<close>.\<close>

definition curl_main :: "bool \<Rightarrow> curl_call list \<Rightarrow> (bool \<times> curl_call list \<times> nat) list \<Rightarrow> curl_epoll option" where
  "curl_main usePoll cs ts =
     Option.bind (callbacks cs \<lparr>ce_interest = Map.empty, ce_pollfd = (-1, False, False), ce_timeout = -1, ce_waits = []\<rparr>) (curl_loop usePoll 1 ts)"

section \<open>What libcurl asks for\<close>

text \<open>
  The contract of the socket interface: for each descriptor the last action tells what to wait for, until it is removed, and the last timer the time to wait.
\<close>

fun events_of :: "curl_action \<Rightarrow> bool \<times> bool" where
  "events_of POLL_IN = (True, False)"
| "events_of POLL_OUT = (False, True)"
| "events_of POLL_INOUT = (True, True)"
| "events_of _ = (False, False)"

fun wanted :: "curl_call list \<Rightarrow> (int \<rightharpoonup> bool \<times> bool) \<times> int \<Rightarrow> (int \<rightharpoonup> bool \<times> bool) \<times> int" where
  "wanted [] w = w"
| "wanted (Socket fd _ action # cs) (m, t) =
     wanted cs (if action = POLL_REMOVE then m(fd := None) else m(fd \<mapsto> events_of action), t)"
| "wanted (Timer ms # cs) (m, t) = wanted cs (m, ms)"

text \<open>
  libcurl asks for input, output or both of an open descriptor, and removes only descriptors that it has asked for.
\<close>

fun curl_ok :: "curl_call list \<Rightarrow> (int \<rightharpoonup> bool \<times> bool) \<Rightarrow> bool" where
  "curl_ok [] m \<longleftrightarrow> True"
| "curl_ok (Socket fd is_open action # cs) m \<longleftrightarrow>
     (if action = POLL_REMOVE then fd \<in> dom m \<and> curl_ok cs (m(fd := None))
      else is_open \<and> action \<noteq> POLL_NONE \<and> curl_ok cs (m(fd \<mapsto> events_of action)))"
| "curl_ok (Timer _ # cs) m \<longleftrightarrow> curl_ok cs m"

lemma asked_events: "(asks_in action, asks_out action) = events_of action"
  by (cases action) (auto simp: asks_in_def asks_out_def)

lemma asks_something: "action \<noteq> POLL_REMOVE \<Longrightarrow> action \<noteq> POLL_NONE \<Longrightarrow> events_of action \<noteq> (False, False)"
  by (cases action) auto

lemma socketCallback_wanted:
  assumes "if action = POLL_REMOVE then fd \<in> dom (ce_interest s) else is_open \<and> action \<noteq> POLL_NONE"
  shows "\<exists>s1. socketCallback fd is_open action s = Some s1 \<and> ce_timeout s1 = ce_timeout s \<and> ce_waits s1 = ce_waits s \<and>
    ce_interest s1 = (if action = POLL_REMOVE then (ce_interest s)(fd := None) else (ce_interest s)(fd \<mapsto> events_of action))"
  using assms asks_something [of action] by (cases is_open) (auto simp: socketCallback_def Let_def asked_events split: if_splits)

lemma callbacks_wanted:
  assumes "curl_ok cs (ce_interest s)"
  shows "\<exists>s'. callbacks cs s = Some s' \<and> (ce_interest s', ce_timeout s') = wanted cs (ce_interest s, ce_timeout s) \<and> ce_waits s' = ce_waits s"
  using assms
proof (induction cs arbitrary: s)
  case (Cons c cs)
  show ?case
  proof (cases c)
    case (Timer ms)
    then show ?thesis
      using Cons.IH [of "timerCallback ms s"] Cons.prems by (simp add: timerCallback_def)
  next
    case (Socket fd is_open action)
    have "if action = POLL_REMOVE then fd \<in> dom (ce_interest s) else is_open \<and> action \<noteq> POLL_NONE"
      using Cons.prems Socket by (simp split: if_splits)
    from socketCallback_wanted [OF this] obtain s1 where s1: "socketCallback fd is_open action s = Some s1" "ce_timeout s1 = ce_timeout s"
      "ce_waits s1 = ce_waits s"
      "ce_interest s1 = (if action = POLL_REMOVE then (ce_interest s)(fd := None) else (ce_interest s)(fd \<mapsto> events_of action))"
      by blast
    moreover have "curl_ok cs (ce_interest s1)"
      using Cons.prems Socket s1(4) by (simp split: if_splits)
    ultimately show ?thesis
      using Cons.IH [of s1] Socket by simp
  qed
qed simp

text \<open>The waits that the contract asks for, and the turns in which nothing fails and libcurl keeps to it.\<close>

fun wanted_waits :: "nat \<Rightarrow> (bool \<times> curl_call list \<times> nat) list \<Rightarrow> (int \<rightharpoonup> bool \<times> bool) \<times> int \<Rightarrow> ((int \<rightharpoonup> bool \<times> bool) \<times> int) list" where
  "wanted_waits running [] w = []"
| "wanted_waits running ((_, cs, left) # ts) w = (if running = 0 then [] else w # wanted_waits left ts (wanted cs w))"

fun turns_ok :: "nat \<Rightarrow> (bool \<times> curl_call list \<times> nat) list \<Rightarrow> (int \<rightharpoonup> bool \<times> bool) \<times> int \<Rightarrow> bool" where
  "turns_ok running [] w \<longleftrightarrow> True"
| "turns_ok running ((failed, cs, left) # ts) w \<longleftrightarrow> running = 0 \<or> \<not> failed \<and> curl_ok cs (fst w) \<and> turns_ok left ts (wanted cs w)"

lemma curl_loop_waits:
  assumes "turns_ok running ts (ce_interest s, ce_timeout s)"
  shows "\<exists>s'. curl_loop False running ts s = Some s' \<and> ce_waits s' = ce_waits s @ wanted_waits running ts (ce_interest s, ce_timeout s)"
  using assms
proof (induction ts arbitrary: running s)
  case (Cons t ts)
  obtain failed cs left where t: "t = (failed, cs, left)"
    by (cases t)
  show ?case
  proof (cases "running = 0")
    case False
    let ?s = "s\<lparr>ce_waits := ce_waits s @ [(ce_interest s, ce_timeout s)]\<rparr>"
    obtain s1 where s1: "callbacks cs ?s = Some s1" "(ce_interest s1, ce_timeout s1) = wanted cs (ce_interest s, ce_timeout s)"
      "ce_waits s1 = ce_waits s @ [(ce_interest s, ce_timeout s)]"
      using callbacks_wanted [of cs ?s] Cons.prems t False by auto
    then show ?thesis
      using Cons.IH [of left s1] Cons.prems t False by auto
  qed (simp add: t)
qed simp

section \<open>Properties\<close>



end
