(* ===== verification/Csv_Insert.thy ===== *)
theory Csv_Insert
  imports Bns_Lines
begin

text \<open>
  The program \<^verbatim>\<open>lib/mysql/mysql_csv_inster.c\<close>, which reads a table with commas and inserts ten columns of each line into a database. The client library of MySQL is not
  part of the repository: whether the connection succeeds is input, and the queries are a log. The result of a query decides only what is printed; console output is left
  out. \<^const>\<open>None\<close> is undefined behaviour.
\<close>

section \<open>The program\<close>

definition COMMA :: char where "COMMA = CHR '',''"

text \<open>The loops of \<^verbatim>\<open>my_csv\<close>: spaces, a newline included, are skipped; then everything up to a comma or a newline is copied. Neither of them looks for the NUL.\<close>

fun csv_skip :: "cbuf \<Rightarrow> cbuf option" where
  "csv_skip [] = None"
| "csv_skip (None # s1) = None"
| "csv_skip (Some c # s1) = (if isspace c then csv_skip s1 else Some (Some c # s1))"

fun csv_copy :: "cbuf \<Rightarrow> cbuf \<Rightarrow> nat \<Rightarrow> (cbuf \<times> cbuf) option" where
  "csv_copy [] s2 p = None"
| "csv_copy (None # s1) s2 p = None"
| "csv_copy (Some c # s1) s2 p =
     (if c \<noteq> COMMA \<and> c \<noteq> NL
      then (if p < length s2 then csv_copy s1 (s2[p := Some c]) (Suc p) else None)
      else Some (Some c # s1, s2))"

definition my_csv_comma :: "cbuf \<Rightarrow> cbuf \<Rightarrow> (cbuf \<times> cbuf) option" where
  "my_csv_comma s1 s2 = do {
     s1 \<leftarrow> csv_skip s1;
     (s, t) \<leftarrow> csv_copy s1 s2 0;
     Some (case s of Some c # s' \<Rightarrow> if c = COMMA then (s', t) else (s, t) | _ \<Rightarrow> (s, t))
   }"

text \<open>What is written behind the field in column \<open>n\<close>, if the column is taken.\<close>

definition sql_col :: "nat \<Rightarrow> string option" where
  "sql_col n = (if n \<in> {0, 3, 4, 5, 6, 7, 8, 19, 22} then Some '','' else if n = 31 then Some '');'' else None)"

definition QUOTE :: string where "QUOTE = [CHR 0x27]"

text \<open>\<^verbatim>\<open>sprintf(temp,"'%s',",result); strcat(sql,temp);\<close> with arrays of 128 and 512 characters.\<close>

definition add_col :: "nat \<Rightarrow> string \<Rightarrow> string \<Rightarrow> string option" where
  "add_col n f sql =
     (case sql_col n of
        None \<Rightarrow> Some sql
      | Some e \<Rightarrow>
          let temp = QUOTE @ f @ QUOTE @ e in
          if length temp < 128 \<and> length (sql @ temp) < 512 then Some (sql @ temp) else None)"

text \<open>The loop over the columns; \<open>k\<close> of the 32 are left. As in the other programs the overlapping copy moves the rest of the line to the front.\<close>

fun csv_fields :: "nat \<Rightarrow> nat \<Rightarrow> cbuf \<Rightarrow> string \<Rightarrow> string option" where
  "csv_fields 0 n ss1 sql = Some sql"
| "csv_fields (Suc k) n ss1 sql = do {
     result \<leftarrow> memset0 (uninit 512) 512;
     (rest, result) \<leftarrow> my_csv_comma ss1 result;
     s \<leftarrow> cstr rest;
     ss1 \<leftarrow> put_str ss1 s;
     f \<leftarrow> cstr result;
     sql \<leftarrow> add_col n f sql;
     csv_fields k (Suc n) ss1 sql
   }"

definition SQL_START :: string where
  "SQL_START = ''insert into user (username,ctftype,identity,sex,birthday,address,zip,phone,email,createtime) value (''"

text \<open>
  A turn of the loop over the lines: the file, the number of the line and the queries so far. \<open>arg\<close> is the second argument; \<open>ok\<close> tells which calls of \<^verbatim>\<open>malloc\<close> succeed.
\<close>

definition csv_turn :: "string \<Rightarrow> (int \<Rightarrow> bool) \<Rightarrow> FILE \<times> int \<times> string list \<Rightarrow> (FILE \<times> int \<times> string list) option" where
  "csv_turn arg ok = (\<lambda>(fp, i, queries). do {
     strline \<leftarrow> memset0 (uninit 1024) 1024;
     (strline, fp) \<leftarrow> fgets strline 1024 fp;
     if i = 0 then Some (fp, 1, queries)
     else do {
       s \<leftarrow> cstr strline;
       ss1 \<leftarrow> (if ok i then put_str (uninit 1024) s else None);
       a \<leftarrow> atoi arg;
       queries \<leftarrow> (if i > a then do { sql \<leftarrow> csv_fields 32 0 ss1 SQL_START; Some (queries @ [sql]) } else Some queries);
       i \<leftarrow> c_int (i + 1);
       Some (fp, i, queries)
     }
   })"

partial_function (option) csv_loop :: "string \<Rightarrow> (int \<Rightarrow> bool) \<Rightarrow> FILE \<times> int \<times> string list \<Rightarrow> (status \<times> string list) option" where
  "csv_loop arg ok x =
     (if f_eof (fst x) then Some (Finished, snd (snd x))
      else case csv_turn arg ok x of None \<Rightarrow> Some (Undefined, snd (snd x)) | Some y \<Rightarrow> csv_loop arg ok y)"

definition csv_main :: "bool \<Rightarrow> FILE option \<Rightarrow> bool \<Rightarrow> string \<Rightarrow> (int \<Rightarrow> bool) \<Rightarrow> (status \<times> string list) option" where
  "csv_main args_ok fopen connected arg ok =
     (if \<not> args_ok then Some (Returned 1, [])
      else case fopen of
        None \<Rightarrow> Some (Returned (-1), [])
      | Some fp \<Rightarrow>
          if \<not> connected then Some (Returned 1, [])
          else do {
            (r, queries) \<leftarrow> csv_loop arg ok (fp, 0, []);
            Some (if r = Finished then Returned 0 else r, queries)
          })"

section \<open>Lines\<close>

text \<open>A field that does not start with a space; a line of at least 32 of them.\<close>

definition csv_field :: "string \<Rightarrow> bool" where
  "csv_field f \<longleftrightarrow> COMMA \<notin> set f \<and> NL \<notin> set f \<and> NUL \<notin> set f \<and> (f \<noteq> [] \<longrightarrow> \<not> isspace (hd f))"

fun csv_text :: "string list \<Rightarrow> string" where
  "csv_text [] = [NL]"
| "csv_text [f] = f @ [NL]"
| "csv_text (f # fs) = f @ COMMA # csv_text fs"

definition col_text :: "nat \<Rightarrow> string \<Rightarrow> string" where
  "col_text n f = (case sql_col n of None \<Rightarrow> [] | Some e \<Rightarrow> QUOTE @ f @ QUOTE @ e)"

definition cols_text :: "nat \<Rightarrow> string list \<Rightarrow> string" where
  "cols_text n fs = concat (map (\<lambda>(i, f). col_text i f) (enumerate n fs))"

lemma COMMA_neq [simp]: "COMMA \<noteq> NL" "COMMA \<noteq> NUL" "\<not> isspace COMMA" "NL \<noteq> COMMA" "NUL \<noteq> COMMA" "\<not> isspace NUL"
  by (simp_all add: COMMA_def NL_def NUL_def isspace_def TAB_def)

lemma csv_skip_field: "csv_field (c # f) \<Longrightarrow> csv_skip (Some c # b) = Some (Some c # b)"
  by (simp add: csv_field_def)

lemma csv_copy_field:
  "COMMA \<notin> set f \<Longrightarrow> NL \<notin> set f \<Longrightarrow> d = COMMA \<or> d = NL \<Longrightarrow> p + length f \<le> length s2 \<Longrightarrow>
   csv_copy (map Some f @ Some d # b) s2 p = Some (Some d # b, take p s2 @ map Some f @ drop (p + length f) s2)"
proof (induction f arbitrary: s2 p)
  case (Cons c f)
  then have "csv_copy (map Some f @ Some d # b) (s2[p := Some c]) (Suc p) =
      Some (Some d # b, take (Suc p) (s2[p := Some c]) @ map Some f @ drop (Suc p + length f) (s2[p := Some c]))"
    by simp
  then show ?case
    using Cons.prems by (auto simp: take_Suc_conv_app_nth)
qed auto

lemma my_csv_field:
  assumes "csv_field f" "d = COMMA \<or> d = NL \<and> f \<noteq> []" "length f < 512"
  shows "\<exists>result. my_csv_comma (map Some f @ Some d # b) (replicate 512 (Some NUL)) = Some (if d = COMMA then b else Some d # b, result) \<and> cstr result = Some f"
proof -
  let ?r = "map Some f @ drop (length f) (replicate 512 (Some NUL))"
  have "csv_skip (map Some f @ Some d # b) = Some (map Some f @ Some d # b)"
    using assms(1,2) by (cases f) (auto simp: csv_field_def)
  moreover have "csv_copy (map Some f @ Some d # b) (replicate 512 (Some NUL)) 0 = Some (Some d # b, ?r)"
    using assms csv_copy_field [of f d 0 "replicate 512 (Some NUL)" b] by (auto simp: csv_field_def)
  moreover have "cstr ?r = Some f"
    using clean_tmp [of f 512 "[]"] assms by (simp add: csv_field_def)
  ultimately show ?thesis
    by (auto simp: my_csv_comma_def)
qed

lemma csv_step:
  assumes "holds ss1 (f @ d # t)" "csv_field f" "d = COMMA \<or> d = NL \<and> f \<noteq> []" "length f < 512" "NUL \<notin> set t" "add_col n f sql = Some sql'"
  shows "\<exists>ss1'. csv_fields (Suc k) n ss1 sql = csv_fields k (Suc n) ss1' sql' \<and> holds ss1' (if d = COMMA then t else d # t)"
proof -
  let ?t = "if d = COMMA then t else d # t"
  obtain junk where ss1: "ss1 = map Some f @ Some d # map Some t @ Some NUL # junk"
    using assms(1) by (auto simp: holds_def)
  obtain result where r: "my_csv_comma ss1 (replicate 512 (Some NUL)) = Some (if d = COMMA then map Some t @ Some NUL # junk else Some d # map Some t @ Some NUL # junk, result)"
    "cstr result = Some f"
    using my_csv_field [OF assms(2-4)] unfolding ss1 by blast
  have c: "cstr (if d = COMMA then map Some t @ Some NUL # junk else Some d # map Some t @ Some NUL # junk) = Some ?t"
    using assms(3,5) by (cases "d = COMMA") auto
  have "length ?t < length ss1"
    by (simp add: ss1)
  then obtain b' where b': "put_str ss1 ?t = Some b'" "holds b' ?t"
    using holds_put_str by blast
  have "csv_fields (Suc k) n ss1 sql = csv_fields k (Suc n) b' sql'"
    unfolding csv_fields.simps using r c b'(1) assms(6) by (simp add: memset0_def)
  then show ?thesis
    using b'(2) by blast
qed

definition fields_fit :: "nat \<Rightarrow> string list \<Rightarrow> bool" where
  "fields_fit n fs \<longleftrightarrow> (\<forall>(i, f) \<in> set (enumerate n fs). csv_field f \<and> length f < 512 \<and> (sql_col i \<noteq> None \<longrightarrow> length f < 124))"

lemma fields_fit_Cons: "fields_fit n (f # fs) \<longleftrightarrow> csv_field f \<and> length f < 512 \<and> (sql_col n \<noteq> None \<longrightarrow> length f < 124) \<and> fields_fit (Suc n) fs"
  by (simp add: fields_fit_def)

lemma fields_fit_field: "fields_fit n fs \<Longrightarrow> f \<in> set fs \<Longrightarrow> csv_field f"
  by (induction fs arbitrary: n) (auto simp: fields_fit_Cons)

lemma cols_text_simps [simp]: "cols_text n [] = []" "cols_text n (f # fs) = col_text n f @ cols_text (Suc n) fs"
  by (simp_all add: cols_text_def)

lemma add_col_fits:
  assumes "sql_col n \<noteq> None \<longrightarrow> length f < 124" "length (sql @ col_text n f) < 512"
  shows "add_col n f sql = Some (sql @ col_text n f)"
  using assms by (auto simp: add_col_def col_text_def Let_def sql_col_def QUOTE_def split: if_splits)

lemma csv_text_NUL: "\<forall>f \<in> set fs. NUL \<notin> set f \<Longrightarrow> NUL \<notin> set (csv_text fs)"
  by (induction fs rule: csv_text.induct) auto

lemma csv_text_Cons: "csv_text (f # fs) = f @ (if fs = [] then [NL] else COMMA # csv_text fs)"
  by (cases fs) auto

lemma csv_fields_text:
  assumes "holds ss1 (csv_text fs)" "fields_fit n fs" "k \<le> length fs" "k \<noteq> 0 \<Longrightarrow> fs ! (k - 1) \<noteq> []" "length (sql @ cols_text n (take k fs)) < 512"
  shows "csv_fields k n ss1 sql = Some (sql @ cols_text n (take k fs))"
  using assms
proof (induction k arbitrary: n ss1 sql fs)
  case (Suc k)
  then obtain f fs1 where fs: "fs = f # fs1"
    by (cases fs) auto
  define d where "d = (if fs1 = [] then NL else COMMA)"
  define t where "t = (if fs1 = [] then [] else csv_text fs1)"
  have tx: "csv_text fs = f @ d # t"
    by (simp add: fs csv_text_Cons d_def t_def)
  have fit: "csv_field f" "length f < 512" "sql_col n \<noteq> None \<longrightarrow> length f < 124" "fields_fit (Suc n) fs1"
    using Suc.prems(2) by (simp_all add: fs fields_fit_Cons)
  have "\<forall>f \<in> set fs1. NUL \<notin> set f"
    using fields_fit_field [OF fit(4)] by (auto simp: csv_field_def)
  then have nul: "NUL \<notin> set t"
    by (simp add: t_def csv_text_NUL)
  have "k = 0" if "fs1 = []"
    using Suc.prems(3) fs that by simp
  then have d: "d = COMMA \<or> d = NL \<and> f \<noteq> []"
    using Suc.prems(4) fs by (auto simp: d_def)
  have "add_col n f sql = Some (sql @ col_text n f)"
    using add_col_fits [OF fit(3), of sql] Suc.prems(5) fs by simp
  from csv_step [OF Suc.prems(1)[unfolded tx] fit(1) d fit(2) nul this] obtain b where
    b: "csv_fields (Suc k) n ss1 sql = csv_fields k (Suc n) b (sql @ col_text n f)" "holds b (if d = COMMA then t else d # t)"
    by blast
  show ?case
  proof (cases "fs1 = []")
    case True
    then show ?thesis
      using b(1) fs Suc.prems(3) by simp
  next
    case False
    then have "holds b (csv_text fs1)"
      using b(2) by (simp add: d_def t_def)
    moreover have "k \<noteq> 0 \<Longrightarrow> fs1 ! (k - 1) \<noteq> []"
      using Suc.prems(4) fs by (cases k) auto
    ultimately have "csv_fields k (Suc n) b (sql @ col_text n f) = Some ((sql @ col_text n f) @ cols_text (Suc n) (take k fs1))"
      using Suc.prems(3,5) fs by (intro Suc.IH fit(4)) auto
    then show ?thesis
      using b(1) fs by simp
  qed
qed simp

text \<open>
  A line of fewer fields: \<^verbatim>\<open>my_csv\<close> skips the newline, passes the NUL and goes on in what earlier fields have left in the array, so that the last field comes again.
\<close>

lemma csv_short_line:
  "Option.bind (put_str (uninit 1024) (csv_text [''x'', ''yyyy'', ''zzzz'', ''w''])) (\<lambda>ss1. csv_fields 6 0 ss1 []) =
   Some (cols_text 0 [''x'', ''yyyy'', ''zzzz'', ''w'', [], ''w''])"
  by code_simp

section \<open>Files\<close>

definition row_sql :: "string list \<Rightarrow> string" where
  "row_sql fs = SQL_START @ concat (map (\<lambda>i. QUOTE @ fs ! i @ QUOTE @ '','') [0, 3, 4, 5, 6, 7, 8, 19, 22]) @ QUOTE @ fs ! 31 @ QUOTE @ '');''"

lemma row_sql_cols:
  assumes "32 \<le> length fs"
  shows "row_sql fs = SQL_START @ cols_text 0 (take 32 fs)"
proof -
  have "enumerate 0 (take 32 fs) = map (\<lambda>i. (i, fs ! i)) [0..<32]"
    using assms by (intro nth_equalityI) (simp_all add: nth_enumerate_eq)
  then have "cols_text 0 (take 32 fs) = concat (map (\<lambda>i. col_text i (fs ! i)) [0..<32])"
    by (simp add: cols_text_def o_def)
  moreover have "[0..<32] = [0, 1, 2, 3, 4, 5, 6, 7, 8, 9, 10, 11, 12, 13, 14, 15, 16, 17, 18, 19, 20, 21, 22, 23, 24, 25, 26, 27, 28, 29, 30, 31 :: nat]"
    by code_simp
  ultimately show ?thesis
    by (simp add: row_sql_def col_text_def sql_col_def)
qed

definition row_ok :: "string list \<Rightarrow> bool" where
  "row_ok fs \<longleftrightarrow> fields_fit 0 fs \<and> 32 \<le> length fs \<and> fs ! 31 \<noteq> [] \<and> length (csv_text fs) < 1024 \<and> length (row_sql fs) < 512"

lemma csv_text_line:
  assumes "\<forall>f \<in> set fs. csv_field f"
  shows "\<exists>l. csv_text fs = l @ [NL] \<and> NL \<notin> set l \<and> NUL \<notin> set l"
  using assms
proof (induction fs)
  case (Cons f fs)
  then obtain l where "csv_text fs = l @ [NL]" "NL \<notin> set l" "NUL \<notin> set l"
    by auto
  then show ?case
    using Cons.prems by (cases "fs = []") (auto simp: csv_text_Cons csv_field_def)
qed simp

lemma memset_line: "memset0 (uninit 1024) 1024 = Some (replicate 1024 (Some NUL))"
  by (simp add: memset0_def)

lemma csv_turn_title:
  assumes "f_rest fp = l @ NL # s" "NL \<notin> set l" "length l < 1023"
  shows "csv_turn arg ok (fp, 0, qs) = Some (fp\<lparr>f_rest := s\<rparr>, 1, qs)"
  using fgets_line [OF assms(1,2), of 1024 "replicate 1024 (Some NUL)"] assms(3) by (auto simp: csv_turn_def memset_line)

lemma csv_turn_row:
  assumes "f_rest fp = csv_text fs @ s" "row_ok fs" "0 < i" "ok i" "atoi arg = Some a" "i < INT_MAX"
  shows "csv_turn arg ok (fp, i, qs) = Some (fp\<lparr>f_rest := s\<rparr>, i + 1, if i > a then qs @ [row_sql fs] else qs)"
proof -
  obtain l where l: "csv_text fs = l @ [NL]" "NL \<notin> set l" "NUL \<notin> set l"
    using csv_text_line [of fs] assms(2) fields_fit_field by (auto simp: row_ok_def)
  have len: "length l < 1023"
    using assms(2) l(1) by (simp add: row_ok_def)
  obtain b where b: "fgets (replicate 1024 (Some NUL)) 1024 fp = Some (b, fp\<lparr>f_rest := s\<rparr>)" "put_str (replicate 1024 (Some NUL)) (l @ [NL]) = Some b"
    using fgets_line [of fp l s 1024 "replicate 1024 (Some NUL)"] assms(1) l len by auto
  have c: "cstr b = Some (csv_text fs)"
    using cstr_put_str [OF b(2)] l by simp
  have "length (csv_text fs) < length (uninit 1024)"
    using l(1) len by simp
  from holds_put_str [OF this] obtain ss1 where ss1: "put_str (uninit 1024) (csv_text fs) = Some ss1" "holds ss1 (csv_text fs)"
    by blast
  have "csv_fields 32 0 ss1 SQL_START = Some (row_sql fs)"
    using csv_fields_text [OF ss1(2), of 0 32 SQL_START] assms(2) row_sql_cols [of fs] by (simp add: row_ok_def)
  moreover have "c_int (i + 1) = Some (i + 1)"
    using assms(3,6) by (simp add: c_int_def INT_MIN_def INT_MAX_def)
  ultimately show ?thesis
    using assms(3-5) b(1) c ss1(1) by (simp add: csv_turn_def memset_line)
qed

lemma fgets_loop_end: "0 < k \<Longrightarrow> fgets_loop k [] = ([], [], True)"
  by (cases k) auto

lemma csv_turn_end:
  assumes "f_rest fp = []" "0 < i" "ok i" "atoi arg = Some a" "i < INT_MAX"
  shows "csv_turn arg ok (fp, i, qs) = (if i > a then None else Some (fp\<lparr>f_eof := True\<rparr>, i + 1, qs))"
proof -
  have "fgets (replicate 1024 (Some NUL)) 1024 fp = Some (replicate 1024 (Some NUL), fp\<lparr>f_eof := True\<rparr>)"
    using assms(1) by (simp add: fgets_def fgets_loop_end)
  moreover have "cstr (replicate 1024 (Some NUL)) = Some []"
    by (simp add: numeral_eq_Suc)
  moreover have "put_str (uninit 1024) [] = Some (Some NUL # uninit 1023)"
    by (simp add: put_str_def uninit_def)
  moreover have "csv_fields 32 0 (Some NUL # uninit 1023) sql = None" for sql
  proof -
    have "my_csv_comma (Some NUL # uninit 1023) (replicate 512 (Some NUL)) = None"
      by (simp add: my_csv_comma_def uninit_def numeral_eq_Suc)
    moreover have "csv_fields 32 = csv_fields (Suc 31)"
      by simp
    ultimately show ?thesis
      unfolding csv_fields.simps by (simp add: memset0_def)
  qed
  moreover have "c_int (i + 1) = Some (i + 1)"
    using assms(2,5) by (simp add: c_int_def INT_MIN_def INT_MAX_def)
  ultimately show ?thesis
    using assms(2-4) by (simp add: csv_turn_def memset_line)
qed

lemma csv_loop_rows:
  assumes "f_rest fp = concat (map csv_text rows)" "\<not> f_eof fp" "\<forall>fs \<in> set rows. row_ok fs" "0 < i" "i + int (length rows) < INT_MAX" "\<And>i. ok i" "atoi arg = Some a"
  shows "csv_loop arg ok (fp, i, qs) = Some (if i + int (length rows) > a then Undefined else Finished, qs @ map row_sql (drop (nat (a + 1 - i)) rows))"
  using assms
proof (induction rows arbitrary: fp i qs)
  case Nil
  then have "csv_turn arg ok (fp, i, qs) = (if i > a then None else Some (fp\<lparr>f_eof := True\<rparr>, i + 1, qs))"
    by (intro csv_turn_end) auto
  then show ?case
    using csv_loop.simps [of arg ok "(fp, i, qs)"] csv_loop.simps [of arg ok "(fp\<lparr>f_eof := True\<rparr>, i + 1, qs)"] Nil.prems(2) by simp
next
  case (Cons fs rows)
  have "csv_turn arg ok (fp, i, qs) = Some (fp\<lparr>f_rest := concat (map csv_text rows)\<rparr>, i + 1, if i > a then qs @ [row_sql fs] else qs)"
    using Cons.prems by (intro csv_turn_row) auto
  moreover have "csv_loop arg ok (fp\<lparr>f_rest := concat (map csv_text rows)\<rparr>, i + 1, qs') =
      Some (if i + int (length (fs # rows)) > a then Undefined else Finished, qs' @ map row_sql (drop (nat (a - i)) rows))" for qs'
  proof -
    have "csv_loop arg ok (fp\<lparr>f_rest := concat (map csv_text rows)\<rparr>, i + 1, qs') =
        Some (if i + 1 + int (length rows) > a then Undefined else Finished, qs' @ map row_sql (drop (nat (a + 1 - (i + 1))) rows))"
      using Cons.prems by (intro Cons.IH) auto
    then show ?thesis
      by (simp add: algebra_simps)
  qed
  moreover have "drop (nat (a + 1 - i)) (fs # rows) = (if i > a then fs # rows else drop (nat (a - i)) rows)"
  proof (cases "i > a")
    case False
    then have "nat (a + 1 - i) = Suc (nat (a - i))"
      by simp
    then show ?thesis
      using False by simp
  qed simp
  ultimately show ?case
    using csv_loop.simps [of arg ok "(fp, i, qs)"] Cons.prems(2) by simp
qed

section \<open>Properties\<close>

text \<open>
  C26: On a file with a title line and lines of at least 32 fields that fit the arrays, the program sends for every line after the first \<open>a\<close> one query, with the ten
  columns in quotes and in order. Then the turn after the last line, in which there is nothing to read, makes \<^verbatim>\<open>my_csv\<close> read behind its text; the program ends well
  only when it has no line to insert.
\<close>

theorem csv_insert_queries:
  assumes "f_rest fp = title @ NL # concat (map csv_text rows)" "\<not> f_eof fp" "NL \<notin> set title" "length title < 1023" "\<forall>fs \<in> set rows. row_ok fs"
    "int (length rows) + 1 < INT_MAX" "\<And>i. ok i" "atoi arg = Some a"
  shows "csv_main True (Some fp) True arg ok =
    Some (if int (length rows) + 1 > a then Undefined else Returned 0, map row_sql (drop (nat a) rows))"
proof -
  have "csv_loop arg ok (fp, 0, []) = csv_loop arg ok (fp\<lparr>f_rest := concat (map csv_text rows)\<rparr>, 1, [])"
    using csv_turn_title [OF assms(1,3,4)] assms(2) by (subst csv_loop.simps) simp
  also have "\<dots> = Some (if 1 + int (length rows) > a then Undefined else Finished, [] @ map row_sql (drop (nat (a + 1 - 1)) rows))"
    using assms(2,5-8) by (intro csv_loop_rows) auto
  finally show ?thesis
    by (simp add: csv_main_def)
qed

lemma ex_row_ok: "row_ok (replicate 32 ''x'')"
  by code_simp

theorem csv_insert_queries_witness:
  "csv_main True (Some \<lparr>f_rest = ''names'' @ NL # concat (map csv_text [replicate 32 ''x'']), f_eof = False\<rparr>) True ''0'' (\<lambda>_. True) =
   Some (Undefined, [row_sql (replicate 32 ''x'')])"
proof -
  have "NL \<notin> set ''names''" "atoi ''0'' = Some 0" "int (length [replicate 32 ''x'']) + 1 < INT_MAX"
    by code_simp+
  then show ?thesis
    using csv_insert_queries [of "\<lparr>f_rest = ''names'' @ NL # concat (map csv_text [replicate 32 ''x'']), f_eof = False\<rparr>" "''names''"
        "[replicate 32 ''x'']" "\<lambda>_. True" "''0''" 0] ex_row_ok
    by simp
qed

end
