(* ===== verification/Pirate.thy ===== *)
theory Pirate
  imports Czmq
begin

text \<open>
  The reliable request-reply patterns of \<^verbatim>\<open>lib/zeromq/reliable\<close>: the paranoid pirate queue and
  worker (\<^verbatim>\<open>ppqueue.c\<close>, \<^verbatim>\<open>ppworker.c\<close>), the simple pirate queue and worker (\<^verbatim>\<open>spqueue.c\<close>,
  \<^verbatim>\<open>spworker.c\<close>), the lazy pirate client and its server (\<^verbatim>\<open>lpclient.c\<close>, \<^verbatim>\<open>lpserver.c\<close>). Sockets are logs of what
  is sent and lists of what is received; \<^verbatim>\<open>zclock_time\<close> and \<^verbatim>\<open>randof\<close> are inputs.
\<close>

section \<open>The paranoid pirate queue\<close>

datatype port = Frontend | Backend

definition PPP_READY :: "byte list" where "PPP_READY = [1]"
definition PPP_HEARTBEAT :: "byte list" where "PPP_HEARTBEAT = [2]"
definition PP_LIVENESS :: int where "PP_LIVENESS = 3"
definition PP_INTERVAL :: int where "PP_INTERVAL = 1000"

record pp_worker =
  pw_identity :: "byte list option"
  pw_id_string :: "byte list"
  pw_expiry :: int

record ('m, 'l) pp_env =
  p_msg :: "'m zmsg_api"
  p_list :: "(ptr, 'l) zlist_api"
  p_clock :: "nat \<Rightarrow> int"

text \<open>
  The list of workers, the worker objects, the messages sent and the number of clock readings.
\<close>

record ('m, 'l) pp_state =
  q_workers :: 'l
  q_heartbeat_at :: int
  q_mem :: "pp_worker mem"
  q_sent :: "(port \<times> byte list list) list"
  q_tick :: nat

definition pp_new :: "('m, 'l) pp_env \<Rightarrow> (nat \<Rightarrow> bool) \<Rightarrow> ('m, 'l) pp_state" where
  "pp_new env oom = \<lparr>q_workers = zl_new (p_list env), q_heartbeat_at = p_clock env 0 + PP_INTERVAL,
     q_mem = empty_mem oom, q_sent = [], q_tick = 1\<rparr>"

definition pp_worker_new :: "('m, 'l) pp_env \<Rightarrow> byte list option \<Rightarrow> ('m, 'l) pp_state \<Rightarrow> (ptr \<times> ('m, 'l) pp_state) option" where
  "pp_worker_new env identity s = do {
     f \<leftarrow> identity;
     (p, m) \<leftarrow> zmalloc \<lparr>pw_identity = Some f, pw_id_string = zf_strhex (p_msg env) f,
                        pw_expiry = p_clock env (q_tick s) + PP_INTERVAL * PP_LIVENESS\<rparr> (q_mem s);
     Some (p, s\<lparr>q_mem := m, q_tick := Suc (q_tick s)\<rparr>)
   }"

text \<open>
  Line 29 of \<^verbatim>\<open>ppqueue.c\<close> takes the address of the caller's variable for the worker, where
  \<^verbatim>\<open>*self_p\<close> is meant; freeing that is undefined. \<open>deref\<close> says that the line is read as meant.
\<close>

definition pp_worker_destroy :: "bool \<Rightarrow> ptr \<Rightarrow> ('m, 'l) pp_state \<Rightarrow> ('m, 'l) pp_state option" where
  "pp_worker_destroy deref self s =
     (if self = Null then Some s
      else if \<not> deref then None
      else do {
        _ \<leftarrow> load (q_mem s) self;
        m \<leftarrow> mem_free (q_mem s) self;
        Some (s\<lparr>q_mem := m\<rparr>)
      })"

text \<open>The search of \<^verbatim>\<open>s_worker_ready\<close> along the list.\<close>

fun pp_find :: "('m, 'l) pp_state \<Rightarrow> byte list \<Rightarrow> ptr list \<Rightarrow> ptr option option" where
  "pp_find s id_string [] = Some None"
| "pp_find s id_string (p # ps) = do {
     w \<leftarrow> load (q_mem s) p;
     if id_string = pw_id_string w then Some (Some p) else pp_find s id_string ps
   }"

definition pp_worker_ready :: "bool \<Rightarrow> ('m, 'l) pp_env \<Rightarrow> ptr \<Rightarrow> ('m, 'l) pp_state \<Rightarrow> ('m, 'l) pp_state option" where
  "pp_worker_ready deref env self s = do {
     w \<leftarrow> load (q_mem s) self;
     r \<leftarrow> pp_find s (pw_id_string w) (zl_items (p_list env) (q_workers s));
     s \<leftarrow> (case r of
            None \<Rightarrow> Some s
          | Some p \<Rightarrow> pp_worker_destroy deref p (s\<lparr>q_workers := zl_remove (p_list env) p (q_workers s)\<rparr>));
     Some (s\<lparr>q_workers := zl_append (p_list env) self (q_workers s)\<rparr>)
   }"

definition pp_workers_next :: "bool \<Rightarrow> ('m, 'l) pp_env \<Rightarrow> ('m, 'l) pp_state \<Rightarrow> (byte list option \<times> ('m, 'l) pp_state) option" where
  "pp_workers_next deref env s = do {
     p \<leftarrow> fst (zl_pop (p_list env) (q_workers s));
     let s = s\<lparr>q_workers := snd (zl_pop (p_list env) (q_workers s))\<rparr>;
     w \<leftarrow> load (q_mem s) p;
     m \<leftarrow> store (q_mem s) p (w\<lparr>pw_identity := None\<rparr>);
     s \<leftarrow> pp_worker_destroy deref p (s\<lparr>q_mem := m\<rparr>);
     Some (pw_identity w, s)
   }"

partial_function (option) pp_purge_loop ::
  "bool \<Rightarrow> ('m, 'l) pp_env \<Rightarrow> ptr option \<Rightarrow> ('m, 'l) pp_state \<Rightarrow> ('m, 'l) pp_state option" where
  "pp_purge_loop deref env worker s =
     (if worker = None then Some s
      else Option.bind (load (q_mem s) (the worker)) (\<lambda>w.
        if p_clock env (q_tick s) < pw_expiry w then Some (s\<lparr>q_tick := Suc (q_tick s)\<rparr>)
        else Option.bind (pp_worker_destroy deref (the worker)
               (s\<lparr>q_tick := Suc (q_tick s), q_workers := zl_remove (p_list env) (the worker) (q_workers s)\<rparr>)) (\<lambda>s1.
             pp_purge_loop deref env (zl_first (p_list env) (q_workers s1)) s1)))"

definition pp_workers_purge :: "bool \<Rightarrow> ('m, 'l) pp_env \<Rightarrow> ('m, 'l) pp_state \<Rightarrow> ('m, 'l) pp_state option" where
  "pp_workers_purge deref env s = pp_purge_loop deref env (zl_first (p_list env) (q_workers s)) s"

text \<open>
  What \<^verbatim>\<open>zmq_poll\<close> and the receives of a turn give: a failed poll, or for the backend and the frontend nothing to read
  (\<^const>\<open>None\<close>), a failed receive (\<open>Some None\<close>) or a message. The parts of a turn also give whether the
  loop goes on; \<^const>\<open>False\<close> is a \<^verbatim>\<open>break\<close>.
\<close>

datatype 'm polled = Failed | Polled "'m option option" "'m option option"

text \<open>A message without frames sends nothing.\<close>

definition logged :: "port \<Rightarrow> byte list list \<Rightarrow> (port \<times> byte list list) list" where
  "logged to fs = (if fs = [] then [] else [(to, fs)])"

text \<open>A message from a worker. Reading the first byte of an empty frame is undefined.\<close>

fun pp_backend ::
  "bool \<Rightarrow> ('m, 'l) pp_env \<Rightarrow> 'm option option \<Rightarrow> ('m, 'l) pp_state \<Rightarrow> (bool \<times> ('m, 'l) pp_state) option" where
  "pp_backend deref env None s = Some (True, s)"
| "pp_backend deref env (Some None) s = Some (False, s)"
| "pp_backend deref env (Some (Some msg)) s = do {
     let zg = p_msg env;
     let (identity, msg) = zg_unwrap zg msg;
     (worker, s) \<leftarrow> pp_worker_new env identity s;
     s \<leftarrow> pp_worker_ready deref env worker s;
     if zg_size zg msg = 1 then do {
       frame \<leftarrow> fst (zg_pop zg msg);
       if frame = [] then None else Some (True, s)
     } else Some (True, s\<lparr>q_sent := q_sent s @ logged Frontend (zg_frames zg msg)\<rparr>)
   }"

fun pp_frontend ::
  "bool \<Rightarrow> ('m, 'l) pp_env \<Rightarrow> 'm option option \<Rightarrow> ('m, 'l) pp_state \<Rightarrow> (bool \<times> ('m, 'l) pp_state) option" where
  "pp_frontend deref env None s = Some (True, s)"
| "pp_frontend deref env (Some None) s = Some (False, s)"
| "pp_frontend deref env (Some (Some msg)) s = do {
     (identity, s) \<leftarrow> pp_workers_next deref env s;
     f \<leftarrow> identity;
     Some (True, s\<lparr>q_sent := q_sent s @ logged Backend (zg_frames (p_msg env) (zg_push (p_msg env) f msg))\<rparr>)
   }"

text \<open>The loop that sends the heartbeats, each an identity frame and a heartbeat frame.\<close>

fun pp_beats :: "ptr list \<Rightarrow> ('m, 'l) pp_state \<Rightarrow> ('m, 'l) pp_state option" where
  "pp_beats [] s = Some s"
| "pp_beats (p # ps) s = do {
     w \<leftarrow> load (q_mem s) p;
     f \<leftarrow> pw_identity w;
     pp_beats ps (s\<lparr>q_sent := q_sent s @ logged Backend [f, PPP_HEARTBEAT]\<rparr>)
   }"

definition pp_heartbeat :: "('m, 'l) pp_env \<Rightarrow> ('m, 'l) pp_state \<Rightarrow> ('m, 'l) pp_state option" where
  "pp_heartbeat env s =
     (let now = p_clock env (q_tick s); s = s\<lparr>q_tick := Suc (q_tick s)\<rparr> in
      if now \<ge> q_heartbeat_at s then do {
        s \<leftarrow> pp_beats (zl_items (p_list env) (q_workers s)) s;
        Some (s\<lparr>q_heartbeat_at := p_clock env (q_tick s) + PP_INTERVAL, q_tick := Suc (q_tick s)\<rparr>)
      } else Some s)"

text \<open>
  A turn. The frontend is polled only when there are workers; line 95 names the list \<^verbatim>\<open>worker\<close> and leaves the
  timeout out, which does not compile, and is read as meant.
\<close>

fun pp_turn ::
  "bool \<Rightarrow> ('m, 'l) pp_env \<Rightarrow> 'm polled \<Rightarrow> ('m, 'l) pp_state \<Rightarrow> (bool \<times> ('m, 'l) pp_state) option" where
  "pp_turn deref env Failed s = Some (False, s)"
| "pp_turn deref env (Polled be fe) s = do {
     let fe = (if zl_size (p_list env) (q_workers s) \<noteq> 0 then fe else None);
     (go, s) \<leftarrow> pp_backend deref env be s;
     if \<not> go then Some (False, s)
     else do {
       (go, s) \<leftarrow> pp_frontend deref env fe s;
       if \<not> go then Some (False, s)
       else do {
         s \<leftarrow> pp_heartbeat env s;
         s \<leftarrow> pp_workers_purge deref env s;
         Some (True, s)
       }
     }
   }"

fun pp_loop ::
  "bool \<Rightarrow> ('m, 'l) pp_env \<Rightarrow> 'm polled list \<Rightarrow> ('m, 'l) pp_state \<Rightarrow> (bool \<times> ('m, 'l) pp_state) option" where
  "pp_loop deref env [] s = Some (True, s)"
| "pp_loop deref env (i # is) s = do {
     (go, s) \<leftarrow> pp_turn deref env i s;
     if go then pp_loop deref env is s else Some (False, s)
   }"

text \<open>The loop after the main loop.\<close>

partial_function (option) pp_cleanup ::
  "bool \<Rightarrow> ('m, 'l) pp_env \<Rightarrow> ('m, 'l) pp_state \<Rightarrow> ('m, 'l) pp_state option" where
  "pp_cleanup deref env s =
     (if zl_size (p_list env) (q_workers s) = 0 then Some s
      else Option.bind (fst (zl_pop (p_list env) (q_workers s))) (\<lambda>p.
           Option.bind (pp_worker_destroy deref p (s\<lparr>q_workers := snd (zl_pop (p_list env) (q_workers s))\<rparr>)) (\<lambda>s1.
           pp_cleanup deref env s1)))"

text \<open>The whole program on a sequence of polls; without a \<^verbatim>\<open>break\<close> it is still in its main loop.\<close>

definition pp_main :: "bool \<Rightarrow> ('m, 'l) pp_env \<Rightarrow> (nat \<Rightarrow> bool) \<Rightarrow> 'm polled list \<Rightarrow> ('m, 'l) pp_state option" where
  "pp_main deref env oom is = do {
     (go, s) \<leftarrow> pp_loop deref env is (pp_new env oom);
     if go then Some s else pp_cleanup deref env s
   }"

section \<open>The simple pirate queue\<close>

definition WORKER_READY :: "byte list" where "WORKER_READY = [1]"

text \<open>The list of worker identities and the messages sent. The test for a reserved message looks at its first byte.\<close>

type_synonym 'l sp_state = "'l \<times> (port \<times> byte list list) list"

fun sp_backend :: "'m zmsg_api \<Rightarrow> (byte list, 'l) zlist_api \<Rightarrow> 'm option option \<Rightarrow> 'l sp_state \<Rightarrow> (bool \<times> 'l sp_state) option" where
  "sp_backend zg zl None s = Some (True, s)"
| "sp_backend zg zl (Some None) s = Some (False, s)"
| "sp_backend zg zl (Some (Some msg)) (workers, sent) = do {
     let (identity, msg) = zg_unwrap zg msg;
     identity \<leftarrow> identity;
     let workers = zl_append zl identity workers;
     frame \<leftarrow> fst (zg_pop zg msg);
     if frame = [] then None
     else if hd frame = hd WORKER_READY then Some (True, workers, sent)
     else Some (True, workers, sent @ logged Frontend (zg_frames zg msg))
   }"

fun sp_frontend :: "'m zmsg_api \<Rightarrow> (byte list, 'l) zlist_api \<Rightarrow> 'm option option \<Rightarrow> 'l sp_state \<Rightarrow> 'l sp_state option" where
  "sp_frontend zg zl (Some (Some msg)) (workers, sent) = do {
     let (worker, workers) = zl_pop zl workers;
     f \<leftarrow> worker;
     Some (workers, sent @ logged Backend (zg_frames zg (zg_wrap zg f msg)))
   }"
| "sp_frontend zg zl _ s = Some s"

fun sp_turn :: "'m zmsg_api \<Rightarrow> (byte list, 'l) zlist_api \<Rightarrow> 'm polled \<Rightarrow> 'l sp_state \<Rightarrow> (bool \<times> 'l sp_state) option" where
  "sp_turn zg zl Failed s = Some (False, s)"
| "sp_turn zg zl (Polled be fe) s = do {
     let fe = (if zl_size zl (fst s) \<noteq> 0 then fe else None);
     (go, s) \<leftarrow> sp_backend zg zl be s;
     if \<not> go then Some (False, s)
     else do {
       s \<leftarrow> sp_frontend zg zl fe s;
       Some (True, s)
     }
   }"

fun sp_loop :: "'m zmsg_api \<Rightarrow> (byte list, 'l) zlist_api \<Rightarrow> 'm polled list \<Rightarrow> 'l sp_state \<Rightarrow> (bool \<times> 'l sp_state) option" where
  "sp_loop zg zl [] s = Some (True, s)"
| "sp_loop zg zl (i # is) s = do {
     (go, s) \<leftarrow> sp_turn zg zl i s;
     if go then sp_loop zg zl is s else Some (False, s)
   }"

partial_function (option) sp_cleanup :: "(byte list, 'l) zlist_api \<Rightarrow> 'l \<Rightarrow> 'l option" where
  "sp_cleanup zl workers =
     (if zl_size zl workers = 0 then Some workers
      else Option.bind (fst (zl_pop zl workers)) (\<lambda>_. sp_cleanup zl (snd (zl_pop zl workers))))"

section \<open>Lemmas on the paranoid pirate queue\<close>

text \<open>
  \<open>pp_rep env s q\<close>: the objects of the listed workers are \<open>q\<close>, and no other object is allocated. \<open>pp_ok env t q\<close>: the
  identifiers agree with the identities and are distinct, and the list is sorted by expiry, with all expiries at most
  three intervals after the last reading of the clock.
\<close>

definition pp_rep :: "('m, 'l) pp_env \<Rightarrow> ('m, 'l) pp_state \<Rightarrow> pp_worker list \<Rightarrow> bool" where
  "pp_rep env s q \<longleftrightarrow> (let ps = zl_items (p_list env) (q_workers s) in
     map (load (q_mem s)) ps = map Some q \<and> distinct ps \<and> (\<forall>p. load (q_mem s) p \<noteq> None \<longrightarrow> p \<in> set ps) \<and>
     mem_wf (q_mem s) \<and> fails (q_mem s) = (\<lambda>_. False))"

definition pp_ok :: "('m, 'l) pp_env \<Rightarrow> nat \<Rightarrow> pp_worker list \<Rightarrow> bool" where
  "pp_ok env t q \<longleftrightarrow> 0 < t \<and> distinct (map pw_id_string q) \<and> sorted (map pw_expiry q) \<and>
     (\<forall>w\<in>set q. pw_expiry w \<le> p_clock env (t - 1) + PP_INTERVAL * PP_LIVENESS \<and>
        map_option (zf_strhex (p_msg env)) (pw_identity w) = Some (pw_id_string w))"

definition pp_laws :: "('m, 'l) pp_env \<Rightarrow> bool" where
  "pp_laws env \<longleftrightarrow> zmsg_laws (p_msg env) \<and> zlist_laws (p_list env) \<and> mono (p_clock env)"

lemma pp_repD:
  assumes "pp_rep env s q"
  shows "map (load (q_mem s)) (zl_items (p_list env) (q_workers s)) = map Some q"
    and "distinct (zl_items (p_list env) (q_workers s))"
    and "load (q_mem s) p \<noteq> None \<Longrightarrow> p \<in> set (zl_items (p_list env) (q_workers s))"
    and "mem_wf (q_mem s)" and "fails (q_mem s) = (\<lambda>_. False)"
    and "length (zl_items (p_list env) (q_workers s)) = length q"
proof -
  show m: "map (load (q_mem s)) (zl_items (p_list env) (q_workers s)) = map Some q"
    using assms by (simp add: pp_rep_def Let_def)
  show "length (zl_items (p_list env) (q_workers s)) = length q"
    using arg_cong [OF m, of length] by simp
qed (use assms in \<open>simp_all add: pp_rep_def Let_def\<close>)

lemma pp_rep_other [simp]:
  "pp_rep env (s\<lparr>q_tick := t\<rparr>) q = pp_rep env s q" "pp_rep env (s\<lparr>q_sent := x\<rparr>) q = pp_rep env s q"
  "pp_rep env (s\<lparr>q_heartbeat_at := h\<rparr>) q = pp_rep env s q"
  by (simp_all add: pp_rep_def)

lemma pp_lawsD [simp]:
  "pp_laws env \<Longrightarrow> zmsg_laws (p_msg env)" "pp_laws env \<Longrightarrow> zlist_laws (p_list env)"
  by (simp_all add: pp_laws_def)

lemma pp_clock_mono: "pp_laws env \<Longrightarrow> i \<le> j \<Longrightarrow> p_clock env i \<le> p_clock env j"
  unfolding pp_laws_def by (blast dest: monoD)

text \<open>Taking a worker off the list and destroying it.\<close>

lemma pp_destroy_ok:
  assumes rep: "pp_rep env s (u @ w # v)" and ps: "zl_items (p_list env) (q_workers s) = xs @ p # ys"
    and len: "length xs = length u" and l: "zl_items (p_list env) l = xs @ ys"
  shows "\<exists>m. pp_worker_destroy True p (s\<lparr>q_workers := l\<rparr>) = Some (s\<lparr>q_workers := l, q_mem := m\<rparr>) \<and>
    pp_rep env (s\<lparr>q_workers := l, q_mem := m\<rparr>) (u @ v)"
proof -
  note R = pp_repD [OF rep, unfolded ps]
  have split: "map (load (q_mem s)) xs = map Some u" "load (q_mem s) p = Some w" "map (load (q_mem s)) ys = map Some v"
    using R(1) len by auto
  obtain m where m: "mem_free (q_mem s) p = Some m" "load m = (load (q_mem s))(p := None)" "fails m = fails (q_mem s)"
      "mem_wf m"
    using free_live [OF split(2)] R(4) by auto
  have "p \<noteq> Null"
    using split(2) by auto
  moreover have "map (load m) xs = map Some u" "map (load m) ys = map Some v"
    using R(2) split m(2) map_load_other [of p xs] map_load_other [of p ys] by auto
  moreover have "load m q \<noteq> None \<Longrightarrow> q \<in> set (xs @ ys)" for q
    using R(3) [of q] m(2) by (auto split: if_splits)
  ultimately show ?thesis
    using m split(2) R(2,5) l by (intro exI [of _ m]) (auto simp: pp_worker_destroy_def pp_rep_def)
qed

lemma pp_find_ok:
  "map (load (q_mem s)) ps = map Some q \<Longrightarrow>
   (pp_find s k ps = Some None \<and> (\<forall>w\<in>set q. pw_id_string w \<noteq> k)) \<or>
   (\<exists>xs p ys u w v. pp_find s k ps = Some (Some p) \<and> ps = xs @ p # ys \<and> q = u @ w # v \<and> length xs = length u \<and>
      pw_id_string w = k)"
proof (induction ps arbitrary: q)
  case (Cons p ps)
  then obtain w v where q: "q = w # v" "load (q_mem s) p = Some w" "map (load (q_mem s)) ps = map Some v"
    by (cases q) auto
  show ?case
  proof (cases "pw_id_string w = k")
    case True
    then show ?thesis
      using q by (intro disjI2 exI [of _ "[]"] exI [of _ p] exI [of _ ps] exI [of _ w] exI [of _ v]) auto
  next
    case False
    from Cons.IH [OF q(3)] show ?thesis
    proof (elim disjE exE conjE)
      fix xs p' ys u w' v'
      assume "pp_find s k ps = Some (Some p')" "ps = xs @ p' # ys" "v = u @ w' # v'" "length xs = length u" "pw_id_string w' = k"
      then have "pp_find s k (p # ps) = Some (Some p') \<and> p # ps = (p # xs) @ p' # ys \<and> q = (w # u) @ w' # v' \<and>
          length (p # xs) = length (w # u) \<and> pw_id_string w' = k"
        using False q by auto
      then show ?thesis
        by blast
    qed (use False q in auto)
  qed
qed simp

text \<open>The list of workers when \<open>w\<close> says that it is ready.\<close>

definition pp_readied :: "pp_worker \<Rightarrow> pp_worker list \<Rightarrow> pp_worker list" where
  "pp_readied w q = filter (\<lambda>v. pw_id_string v \<noteq> pw_id_string w) q @ [w]"

lemma filter_unique_key:
  assumes "distinct (map f (u @ w # v))"
  shows "filter (\<lambda>x. f x \<noteq> f w) (u @ w # v) = u @ v"
proof -
  have "filter (\<lambda>x. f x \<noteq> f w) u = u" "filter (\<lambda>x. f x \<noteq> f w) v = v"
    using assms by (auto simp: filter_id_conv image_iff)
  then show ?thesis
    by simp
qed

lemma pp_ready_ok:
  assumes laws: "pp_laws env" and rep: "pp_rep env s q" and ids: "distinct (map pw_id_string q)"
  shows "\<exists>s'. Option.bind (pp_worker_new env (Some f) s) (\<lambda>(p, s). pp_worker_ready True env p s) = Some s' \<and>
    pp_rep env s' (pp_readied \<lparr>pw_identity = Some f, pw_id_string = zf_strhex (p_msg env) f,
      pw_expiry = p_clock env (q_tick s) + PP_INTERVAL * PP_LIVENESS\<rparr> q) \<and>
    q_tick s' = Suc (q_tick s) \<and> q_sent s' = q_sent s \<and> q_heartbeat_at s' = q_heartbeat_at s"
proof -
  let ?w = "\<lparr>pw_identity = Some f, pw_id_string = zf_strhex (p_msg env) f,
    pw_expiry = p_clock env (q_tick s) + PP_INTERVAL * PP_LIVENESS\<rparr>"
  let ?ps = "zl_items (p_list env) (q_workers s)" and ?k = "zf_strhex (p_msg env) f"
  note R = pp_repD [OF rep]
  obtain p m where p: "zmalloc ?w (q_mem s) = Some (p, m)" "p \<noteq> Null" "load (q_mem s) p = None"
      "load m = (load (q_mem s))(p := Some ?w)" "fails m = (\<lambda>_. False)" "mem_wf m"
    using zmalloc_live [OF R(5,4)] by blast
  define s1 where "s1 = s\<lparr>q_mem := m, q_tick := Suc (q_tick s)\<rparr>"
  have new: "p \<notin> set ?ps"
  proof
    assume "p \<in> set ?ps"
    then have "load (q_mem s) p \<in> set (map Some q)"
      unfolding R(1) [symmetric] by simp
    then show False
      using p(3) by auto
  qed
  have m1: "map (load m) ?ps = map Some q"
    unfolding p(4) map_load_other [OF new] by (rule R(1))
  have live1: "load m r \<noteq> None \<Longrightarrow> r = p \<or> r \<in> set ?ps" for r
    using R(3) [of r] p(4) by (auto split: if_splits)
  from pp_find_ok [of s1 ?ps q ?k] m1
  consider "pp_find s1 ?k ?ps = Some None" "\<forall>v\<in>set q. pw_id_string v \<noteq> ?k"
    | xs p' ys u w v where "pp_find s1 ?k ?ps = Some (Some p')" "?ps = xs @ p' # ys" "q = u @ w # v" "length xs = length u"
        "pw_id_string w = ?k"
    by (auto simp: s1_def)
  then show ?thesis
  proof cases
    case 1
    then have "pp_readied ?w q = q @ [?w]"
      by (auto simp: pp_readied_def filter_id_conv)
    then show ?thesis
      using 1 p new m1 R(2) live1 laws
      by (auto simp: pp_worker_new_def pp_worker_ready_def s1_def pp_rep_def)
  next
    case 2
    have q: "pp_readied ?w q = (u @ v) @ [?w]"
      using filter_unique_key [of pw_id_string u w v] ids 2(3,5) by (auto simp: pp_readied_def)
    have split: "map (load m) xs = map Some u" "load m p' = Some w" "map (load m) ys = map Some v"
      using m1 2 by auto
    obtain m2 where m2: "mem_free m p' = Some m2" "load m2 = (load m)(p' := None)" "fails m2 = fails m" "mem_wf m2"
      using free_live [OF split(2)] p(6) by auto
    have ne: "p' \<noteq> Null" "p \<noteq> p'" "p' \<notin> set (xs @ ys)" "p \<notin> set (xs @ ys)" "distinct (xs @ ys)"
      using split(2) new R(2) 2(2) by auto
    have "map (load m2) (xs @ ys @ [p]) = map Some (pp_readied ?w q)"
      using ne split m2(2) p(4) q map_load_other [of p' xs] map_load_other [of p' ys] by auto
    moreover have "load m2 r \<noteq> None \<Longrightarrow> r \<in> set (xs @ ys @ [p])" for r
      using live1 [of r] 2(2) m2(2) by (auto split: if_splits)
    moreover have "remove1 p' ?ps = xs @ ys"
      using ne(3) 2(2) by (simp add: remove1_append)
    ultimately show ?thesis
      using 2(1,2) p m2 ne laws split(2)
      by (auto simp: pp_worker_new_def pp_worker_ready_def pp_worker_destroy_def s1_def pp_rep_def remove1_append)
  qed
qed

lemma pp_update_swap: "s\<lparr>q_workers := l, q_mem := m\<rparr> = s\<lparr>q_mem := m, q_workers := l\<rparr>"
  by simp

lemma pp_workers_next_ok:
  assumes laws: "pp_laws env" and rep: "pp_rep env s (w # q)"
  shows "\<exists>s'. pp_workers_next True env s = Some (pw_identity w, s') \<and> pp_rep env s' q \<and> q_tick s' = q_tick s \<and>
    q_sent s' = q_sent s \<and> q_heartbeat_at s' = q_heartbeat_at s"
proof -
  note R = pp_repD [OF rep]
  obtain p ps where ps: "zl_items (p_list env) (q_workers s) = p # ps" "load (q_mem s) p = Some w"
      "map (load (q_mem s)) ps = map Some q"
    using R(1) by (cases "zl_items (p_list env) (q_workers s)") auto
  obtain m where m: "store (q_mem s) p (w\<lparr>pw_identity := None\<rparr>) = Some m"
      "load m = (load (q_mem s))(p := Some (w\<lparr>pw_identity := None\<rparr>))" "fails m = fails (q_mem s)" "mem_wf m"
    using store_live [OF ps(2)] R(4) by blast
  have "p \<notin> set ps"
    using R(2) ps(1) by simp
  then have "map (load m) ps = map Some q"
    unfolding m(2) by (simp only: map_load_other ps(3) not_False_eq_True)
  then have "pp_rep env (s\<lparr>q_mem := m\<rparr>) ([] @ w\<lparr>pw_identity := None\<rparr> # q)"
    using R(2,3,5) m ps(1) by (auto simp: pp_rep_def)
  from pp_destroy_ok [OF this, of "[]" p ps "snd (zl_pop (p_list env) (q_workers s))"] show ?thesis
    using ps m(1) laws by (auto simp: pp_workers_next_def pp_update_swap)
qed

lemma pp_purge_loop_ok:
  assumes laws: "pp_laws env" and "pp_rep env s q" and "sorted (map pw_expiry q)"
  shows "\<exists>s'. pp_purge_loop True env (zl_first (p_list env) (q_workers s)) s = Some s' \<and> q_tick s \<le> q_tick s' \<and>
    pp_rep env s' (filter (\<lambda>w. p_clock env (q_tick s' - 1) < pw_expiry w) q) \<and> (q \<noteq> [] \<longrightarrow> q_tick s < q_tick s') \<and>
    q_sent s' = q_sent s \<and> q_heartbeat_at s' = q_heartbeat_at s"
  using assms(2,3)
proof (induction q arbitrary: s)
  case Nil
  then show ?case
    using pp_repD(6) [OF Nil(1)] laws by (auto simp: pp_purge_loop.simps)
next
  case (Cons w q)
  note R = pp_repD [OF Cons.prems(1)]
  obtain p ps where ps: "zl_items (p_list env) (q_workers s) = p # ps" "load (q_mem s) p = Some w"
    using R(1) by (cases "zl_items (p_list env) (q_workers s)") auto
  show ?case
  proof (cases "p_clock env (q_tick s) < pw_expiry w")
    case True
    then have "filter (\<lambda>w. p_clock env (q_tick s) < pw_expiry w) (w # q) = w # q"
      using Cons.prems(2) by (fastforce simp: filter_id_conv)
    then show ?thesis
      using ps laws True Cons.prems(1) by (subst pp_purge_loop.simps) (auto simp: fun_upd_def)
  next
    case False
    let ?s = "s\<lparr>q_tick := Suc (q_tick s)\<rparr>"
    obtain s1 where s1: "pp_worker_destroy True p (?s\<lparr>q_workers := zl_remove (p_list env) p (q_workers s)\<rparr>) = Some s1"
        "pp_rep env s1 q" "q_tick s1 = Suc (q_tick s)" "q_sent s1 = q_sent s" "q_heartbeat_at s1 = q_heartbeat_at s"
      using pp_destroy_ok [of env ?s "[]" w q "[]" p ps "zl_remove (p_list env) p (q_workers s)"] Cons.prems(1) ps laws
      by auto
    obtain s' where s': "pp_purge_loop True env (zl_first (p_list env) (q_workers s1)) s1 = Some s'" "q_tick s1 \<le> q_tick s'"
        "pp_rep env s' (filter (\<lambda>w. p_clock env (q_tick s' - 1) < pw_expiry w) q)"
        "q_sent s' = q_sent s" "q_heartbeat_at s' = q_heartbeat_at s"
      using Cons.IH [OF s1(2)] Cons.prems(2) s1(4,5) by auto
    have "p_clock env (q_tick s) \<le> p_clock env (q_tick s' - 1)"
      using s'(2) s1(3) by (intro pp_clock_mono [OF laws]) auto
    then have "filter (\<lambda>w. p_clock env (q_tick s' - 1) < pw_expiry w) (w # q) =
        filter (\<lambda>w. p_clock env (q_tick s' - 1) < pw_expiry w) q"
      using False by simp
    moreover have "pp_purge_loop True env (zl_first (p_list env) (q_workers s)) s = Some s'"
      using ps laws False s1(1) s'(1) by (subst pp_purge_loop.simps) simp
    ultimately show ?thesis
      using s' s1(3) by auto
  qed
qed

lemma pp_beats_ok:
  assumes "map (load (q_mem s)) ps = map Some q" and "\<forall>w\<in>set q. pw_identity w \<noteq> None"
  shows "pp_beats ps s = Some (s\<lparr>q_sent := q_sent s @ map (\<lambda>w. (Backend, [the (pw_identity w), PPP_HEARTBEAT])) q\<rparr>)"
  using assms
proof (induction ps arbitrary: q s)
  case (Cons p ps)
  then obtain w v where "q = w # v" "load (q_mem s) p = Some w" "map (load (q_mem s)) ps = map Some v"
    by (cases q) auto
  then show ?case
    using Cons.prems(2) by (auto simp: Cons.IH [of _ v] logged_def)
qed simp

lemma pp_heartbeat_ok:
  assumes rep: "pp_rep env s q" and ids: "\<forall>w\<in>set q. pw_identity w \<noteq> None"
  shows "\<exists>s' b. pp_heartbeat env s = Some s' \<and> pp_rep env s' q \<and> q_tick s < q_tick s' \<and>
    q_sent s' = q_sent s @ (if b then map (\<lambda>w. (Backend, [the (pw_identity w), PPP_HEARTBEAT])) q else []) \<and>
    (b \<longleftrightarrow> q_heartbeat_at s \<le> p_clock env (q_tick s))"
  using pp_beats_ok [of "s\<lparr>q_tick := Suc (q_tick s)\<rparr>"] pp_repD(1) [OF rep] ids rep
  by (auto simp: pp_heartbeat_def Let_def)

section \<open>A turn as a step on the list of workers\<close>

text \<open>
  The worker that a message from identity \<open>f\<close> makes at clock reading \<open>t\<close>; the workers and the messages to clients
  after the backend has been read.
\<close>

definition pp_made :: "('m, 'l) pp_env \<Rightarrow> nat \<Rightarrow> byte list \<Rightarrow> pp_worker" where
  "pp_made env t f = \<lparr>pw_identity = Some f, pw_id_string = zf_strhex (p_msg env) f,
     pw_expiry = p_clock env t + PP_INTERVAL * PP_LIVENESS\<rparr>"

definition pp_arrived :: "('m, 'l) pp_env \<Rightarrow> nat \<Rightarrow> 'm option option \<Rightarrow> pp_worker list \<Rightarrow> pp_worker list" where
  "pp_arrived env t be q =
     (case be of Some (Some msg) \<Rightarrow> pp_readied (pp_made env t (hd (zg_frames (p_msg env) msg))) q | _ \<Rightarrow> q)"

definition pp_forwarded :: "('m, 'l) pp_env \<Rightarrow> 'm option option \<Rightarrow> (port \<times> byte list list) list" where
  "pp_forwarded env be =
     (case be of
        Some (Some msg) \<Rightarrow> let fs = unwrapped (zg_frames (p_msg env) msg) in if length fs = 1 then [] else logged Frontend fs
      | _ \<Rightarrow> [])"

text \<open>A message of a worker: an identity, and no single empty frame after it.\<close>

definition pp_good :: "('m, 'l) pp_env \<Rightarrow> 'm option option \<Rightarrow> bool" where
  "pp_good env be \<longleftrightarrow> (\<forall>msg. be = Some (Some msg) \<longrightarrow>
     zg_frames (p_msg env) msg \<noteq> [] \<and> unwrapped (zg_frames (p_msg env) msg) \<noteq> [[]])"

lemma pp_ok_later:
  assumes laws: "pp_laws env" and ok: "pp_ok env t q" and "t \<le> t'"
  shows "pp_ok env t' q"
proof -
  have "p_clock env (t - 1) \<le> p_clock env (t' - 1)"
    using assms(3) by (intro pp_clock_mono [OF laws]) auto
  then show ?thesis
    using ok assms(3) by (fastforce simp: pp_ok_def)
qed

lemma pp_ok_sub: "pp_ok env t q \<Longrightarrow> pp_ok env t (tl q)" "pp_ok env t q \<Longrightarrow> pp_ok env t (filter P q)"
  by (cases q; auto simp: pp_ok_def) (auto simp: pp_ok_def sorted_filter distinct_map_filter)

lemma pp_ok_snoc:
  assumes "pp_ok env t q" and "pw_id_string w \<notin> pw_id_string ` set q" and "\<forall>v\<in>set q. pw_expiry v \<le> pw_expiry w"
    and "pw_expiry w \<le> p_clock env (t - 1) + PP_INTERVAL * PP_LIVENESS"
    and "map_option (zf_strhex (p_msg env)) (pw_identity w) = Some (pw_id_string w)"
  shows "pp_ok env t (q @ [w])"
  using assms unfolding pp_ok_def by (simp add: sorted_append)

lemma pp_ok_readied:
  assumes laws: "pp_laws env" and ok: "pp_ok env t q"
  shows "pp_ok env (Suc t) (pp_readied (pp_made env t f) q)"
  unfolding pp_readied_def
proof (rule pp_ok_snoc)
  show "pp_ok env (Suc t) (filter (\<lambda>v. pw_id_string v \<noteq> pw_id_string (pp_made env t f)) q)"
    by (rule pp_ok_later [OF laws pp_ok_sub(2) [OF ok]]) simp
  have "p_clock env (t - 1) \<le> p_clock env t"
    by (rule pp_clock_mono [OF laws]) simp
  then show "\<forall>v\<in>set (filter (\<lambda>v. pw_id_string v \<noteq> pw_id_string (pp_made env t f)) q). pw_expiry v \<le> pw_expiry (pp_made env t f)"
    using ok unfolding pp_ok_def pp_made_def by force
qed (auto simp: pp_made_def)

lemma pp_backend_ok:
  assumes laws: "pp_laws env" and rep: "pp_rep env s q" and ok: "pp_ok env (q_tick s) q" and good: "pp_good env be"
  shows "\<exists>s'. pp_backend True env be s = Some (be \<noteq> Some None, s') \<and> pp_rep env s' (pp_arrived env (q_tick s) be q) \<and>
    pp_ok env (q_tick s') (pp_arrived env (q_tick s) be q) \<and> q_sent s' = q_sent s @ pp_forwarded env be \<and>
    q_heartbeat_at s' = q_heartbeat_at s"
proof (cases "\<exists>msg. be = Some (Some msg)")
  case False
  then consider "be = None" | "be = Some None"
    by (metis option.exhaust)
  then show ?thesis
    using rep ok by cases (simp_all add: pp_arrived_def pp_forwarded_def)
next
  case True
  then obtain msg where be: "be = Some (Some msg)"
    by blast
  let ?fs = "zg_frames (p_msg env) msg"
  have fs: "?fs \<noteq> []" "unwrapped ?fs \<noteq> [[]]"
    using good be by (auto simp: pp_good_def)
  obtain s1 where s1: "Option.bind (pp_worker_new env (Some (hd ?fs)) s) (\<lambda>(p, s). pp_worker_ready True env p s) = Some s1"
      "pp_rep env s1 (pp_readied (pp_made env (q_tick s) (hd ?fs)) q)" "q_tick s1 = Suc (q_tick s)" "q_sent s1 = q_sent s"
      "q_heartbeat_at s1 = q_heartbeat_at s"
    using pp_ready_ok [OF laws rep, of "hd ?fs"] ok unfolding pp_made_def by (auto simp: pp_ok_def)
  obtain p s0 where s0: "pp_worker_new env (Some (hd ?fs)) s = Some (p, s0)" "pp_worker_ready True env p s0 = Some s1"
    using s1(1) by (auto simp: bind_eq_Some)
  have "length (unwrapped ?fs) = 1 \<Longrightarrow> unwrapped ?fs \<noteq> [] \<and> hd (unwrapped ?fs) \<noteq> []"
    using fs(2) by (cases "unwrapped ?fs") auto
  then have "pp_backend True env be s = Some (True, s1\<lparr>q_sent := q_sent s1 @ pp_forwarded env be\<rparr>)"
    using be fs(1) s0 laws by (auto simp: pp_forwarded_def Let_def case_prod_beta)
  then show ?thesis
    using s1 be pp_ok_readied [OF laws ok] by (simp add: pp_arrived_def)
qed

lemma pp_frontend_ok:
  assumes laws: "pp_laws env" and rep: "pp_rep env s q" and ok: "pp_ok env t q" and ne: "fe \<noteq> None \<Longrightarrow> q \<noteq> []"
  shows "\<exists>s'. pp_frontend True env fe s = Some (fe \<noteq> Some None, s') \<and>
    pp_rep env s' (case fe of Some (Some _) \<Rightarrow> tl q | _ \<Rightarrow> q) \<and> q_tick s' = q_tick s \<and> q_heartbeat_at s' = q_heartbeat_at s \<and>
    q_sent s' = q_sent s @ (case fe of
      Some (Some msg) \<Rightarrow> [(Backend, the (pw_identity (hd q)) # zg_frames (p_msg env) msg)] | _ \<Rightarrow> [])"
proof (cases "\<exists>msg. fe = Some (Some msg)")
  case False
  then consider "fe = None" | "fe = Some None"
    by (metis option.exhaust)
  then show ?thesis
    using rep by cases simp_all
next
  case True
  then obtain msg w v where m: "fe = Some (Some msg)" "q = w # v"
    using ne by (cases q) auto
  obtain f where "pw_identity w = Some f"
    using ok m(2) by (auto simp: pp_ok_def)
  then show ?thesis
    using pp_workers_next_ok [OF laws, of s w v] rep m laws by (auto simp: logged_def)
qed

lemma pp_arrived_ne: "q \<noteq> [] \<Longrightarrow> pp_arrived env t be q \<noteq> []"
  by (auto simp: pp_arrived_def pp_readied_def split: option.splits)

lemma pp_ok_identity: "pp_ok env t q \<Longrightarrow> \<forall>w\<in>set q. pw_identity w \<noteq> None"
  by (auto simp: pp_ok_def)

text \<open>What follows the two sockets in a turn.\<close>

lemma pp_rest_ok:
  assumes laws: "pp_laws env" and rep: "pp_rep env s q" and ok: "pp_ok env (q_tick s) q"
  shows "\<exists>s1 s' b. pp_heartbeat env s = Some s1 \<and> pp_workers_purge True env s1 = Some s' \<and>
    pp_rep env s' (filter (\<lambda>w. p_clock env (q_tick s' - 1) < pw_expiry w) q) \<and> pp_ok env (q_tick s') q \<and>
    q_sent s' = q_sent s @ (if b then map (\<lambda>w. (Backend, [the (pw_identity w), PPP_HEARTBEAT])) q else []) \<and>
    (b \<longleftrightarrow> q_heartbeat_at s \<le> p_clock env (q_tick s))"
proof -
  obtain s1 b where s1: "pp_heartbeat env s = Some s1" "pp_rep env s1 q" "q_tick s < q_tick s1"
      "q_sent s1 = q_sent s @ (if b then map (\<lambda>w. (Backend, [the (pw_identity w), PPP_HEARTBEAT])) q else [])"
      "b \<longleftrightarrow> q_heartbeat_at s \<le> p_clock env (q_tick s)"
    using pp_heartbeat_ok [OF rep pp_ok_identity [OF ok]] by blast
  have "sorted (map pw_expiry q)"
    using ok by (simp add: pp_ok_def)
  then obtain s' where s': "pp_workers_purge True env s1 = Some s'" "q_tick s1 \<le> q_tick s'" "q_sent s' = q_sent s1"
      "pp_rep env s' (filter (\<lambda>w. p_clock env (q_tick s' - 1) < pw_expiry w) q)"
    using pp_purge_loop_ok [OF laws s1(2)] by (auto simp: pp_workers_purge_def)
  have "pp_ok env (q_tick s') q"
    using s1(3) s'(2) by (intro pp_ok_later [OF laws ok]) auto
  then show ?thesis
    using s1 s' by (intro exI [of _ s1] exI [of _ s'] exI [of _ b]) auto
qed

lemma pp_turn_ok:
  assumes laws: "pp_laws env" and rep: "pp_rep env s q" and ok: "pp_ok env (q_tick s) q"
    and good: "\<And>be fe. i = Polled be fe \<Longrightarrow> pp_good env be"
  shows "\<exists>go s' q'. pp_turn True env i s = Some (go, s') \<and> pp_rep env s' q' \<and> pp_ok env (q_tick s') q'"
proof (cases i)
  case (Polled be fe)
  let ?fe = "if zl_size (p_list env) (q_workers s) \<noteq> 0 then fe else None"
  let ?q = "pp_arrived env (q_tick s) be q"
  obtain s1 where s1: "pp_backend True env be s = Some (be \<noteq> Some None, s1)" "pp_rep env s1 ?q" "pp_ok env (q_tick s1) ?q"
    using pp_backend_ok [OF laws rep ok good [OF Polled]] by blast
  have "?fe \<noteq> None \<Longrightarrow> ?q \<noteq> []"
    using pp_repD(6) [OF rep] laws by (auto intro!: pp_arrived_ne split: if_splits)
  then obtain s2 q2 where s2: "pp_frontend True env ?fe s1 = Some (?fe \<noteq> Some None, s2)" "pp_rep env s2 q2"
      "q2 = (case ?fe of Some (Some _) \<Rightarrow> tl ?q | _ \<Rightarrow> ?q)" "q_tick s2 = q_tick s1"
    using pp_frontend_ok [OF laws s1(2,3), of ?fe] by blast
  have ok2: "pp_ok env (q_tick s2) q2"
    using s1(3) s2(3,4) pp_ok_sub(1) [OF s1(3)] by (auto split: option.splits)
  obtain s3 s4 where s4: "pp_heartbeat env s2 = Some s3" "pp_workers_purge True env s3 = Some s4"
      "pp_rep env s4 (filter (\<lambda>w. p_clock env (q_tick s4 - 1) < pw_expiry w) q2)" "pp_ok env (q_tick s4) q2"
    using pp_rest_ok [OF laws s2(2) ok2] by blast
  have ok4: "pp_ok env (q_tick s4) (filter (\<lambda>w. p_clock env (q_tick s4 - 1) < pw_expiry w) q2)"
    by (rule pp_ok_sub(2) [OF s4(4)])
  have "pp_turn True env i s = Some (if be = Some None then (False, s1) else if ?fe = Some None then (False, s2) else (True, s4))"
    using Polled s1(1) s2(1) s4(1,2) by (simp add: Let_def del: pp_backend.simps pp_frontend.simps split del: if_split) auto
  then show ?thesis
    using s1(2,3) s2(2) ok2 s4(3) ok4 by (cases "be = Some None"; cases "?fe = Some None") force+
qed (use rep ok in auto)

lemma pp_new_ok:
  assumes "pp_laws env"
  shows "pp_rep env (pp_new env (\<lambda>_. False)) []" "pp_ok env (q_tick (pp_new env (\<lambda>_. False))) []"
  using assms by (simp_all add: pp_rep_def pp_new_def pp_ok_def)

lemma pp_loop_ok:
  assumes "pp_laws env" and "pp_rep env s q" and "pp_ok env (q_tick s) q" and "\<forall>be fe. Polled be fe \<in> set is \<longrightarrow> pp_good env be"
  shows "\<exists>go s' q'. pp_loop True env is s = Some (go, s') \<and> pp_rep env s' q' \<and> pp_ok env (q_tick s') q'"
  using assms
proof (induction "is" arbitrary: s q)
  case (Cons i "is")
  obtain go s' q' where s': "pp_turn True env i s = Some (go, s')" "pp_rep env s' q'" "pp_ok env (q_tick s') q'"
    using pp_turn_ok [OF Cons.prems(1-3), of i] Cons.prems(4) by auto
  show ?case
    using Cons.IH [OF Cons.prems(1) s'(2,3)] Cons.prems(4) s' by (cases go) auto
qed auto

lemma pp_cleanup_ok:
  assumes "pp_laws env" and "pp_rep env s q"
  shows "\<exists>s'. pp_cleanup True env s = Some s' \<and> pp_rep env s' []"
  using assms(2)
proof (induction q arbitrary: s)
  case Nil
  then show ?case
    using pp_repD(6) [OF Nil] assms(1) by (subst pp_cleanup.simps) auto
next
  case (Cons w q)
  obtain p ps where ps: "zl_items (p_list env) (q_workers s) = p # ps"
    using pp_repD(6) [OF Cons.prems] by (cases "zl_items (p_list env) (q_workers s)") auto
  obtain s1 where "pp_worker_destroy True p (s\<lparr>q_workers := snd (zl_pop (p_list env) (q_workers s))\<rparr>) = Some s1" "pp_rep env s1 q"
    using pp_destroy_ok [of env s "[]" w q "[]" p ps "snd (zl_pop (p_list env) (q_workers s))"] Cons.prems ps assms(1) by auto
  then show ?case
    using Cons.IH [of s1] ps assms(1) by (subst pp_cleanup.simps) auto
qed

lemma pp_reached:
  assumes "pp_laws env" and "\<forall>be fe. Polled be fe \<in> set is \<longrightarrow> pp_good env be"
    and "pp_loop True env is (pp_new env (\<lambda>_. False)) = Some (go, s)"
  shows "\<exists>q. pp_rep env s q \<and> pp_ok env (q_tick s) q"
  using pp_loop_ok [OF assms(1) pp_new_ok [OF assms(1)] assms(2)] assms(3) by auto

section \<open>Properties of the paranoid pirate queue\<close>



text \<open>
  As the source has it, line 29 takes the address of the caller's variable for the worker: with any worker listed, a
  client's request is undefined behaviour.
\<close>

theorem ppqueue_request_undefined:
  assumes "zlist_laws (p_list env)" and "zl_items (p_list env) (q_workers s) \<noteq> []"
  shows "pp_turn False env (Polled None (Some (Some msg))) s = None"
  using assms by (auto simp: pp_workers_next_def pp_worker_destroy_def Let_def split: bind_splits)

section \<open>The simple pirate queue: dispatch\<close>

text \<open>
  A turn of the simple pirate queue on the list of identities: a worker that says anything goes to the end, a client's request to
  the worker at the front, and nothing is undefined.
\<close>

lemma sp_turn_ok:
  assumes laws: "zmsg_laws zg" "zlist_laws zl"
    and bm: "zg_frames zg bm = f # [] # (b # bs) # fs" and q: "zl_items zl workers = g # gs"
  shows "\<exists>w1. sp_turn zg zl (Polled (Some (Some bm)) (Some (Some fm))) (workers, sent) =
    Some (True, w1, sent @ (if b = 1 then [] else [(Frontend, (b # bs) # fs)]) @ [(Backend, g # [] # zg_frames zg fm)]) \<and>
    zl_items zl w1 = gs @ [f]"
  using assms by (simp add: case_prod_beta Let_def logged_def WORKER_READY_def)

lemma sp_cleanup_ends:
  assumes "zlist_laws zl"
  shows "\<exists>l. sp_cleanup zl workers = Some l \<and> zl_items zl l = []"
proof (induction "zl_items zl workers" arbitrary: workers)
  case Nil
  then show ?case
    using assms by (subst sp_cleanup.simps) simp
next
  case (Cons x xs)
  then show ?case
    using Cons.hyps(1) [of "snd (zl_pop zl workers)"] assms by (subst sp_cleanup.simps) (auto simp flip: Cons.hyps(2))
qed

section \<open>Witnesses\<close>

text \<open>A worker that says that it is ready, and a request, at time 0.\<close>

definition ex_penv :: "(byte list list, ptr list) pp_env" where
  "ex_penv = \<lparr>p_msg = ex_zmsg, p_list = ex_zlist, p_clock = (\<lambda>_. 0)\<rparr>"

declare pp_purge_loop.simps [code] pp_cleanup.simps [code]

lemma ex_penv_laws: "pp_laws ex_penv"
  by (simp add: pp_laws_def ex_penv_def ex_zmsg_laws ex_zlist_laws monoI)

lemma ex_penv_good: "pp_good ex_penv (Some (Some [[7], [1]]))" "pp_good ex_penv None"
  by (simp_all add: pp_good_def ex_penv_def ex_zmsg_def)

definition ex_ready_state :: "(byte list list, ptr list) pp_state" where
  "ex_ready_state = snd (the (pp_loop True ex_penv [Polled (Some (Some [[7], [1]])) None] (pp_new ex_penv (\<lambda>_. False))))"

lemma ex_ready_reached:
  "pp_loop True ex_penv [Polled (Some (Some [[7], [1]])) None] (pp_new ex_penv (\<lambda>_. False)) = Some (True, ex_ready_state)"
proof -
  have "map_option fst (pp_loop True ex_penv [Polled (Some (Some [[7], [1]])) None] (pp_new ex_penv (\<lambda>_. False))) = Some True"
    by code_simp
  then show ?thesis
    unfolding ex_ready_state_def by (metis (no_types, lifting) map_option_eq_Some option.sel prod.collapse)
qed



theorem ppqueue_request_undefined_witness:
  "pp_turn False ex_penv (Polled None (Some (Some [[8], [], [9]]))) ex_ready_state = None"
proof -
  have "zl_items (p_list ex_penv) (q_workers ex_ready_state) = [Ptr 0]"
    unfolding ex_ready_state_def by code_simp
  then show ?thesis
    using ppqueue_request_undefined [of ex_penv ex_ready_state] by (simp add: ex_penv_laws)
qed

end
