(* ===== verification/Mdp_Peers.thy ===== *)
theory Mdp_Peers
  imports Mdbroker
begin

text \<open>
  The worker API \<^verbatim>\<open>lib/zeromq/MDP/mdwrkapi.c\<close> and the client APIs \<^verbatim>\<open>mdcliapi.c\<close> and \<^verbatim>\<open>mdcliapi2.c\<close>, with
  the loops of the programs \<^verbatim>\<open>mdworker.c\<close>, \<^verbatim>\<open>mdclient.c\<close> and \<^verbatim>\<open>mdclient2.c\<close> on top of them. What the
  calls do to sockets is a log of events; what \<^verbatim>\<open>zmq_poll\<close> and \<^verbatim>\<open>zmsg_recv\<close> give, turn by turn, is a
  list, and a call that has used up its list is still waiting.
\<close>

section \<open>The worker\<close>

datatype 'm event = Connect | Send 'm | Sleep int

text \<open>
  A frame that was given to \<^verbatim>\<open>zmsg_wrap\<close> belongs to the message and is freed with it: \<open>Freed\<close>.
\<close>

datatype frame_ref = No_frame | Frame "byte list" | Freed

record 'm mdwrk =
  mw_service :: "byte list"
  mw_heartbeat_at :: int
  mw_liveness :: "64 word"
  mw_heartbeat :: int
  mw_reconnect :: int
  mw_expect_reply :: bool
  mw_reply_to :: frame_ref
  mw_log :: "'m event list"
  mw_tick :: nat

definition s_mdwrk_send_to_broker ::
  "'m zmsg_api \<Rightarrow> byte list \<Rightarrow> byte list option \<Rightarrow> 'm option \<Rightarrow> 'm mdwrk \<Rightarrow> 'm mdwrk" where
  "s_mdwrk_send_to_broker zg command opt msg self =
     (let msg = (case msg of Some m \<Rightarrow> zg_dup zg m | None \<Rightarrow> zg_new zg);
          msg = (case opt of Some f \<Rightarrow> zg_push zg f msg | None \<Rightarrow> msg);
          msg = zg_push zg command msg;
          msg = zg_push zg MDPW_WORKER msg;
          msg = zg_push zg [] msg
      in self\<lparr>mw_log := mw_log self @ [Send msg]\<rparr>)"

definition s_mdwrk_connect_to_broker :: "'m zmsg_api \<Rightarrow> (nat \<Rightarrow> int) \<Rightarrow> 'm mdwrk \<Rightarrow> 'm mdwrk" where
  "s_mdwrk_connect_to_broker zg clock self =
     (let self = self\<lparr>mw_log := mw_log self @ [Connect]\<rparr>;
          self = s_mdwrk_send_to_broker zg MDPW_READY (Some (mw_service self)) None self
      in self\<lparr>mw_liveness := 3, mw_heartbeat_at := clock (mw_tick self) + mw_heartbeat self,
              mw_tick := Suc (mw_tick self)\<rparr>)"

definition mdwrk_new :: "'m zmsg_api \<Rightarrow> (nat \<Rightarrow> int) \<Rightarrow> byte list \<Rightarrow> 'm mdwrk" where
  "mdwrk_new zg clock service = s_mdwrk_connect_to_broker zg clock
     \<lparr>mw_service = service, mw_heartbeat_at = 0, mw_liveness = 0, mw_heartbeat = 2500, mw_reconnect = 2500,
      mw_expect_reply = False, mw_reply_to = No_frame, mw_log = [], mw_tick = 0\<rparr>"

definition mdwrk_set_heartbeat :: "'m mdwrk \<Rightarrow> int \<Rightarrow> 'm mdwrk" where
  "mdwrk_set_heartbeat self heartbeat = self\<lparr>mw_heartbeat := heartbeat\<rparr>"

definition mdwrk_set_reconnect :: "'m mdwrk \<Rightarrow> int \<Rightarrow> 'm mdwrk" where
  "mdwrk_set_reconnect self reconnect = self\<lparr>mw_reconnect := reconnect\<rparr>"

text \<open>
  What \<^verbatim>\<open>mdwrk_destroy\<close> releases, in order, and what it leaves in the variable of the caller. The frame of the last request is not released.
\<close>

datatype resource = Context | Broker_text | Service_text | Session

definition mdwrk_destroy :: "'m mdwrk option \<Rightarrow> resource list \<times> 'm mdwrk option" where
  "mdwrk_destroy self_p = (case self_p of None \<Rightarrow> ([], None) | Some self \<Rightarrow> ([Context, Broker_text, Service_text, Session], None))"

text \<open>The end of a turn of the loop of \<^verbatim>\<open>mdwrk_recv\<close>.\<close>

definition mdwrk_heartbeat :: "'m zmsg_api \<Rightarrow> (nat \<Rightarrow> int) \<Rightarrow> 'm mdwrk \<Rightarrow> 'm mdwrk" where
  "mdwrk_heartbeat zg clock self =
     (let now = clock (mw_tick self); self = self\<lparr>mw_tick := Suc (mw_tick self)\<rparr> in
      if now > mw_heartbeat_at self
      then let self = s_mdwrk_send_to_broker zg MDPW_HEARTBEAT None None self
           in self\<lparr>mw_heartbeat_at := clock (mw_tick self) + mw_heartbeat self, mw_tick := Suc (mw_tick self)\<rparr>
      else self)"

text \<open>
  A received message: the request to return, if it is one, and the new state. \<^const>\<open>None\<close> is a failed
  \<^verbatim>\<open>assert\<close>.
\<close>

definition mdwrk_input :: "'m zmsg_api \<Rightarrow> (nat \<Rightarrow> int) \<Rightarrow> 'm \<Rightarrow> 'm mdwrk \<Rightarrow> ('m option \<times> 'm mdwrk) option" where
  "mdwrk_input zg clock msg self = do {
     let self = self\<lparr>mw_liveness := 3\<rparr>;
     _ \<leftarrow> (if zg_size zg msg \<ge> 3 then Some () else None);
     empty \<leftarrow> fst (zg_pop zg msg);
     let msg = snd (zg_pop zg msg);
     _ \<leftarrow> (if empty = [] then Some () else None);
     header \<leftarrow> fst (zg_pop zg msg);
     let msg = snd (zg_pop zg msg);
     _ \<leftarrow> (if header = MDPW_WORKER then Some () else None);
     command \<leftarrow> fst (zg_pop zg msg);
     let msg = snd (zg_pop zg msg);
     if command = MDPW_REQUEST then
       Some (Some (snd (zg_unwrap zg msg)),
             self\<lparr>mw_reply_to := (case fst (zg_unwrap zg msg) of None \<Rightarrow> No_frame | Some f \<Rightarrow> Frame f)\<rparr>)
     else if command = MDPW_HEARTBEAT then Some (None, self)
     else if command = MDPW_DISCONNECT then Some (None, s_mdwrk_connect_to_broker zg clock self)
     else Some (None, self)
   }"

text \<open>A poll that gives nothing.\<close>

definition mdwrk_timeout :: "'m zmsg_api \<Rightarrow> (nat \<Rightarrow> int) \<Rightarrow> 'm mdwrk \<Rightarrow> 'm mdwrk" where
  "mdwrk_timeout zg clock self =
     (let self = self\<lparr>mw_liveness := mw_liveness self - 1\<rparr> in
      if mw_liveness self = 0
      then s_mdwrk_connect_to_broker zg clock (self\<lparr>mw_log := mw_log self @ [Sleep (mw_reconnect self)]\<rparr>)
      else self)"

datatype 'm outcome = Waiting | Returned "'m option"

fun mdwrk_loop :: "'m zmsg_api \<Rightarrow> (nat \<Rightarrow> int) \<Rightarrow> 'm poll list \<Rightarrow> 'm mdwrk \<Rightarrow> ('m outcome \<times> 'm poll list \<times> 'm mdwrk) option" where
  "mdwrk_loop zg clock [] self = Some (Waiting, [], self)"
| "mdwrk_loop zg clock (Poll_error # is) self = Some (Returned None, is, self)"
| "mdwrk_loop zg clock (Recv_null # is) self = Some (Returned None, is, self)"
| "mdwrk_loop zg clock (Recv msg # is) self = do {
     (r, self) \<leftarrow> mdwrk_input zg clock msg self;
     (case r of
        Some m \<Rightarrow> Some (Returned (Some m), is, self)
      | None \<Rightarrow> mdwrk_loop zg clock is (mdwrk_heartbeat zg clock self))
   }"
| "mdwrk_loop zg clock (No_input # is) self =
     mdwrk_loop zg clock is (mdwrk_heartbeat zg clock (mdwrk_timeout zg clock self))"

definition mdwrk_recv ::
  "'m zmsg_api \<Rightarrow> (nat \<Rightarrow> int) \<Rightarrow> 'm option \<Rightarrow> 'm poll list \<Rightarrow> 'm mdwrk \<Rightarrow> ('m outcome \<times> 'm poll list \<times> 'm mdwrk) option" where
  "mdwrk_recv zg clock reply is self = do {
     _ \<leftarrow> (if reply \<noteq> None \<or> \<not> mw_expect_reply self then Some () else None);
     self \<leftarrow> (case reply of
        None \<Rightarrow> Some self
      | Some m \<Rightarrow>
          (case mw_reply_to self of
             Frame f \<Rightarrow> Some ((s_mdwrk_send_to_broker zg MDPW_REPLY None (Some (zg_wrap zg f m)) self)
                               \<lparr>mw_reply_to := Freed\<rparr>)
           | _ \<Rightarrow> None));
     mdwrk_loop zg clock is (self\<lparr>mw_expect_reply := True\<rparr>)
   }"

lemma mdwrk_loop_shorter:
  "mdwrk_loop zg clock is self = Some (Returned r, is1, self1) \<Longrightarrow> length is1 < length is"
proof (induction "is" arbitrary: self)
  case (Cons i "is")
  have IH: "mdwrk_loop zg clock is self = Some (Returned r, is1, self1) \<Longrightarrow> length is1 < length (i # is)" for self
    using Cons.IH [of self] by simp
  show ?case
    using Cons.prems by (cases i) (auto simp: Let_def bind_eq_Some split: option.splits dest: IH)
qed simp

lemma mdwrk_recv_shorter:
  "mdwrk_recv zg clock reply is self = Some (Returned r, is1, self1) \<Longrightarrow> length is1 < length is"
  by (auto simp: mdwrk_recv_def bind_eq_Some dest: mdwrk_loop_shorter)

text \<open>The loop of \<^verbatim>\<open>mdworker.c\<close>: every request is its own reply.\<close>

function mdworker_main ::
  "'m zmsg_api \<Rightarrow> (nat \<Rightarrow> int) \<Rightarrow> 'm option \<Rightarrow> 'm poll list \<Rightarrow> 'm mdwrk \<Rightarrow> 'm mdwrk option" where
  "mdworker_main zg clock reply is session =
     (case mdwrk_recv zg clock reply is session of
        None \<Rightarrow> None
      | Some (Returned (Some request), is1, session1) \<Rightarrow> mdworker_main zg clock (Some request) is1 session1
      | Some (_, _, session1) \<Rightarrow> Some session1)"
  by pat_completeness auto
termination
  by (relation "measure (\<lambda>(_, _, _, is, _). length is)") (auto dest: mdwrk_recv_shorter)

declare mdworker_main.simps [simp del]

section \<open>The client with retries\<close>

record 'm mdcli =
  mc_timeout :: int
  mc_retries :: int
  mc_log :: "'m event list"

definition s_mdcli_connect_to_broker :: "'m mdcli \<Rightarrow> 'm mdcli" where
  "s_mdcli_connect_to_broker self = self\<lparr>mc_log := mc_log self @ [Connect]\<rparr>"

definition mdcli_new :: "'m mdcli" where
  "mdcli_new = s_mdcli_connect_to_broker \<lparr>mc_timeout = 2500, mc_retries = 3, mc_log = []\<rparr>"

definition mdcli_destroy :: "'m mdcli option \<Rightarrow> resource list \<times> 'm mdcli option" where
  "mdcli_destroy self_p = (case self_p of None \<Rightarrow> ([], None) | Some self \<Rightarrow> ([Context, Broker_text, Session], None))"

definition mdcli_set_timeout :: "'m mdcli \<Rightarrow> int \<Rightarrow> 'm mdcli" where
  "mdcli_set_timeout self timeout = self\<lparr>mc_timeout := timeout\<rparr>"

definition mdcli_set_retries :: "'m mdcli \<Rightarrow> int \<Rightarrow> 'm mdcli" where
  "mdcli_set_retries self retries = self\<lparr>mc_retries := retries\<rparr>"

text \<open>
  The checks on a reply. The loop of \<^verbatim>\<open>mdcli_send\<close>: each input is the value of \<^verbatim>\<open>zctx_interrupted\<close> at the
  head of a turn and what the poll gives in it.
\<close>

definition mdcli_reply :: "'m zmsg_api \<Rightarrow> byte list \<Rightarrow> 'm \<Rightarrow> 'm option" where
  "mdcli_reply zg service msg = do {
     _ \<leftarrow> (if zg_size zg msg \<ge> 3 then Some () else None);
     header \<leftarrow> fst (zg_pop zg msg);
     let msg = snd (zg_pop zg msg);
     _ \<leftarrow> (if header = MDPC_CLIENT then Some () else None);
     reply_service \<leftarrow> fst (zg_pop zg msg);
     let msg = snd (zg_pop zg msg);
     _ \<leftarrow> (if reply_service = service then Some () else None);
     Some msg
   }"

fun mdcli_loop ::
  "'m zmsg_api \<Rightarrow> byte list \<Rightarrow> 'm \<Rightarrow> int \<Rightarrow> (bool \<times> 'm poll) list \<Rightarrow> 'm mdcli \<Rightarrow> ('m outcome \<times> 'm mdcli) option" where
  "mdcli_loop zg service request retries_left [] self =
     Some (if retries_left = 0 then Returned None else Waiting, self)"
| "mdcli_loop zg service request retries_left ((interrupted, i) # is) self =
     (if retries_left = 0 \<or> interrupted then Some (Returned None, self)
      else
        let self = self\<lparr>mc_log := mc_log self @ [Send (zg_dup zg request)]\<rparr> in
        case i of
          Poll_error \<Rightarrow> Some (Returned None, self)
        | Recv_null \<Rightarrow> None
        | Recv msg \<Rightarrow> do { m \<leftarrow> mdcli_reply zg service msg; Some (Returned (Some m), self) }
        | No_input \<Rightarrow> do {
            left \<leftarrow> c_int (retries_left - 1);
            if left \<noteq> 0 then mdcli_loop zg service request left is (s_mdcli_connect_to_broker self)
            else Some (Returned None, self)
          })"

definition mdcli_send ::
  "'m zmsg_api \<Rightarrow> byte list \<Rightarrow> 'm \<Rightarrow> (bool \<times> 'm poll) list \<Rightarrow> 'm mdcli \<Rightarrow> ('m outcome \<times> 'm mdcli) option" where
  "mdcli_send zg service request is self =
     (let request = zg_push zg MDPC_CLIENT (zg_push zg service request)
      in mdcli_loop zg service request (mc_retries self) is self)"

text \<open>
  The loop of \<^verbatim>\<open>mdclient.c\<close>, on the inputs of each call: the number of replies, and the session.
\<close>

fun mdclient_main ::
  "'m zmsg_api \<Rightarrow> nat \<Rightarrow> (bool \<times> 'm poll) list list \<Rightarrow> 'm mdcli \<Rightarrow> (nat \<times> 'm mdcli) option" where
  "mdclient_main zg n [] session = Some (n, session)"
| "mdclient_main zg n (is # iss) session =
     (if n < 100000 then do {
        let request = zg_push zg (bytes ''Hello world'') (zg_new zg);
        (r, session) \<leftarrow> mdcli_send zg (bytes ''echo'') request is session;
        (case r of
           Returned (Some _) \<Rightarrow> mdclient_main zg (Suc n) iss session
         | _ \<Rightarrow> Some (n, session))
      } else Some (n, session))"

section \<open>The asynchronous client\<close>

definition mdcli2_send :: "'m zmsg_api \<Rightarrow> byte list \<Rightarrow> 'm \<Rightarrow> 'm mdcli \<Rightarrow> 'm mdcli" where
  "mdcli2_send zg service request self =
     (let request = zg_push zg [] (zg_push zg MDPC_CLIENT (zg_push zg service request))
      in self\<lparr>mc_log := mc_log self @ [Send request]\<rparr>)"

definition mdcli2_recv :: "'m zmsg_api \<Rightarrow> 'm poll \<Rightarrow> 'm option option" where
  "mdcli2_recv zg i =
     (case i of
        Poll_error \<Rightarrow> Some None
      | No_input \<Rightarrow> Some None
      | Recv_null \<Rightarrow> None
      | Recv msg \<Rightarrow> do {
          _ \<leftarrow> (if zg_size zg msg \<ge> 4 then Some () else None);
          empty \<leftarrow> fst (zg_pop zg msg);
          let msg = snd (zg_pop zg msg);
          _ \<leftarrow> (if empty = [] then Some () else None);
          header \<leftarrow> fst (zg_pop zg msg);
          let msg = snd (zg_pop zg msg);
          _ \<leftarrow> (if header = MDPC_CLIENT then Some () else None);
          _ \<leftarrow> fst (zg_pop zg msg);
          Some (Some (snd (zg_pop zg msg)))
        })"

text \<open>The two loops of \<^verbatim>\<open>mdclient2.c\<close>: the requests, and the number of replies.\<close>

fun mdclient2_requests :: "'m zmsg_api \<Rightarrow> nat \<Rightarrow> 'm mdcli \<Rightarrow> 'm mdcli" where
  "mdclient2_requests zg 0 session = session"
| "mdclient2_requests zg (Suc n) session =
     mdclient2_requests zg n (mdcli2_send zg (bytes ''echo'') (zg_push zg (bytes ''Hello world'') (zg_new zg)) session)"


fun mdclient2_main :: "'m zmsg_api \<Rightarrow> nat \<Rightarrow> 'm poll list \<Rightarrow> nat option" where
  "mdclient2_main zg n [] = Some n"
| "mdclient2_main zg n (i # is) =
     (if n < 100000 then do {
        r \<leftarrow> mdcli2_recv zg i;
        (case r of Some _ \<Rightarrow> mdclient2_main zg (Suc n) is | None \<Rightarrow> Some n)
      } else Some n)"

section \<open>Lemmas\<close>

text \<open>A session is released once, however often it is destroyed.\<close>

lemma destroyed_once:
  "mdwrk_destroy (snd (mdwrk_destroy w)) = ([], None)" "distinct (fst (mdwrk_destroy w))"
  "mdcli_destroy (snd (mdcli_destroy c)) = ([], None)" "distinct (fst (mdcli_destroy c))"
  by (auto simp: mdwrk_destroy_def mdcli_destroy_def split: option.splits)

lemma mdwrk_send_log:
  assumes "zmsg_laws zg"
  shows "\<exists>x. s_mdwrk_send_to_broker zg command opt msg self = self\<lparr>mw_log := mw_log self @ [Send x]\<rparr> \<and>
    zg_frames zg x = [] # MDPW_WORKER # command # (case opt of None \<Rightarrow> [] | Some f \<Rightarrow> [f]) @
      (case msg of None \<Rightarrow> [] | Some m \<Rightarrow> zg_frames zg m)"
  using assms by (auto simp: s_mdwrk_send_to_broker_def Let_def split: option.splits)

lemma mdwrk_connect_log:
  assumes "zmsg_laws zg"
  shows "\<exists>x. s_mdwrk_connect_to_broker zg clock self =
      self\<lparr>mw_log := mw_log self @ [Connect, Send x], mw_liveness := 3,
          mw_heartbeat_at := clock (mw_tick self) + mw_heartbeat self, mw_tick := Suc (mw_tick self)\<rparr> \<and>
    zg_frames zg x = [[], MDPW_WORKER, MDPW_READY, mw_service self]"
  using assms by (auto simp: s_mdwrk_connect_to_broker_def s_mdwrk_send_to_broker_def Let_def)

definition is_heartbeat :: "'m zmsg_api \<Rightarrow> 'm event \<Rightarrow> bool" where
  "is_heartbeat zg e \<longleftrightarrow> (\<exists>x. e = Send x \<and> zg_frames zg x = [[], MDPW_WORKER, MDPW_HEARTBEAT])"

lemma mdwrk_heartbeat_log:
  assumes "zmsg_laws zg"
  shows "\<exists>es. mw_log (mdwrk_heartbeat zg clock self) = mw_log self @ es \<and> list_all (is_heartbeat zg) es"
    and "mw_liveness (mdwrk_heartbeat zg clock self) = mw_liveness self"
    and "mw_service (mdwrk_heartbeat zg clock self) = mw_service self"
    and "mw_reconnect (mdwrk_heartbeat zg clock self) = mw_reconnect self"
    and "mw_reply_to (mdwrk_heartbeat zg clock self) = mw_reply_to self"
proof -
  obtain x where x: "s_mdwrk_send_to_broker zg MDPW_HEARTBEAT None None (self\<lparr>mw_tick := Suc (mw_tick self)\<rparr>) =
      self\<lparr>mw_tick := Suc (mw_tick self), mw_log := mw_log self @ [Send x]\<rparr>"
    "zg_frames zg x = [[], MDPW_WORKER, MDPW_HEARTBEAT]"
    using mdwrk_send_log [OF assms, of MDPW_HEARTBEAT None None "self\<lparr>mw_tick := Suc (mw_tick self)\<rparr>"] by auto
  show "\<exists>es. mw_log (mdwrk_heartbeat zg clock self) = mw_log self @ es \<and> list_all (is_heartbeat zg) es"
    using x by (auto simp: mdwrk_heartbeat_def Let_def is_heartbeat_def)
qed (simp_all add: mdwrk_heartbeat_def Let_def s_mdwrk_send_to_broker_def)

text \<open>The liveness counter stays in 1 to 3: it never wraps around.\<close>

definition live_range :: "'m mdwrk \<Rightarrow> bool" where
  "live_range self \<longleftrightarrow> mw_liveness self \<in> {1, 2, 3}"

lemma live_range_connect: "live_range (s_mdwrk_connect_to_broker zg clock self)"
  by (simp add: live_range_def s_mdwrk_connect_to_broker_def Let_def)

lemma live_range_heartbeat: "live_range (mdwrk_heartbeat zg clock self) \<longleftrightarrow> live_range self"
  by (simp add: live_range_def mdwrk_heartbeat_def Let_def s_mdwrk_send_to_broker_def)

lemma live_range_input:
  "mdwrk_input zg clock msg self = Some (r, self') \<Longrightarrow> live_range self'"
  by (auto simp: mdwrk_input_def bind_eq_Some Let_def live_range_connect split: if_splits) (auto simp: live_range_def)

lemma live_range_timeout: "live_range self \<Longrightarrow> live_range (mdwrk_timeout zg clock self)"
  by (auto simp: mdwrk_timeout_def Let_def live_range_connect) (auto simp: live_range_def)

lemma live_range_loop:
  "live_range self \<Longrightarrow> mdwrk_loop zg clock is self = Some (r, is1, self') \<Longrightarrow> live_range self'"
proof (induction "is" arbitrary: self)
  case (Cons i "is")
  show ?case
  proof (cases i)
    case No_input
    then show ?thesis
      using Cons.IH [of "mdwrk_heartbeat zg clock (mdwrk_timeout zg clock self)"] Cons.prems
      by (simp add: live_range_heartbeat live_range_timeout)
  next
    case (Recv msg)
    then obtain r1 s1 where s1: "mdwrk_input zg clock msg self = Some (r1, s1)"
      using Cons.prems(2) by (auto simp: bind_eq_Some)
    have "live_range s1" "live_range (mdwrk_heartbeat zg clock s1)"
      using live_range_input [OF s1] by (simp_all add: live_range_heartbeat)
    then show ?thesis
      using Cons.prems(2) Cons.IH [of "mdwrk_heartbeat zg clock s1"] Recv s1 by (cases r1) auto
  qed (use Cons.prems in auto)
qed simp

lemma mdwrk_timeouts:
  assumes laws: "zmsg_laws zg" and live: "mw_liveness self = 3"
  shows "\<exists>self1 pre x post. mdwrk_loop zg clock (No_input # No_input # No_input # is) self = mdwrk_loop zg clock is self1 \<and>
    mw_liveness self1 = 3 \<and> mw_log self1 = mw_log self @ pre @ [Sleep (mw_reconnect self), Connect, Send x] @ post \<and>
    zg_frames zg x = [[], MDPW_WORKER, MDPW_READY, mw_service self] \<and> list_all (is_heartbeat zg) (pre @ post)"
proof -
  note H = mdwrk_heartbeat_log [OF laws]
  define s1 where "s1 = mdwrk_heartbeat zg clock (mdwrk_timeout zg clock self)"
  define s2 where "s2 = mdwrk_heartbeat zg clock (mdwrk_timeout zg clock s1)"
  have t1: "mdwrk_timeout zg clock self = self\<lparr>mw_liveness := 2\<rparr>"
    using live by (simp add: mdwrk_timeout_def)
  have l1: "mw_liveness s1 = 2" "mw_service s1 = mw_service self" "mw_reconnect s1 = mw_reconnect self"
    using H(2-4) by (simp_all add: s1_def t1)
  have t2: "mdwrk_timeout zg clock s1 = s1\<lparr>mw_liveness := 1\<rparr>"
    using l1 by (simp add: mdwrk_timeout_def)
  have l2: "mw_liveness s2 = 1" "mw_service s2 = mw_service self" "mw_reconnect s2 = mw_reconnect self"
    using H(2-4) l1 by (simp_all add: s2_def t2)
  obtain e1 where e1: "mw_log s1 = mw_log self @ e1" "list_all (is_heartbeat zg) e1"
    using H(1) [of clock "self\<lparr>mw_liveness := 2\<rparr>"] by (auto simp: s1_def t1)
  obtain e2 where e2: "mw_log s2 = mw_log s1 @ e2" "list_all (is_heartbeat zg) e2"
    using H(1) [of clock "s1\<lparr>mw_liveness := 1\<rparr>"] by (auto simp: s2_def t2)
  obtain x where x: "mw_log (mdwrk_timeout zg clock s2) = mw_log s2 @ [Sleep (mw_reconnect self), Connect, Send x]"
    "mw_liveness (mdwrk_timeout zg clock s2) = 3" "zg_frames zg x = [[], MDPW_WORKER, MDPW_READY, mw_service self]"
    using mdwrk_connect_log [OF laws, of clock "s2\<lparr>mw_liveness := 0, mw_log := mw_log s2 @ [Sleep (mw_reconnect s2)]\<rparr>"] l2
    by (auto simp: mdwrk_timeout_def)
  let ?s3 = "mdwrk_heartbeat zg clock (mdwrk_timeout zg clock s2)"
  obtain e3 where e3: "mw_log ?s3 = mw_log (mdwrk_timeout zg clock s2) @ e3" "list_all (is_heartbeat zg) e3"
    using H(1) by blast
  have "mw_liveness ?s3 = 3"
    using H(2) x(2) by simp
  then show ?thesis
    using e1 e2 e3 x by (intro exI [of _ ?s3] exI [of _ "e1 @ e2"] exI [of _ x] exI [of _ e3]) (simp add: s1_def s2_def)
qed

section \<open>Properties\<close>

text \<open>
  C29: A worker that hears nothing from its broker reconnects: from a full liveness counter, which every
  new connection and every message gives it, three polls without input lead to a sleep, a new connection and
  a new \<open>READY\<close> for the same service; before and after it the worker sends nothing but heartbeats. The
  counter never reaches 0 at the end of a call, whatever is received.
\<close>

theorem worker_reconnects_after_silence:
  assumes "zmsg_laws zg" and "mw_liveness self = 3"
  shows "(\<exists>self1 pre x post. mdwrk_loop zg clock (No_input # No_input # No_input # is) self = mdwrk_loop zg clock is self1 \<and>
      mw_liveness self1 = 3 \<and> mw_log self1 = mw_log self @ pre @ [Sleep (mw_reconnect self), Connect, Send x] @ post \<and>
      zg_frames zg x = [[], MDPW_WORKER, MDPW_READY, mw_service self] \<and> list_all (is_heartbeat zg) (pre @ post)) \<and>
    mw_liveness (mdwrk_new zg clock service) = 3 \<and>
    (\<forall>is r is1 self1. mdwrk_loop zg clock is self = Some (r, is1, self1) \<longrightarrow> mw_liveness self1 \<in> {1, 2, 3})"
  using mdwrk_timeouts [OF assms] live_range_loop [of self] assms(2)
  by (auto simp: live_range_def mdwrk_new_def s_mdwrk_connect_to_broker_def Let_def)

text \<open>The messages a client sends.\<close>

definition sends :: "'m event list \<Rightarrow> 'm list" where
  "sends es = concat (map (\<lambda>e. case e of Send m \<Rightarrow> [m] | _ \<Rightarrow> []) es)"

lemma sends_simps [simp]: "sends [] = []" "sends (Send m # es) = m # sends es" "sends (Connect # es) = sends es"
  "sends (Sleep n # es) = sends es" "sends (es @ fs) = sends es @ sends fs"
  by (simp_all add: sends_def)

lemma mdcli_loop_sends:
  assumes "zmsg_laws zg" and "0 \<le> left" and "left \<le> INT_MAX"
    and "mdcli_loop zg service request left is self = Some (r, self')"
  shows "\<exists>es. mc_log self' = mc_log self @ es \<and> int (length (sends es)) \<le> left \<and>
    (\<forall>m\<in>set (sends es). zg_frames zg m = zg_frames zg request)"
  using assms(2-)
proof (induction "is" arbitrary: left self)
  case (Cons ii "is")
  obtain b i where ii: "ii = (b, i)" by (cases ii)
  show ?case
  proof (cases "left = 0 \<or> b")
    case True
    then show ?thesis
      using Cons.prems ii by auto
  next
    case False
    let ?s = "self\<lparr>mc_log := mc_log self @ [Send (zg_dup zg request)]\<rparr>"
    show ?thesis
    proof (cases "i = No_input \<and> left \<noteq> 1")
      case True
      then have "mdcli_loop zg service request (left - 1) is (s_mdcli_connect_to_broker ?s) = Some (r, self')"
        using Cons.prems False ii by (simp add: c_int_def INT_MIN_def bind_eq_Some split: if_splits)
      then obtain es where "mc_log self' = mc_log (s_mdcli_connect_to_broker ?s) @ es" "int (length (sends es)) \<le> left - 1"
        "\<forall>m\<in>set (sends es). zg_frames zg m = zg_frames zg request"
        using Cons.IH [of "left - 1" "s_mdcli_connect_to_broker ?s"] Cons.prems(1,2) False by auto
      then show ?thesis
        using assms(1) by (intro exI [of _ "Send (zg_dup zg request) # Connect # es"])
          (auto simp: s_mdcli_connect_to_broker_def)
    next
      case other: False
      then have "self' = ?s"
        using Cons.prems False ii by (auto simp: c_int_def bind_eq_Some Let_def split: poll.splits if_splits)
      then show ?thesis
        using Cons.prems(1) False assms(1) by (intro exI [of _ "[Send (zg_dup zg request)]"]) auto
    qed
  qed
qed auto

lemma mdcli_loop_gives_up:
  assumes "0 < n" and "int n \<le> INT_MAX"
  shows "\<exists>self'. mdcli_loop zg service request (int n) (replicate n (False, No_input)) self = Some (Returned None, self')"
  using assms
proof (induction n arbitrary: self)
  case (Suc n)
  then show ?case
    by (cases n) (auto simp: c_int_def INT_MIN_def Let_def)
qed simp


theorem worker_reconnects_after_silence_witness:
  "\<exists>self1. mdwrk_loop ex_zmsg (\<lambda>_. 0) [No_input, No_input, No_input] (mdwrk_new ex_zmsg (\<lambda>_. 0) [101]) =
    mdwrk_loop ex_zmsg (\<lambda>_. 0) [] self1 \<and> mw_liveness self1 = 3"
proof -
  have "mw_liveness (mdwrk_new ex_zmsg (\<lambda>_. 0) [101]) = 3"
    by (simp add: mdwrk_new_def s_mdwrk_connect_to_broker_def Let_def)
  then show ?thesis
    using worker_reconnects_after_silence [OF ex_zmsg_laws, of "mdwrk_new ex_zmsg (\<lambda>_. 0) [101]" "\<lambda>_. 0" "[]"] by blast
qed


end
