(* ===== verification/Pirate_Peers.thy ===== *)
theory Pirate_Peers
  imports Pirate Mdp_Peers
begin

text \<open>
  The peers of the reliable request-reply patterns of \<^verbatim>\<open>lib/zeromq/reliable\<close> (\<^verbatim>\<open>ppworker.c\<close>, \<^verbatim>\<open>spworker.c\<close>, \<^verbatim>\<open>lpclient.c\<close>,
  \<^verbatim>\<open>lpserver.c\<close>) and the helpers of \<^verbatim>\<open>lib/zeromq/zhelpers.h\<close> that they call. Sockets are logs of events and lists of what
  the polls give; the values of \<^verbatim>\<open>randof\<close> and \<^verbatim>\<open>zctx_interrupted\<close> are inputs of each turn. Console output is
  modelled for \<^verbatim>\<open>s_dump\<close> only.
\<close>

section \<open>The helpers\<close>

text \<open>
  \<^verbatim>\<open>s_recv\<close>: the argument is what \<^verbatim>\<open>zmq_recv\<close> receives, \<^const>\<open>None\<close> for an error, and so is the result for NULL. At most 255
  bytes are kept, and the copy ends at the first NUL.
\<close>

definition s_recv :: "string option \<Rightarrow> string option" where
  "s_recv received = map_option (\<lambda>data. c_prefix (take 255 data)) received"

text \<open>\<^verbatim>\<open>s_send\<close> and \<^verbatim>\<open>s_sendmore\<close>: the bytes of the frame that is sent.\<close>

definition s_send :: "string \<Rightarrow> string" where
  "s_send s = c_prefix s"

definition s_sendmore :: "string \<Rightarrow> string" where
  "s_sendmore s = c_prefix s"

text \<open>\<^verbatim>\<open>s_dump\<close>: the text printed for the parts of a message.\<close>

definition is_text :: "byte list \<Rightarrow> bool" where
  "is_text data \<longleftrightarrow> list_all (\<lambda>b. \<not> (unat b < 32 \<or> unat b > 126)) data"

definition hex_digit :: "nat \<Rightarrow> char" where
  "hex_digit n = (if n < 10 then char_of (48 + n) else char_of (55 + n))"

definition dump_part :: "byte list \<Rightarrow> string" where
  "dump_part data =
     (let size = show_nat (length data) in
      ''['' @ replicate (3 - length size) CHR ''0'' @ size @ ''] '' @
      (if is_text data then map (char_of \<circ> unat) data
       else concat (map (\<lambda>b. [hex_digit (unat b div 16), hex_digit (unat b mod 16)]) data)) @ [NL])"

definition s_dump :: "byte list list \<Rightarrow> string" where
  "s_dump parts = ''----------------------------------------'' @ [NL] @ concat (map dump_part parts)"

text \<open>
  \<^verbatim>\<open>s_sleep\<close>: the argument of \<^verbatim>\<open>nanosleep\<close>, seconds and nanoseconds. \<^verbatim>\<open>s_clock\<close>: milliseconds from what \<^verbatim>\<open>gettimeofday\<close>
  gives. Division of C rounds towards zero.
\<close>

definition s_sleep :: "int \<Rightarrow> int \<times> int" where
  "s_sleep msecs = (sgn msecs * (\<bar>msecs\<bar> div 1000), sgn msecs * (\<bar>msecs\<bar> mod 1000) * 1000000)"

definition s_clock :: "int \<Rightarrow> int \<Rightarrow> int" where
  "s_clock tv_sec tv_usec = tv_sec * 1000 + sgn tv_usec * (\<bar>tv_usec\<bar> div 1000)"

section \<open>The paranoid pirate worker\<close>

definition INTERVAL_INIT :: "64 word" where "INTERVAL_INIT = 1000"
definition INTERVAL_MAX :: "64 word" where "INTERVAL_MAX = 32000"

record 'm ppworker =
  v_liveness :: "64 word"
  v_interval :: "64 word"
  v_heartbeat_at :: int
  v_cycles :: int
  v_log :: "'m event list"
  v_tick :: nat

definition pw_put :: "'m event \<Rightarrow> 'm ppworker \<Rightarrow> 'm ppworker" where
  "pw_put e self = self\<lparr>v_log := v_log self @ [e]\<rparr>"

text \<open>A message of one frame.\<close>

definition single :: "'m zmsg_api \<Rightarrow> byte list \<Rightarrow> 'm" where
  "single zg f = zg_push zg f (zg_new zg)"

definition s_worker_socket :: "'m zmsg_api \<Rightarrow> 'm ppworker \<Rightarrow> 'm ppworker" where
  "s_worker_socket zg self = pw_put (Send (single zg PPP_READY)) (pw_put Connect self)"

definition ppworker_new :: "'m zmsg_api \<Rightarrow> (nat \<Rightarrow> int) \<Rightarrow> 'm ppworker" where
  "ppworker_new zg clock = s_worker_socket zg
     \<lparr>v_liveness = 3, v_interval = INTERVAL_INIT, v_heartbeat_at = clock 0 + PP_INTERVAL, v_cycles = 0, v_log = [], v_tick = 1\<rparr>"

text \<open>
  What a turn reads apart from the message: the two values of \<^verbatim>\<open>randof\<close>, and \<^verbatim>\<open>zctx_interrupted\<close> after the long and after
  the short sleep.
\<close>

record chance =
  c_crash :: int
  c_overload :: int
  c_int1 :: bool
  c_int2 :: bool

text \<open>
  The part of a turn that handles a message; \<^const>\<open>False\<close> is a \<^verbatim>\<open>break\<close>. A frame is compared in its first byte, and reading an
  empty frame is undefined.
\<close>

definition ppworker_request :: "chance \<Rightarrow> 'm \<Rightarrow> 'm ppworker \<Rightarrow> (bool \<times> 'm ppworker) option" where
  "ppworker_request c msg self = do {
     n \<leftarrow> c_int (v_cycles self + 1);
     let self = self\<lparr>v_cycles := n\<rparr>;
     if n > 3 \<and> c_crash c = 0 then Some (False, self)
     else do {
       let overload = (n > 3 \<and> c_overload c = 0);
       let self = (if overload then pw_put (Sleep 3000) self else self);
       if overload \<and> c_int1 c then Some (False, self)
       else do {
         let self = (pw_put (Send msg) self)\<lparr>v_liveness := 3\<rparr>;
         let self = pw_put (Sleep 1000) self;
         Some (\<not> c_int2 c, self)
       }
     }
   }"

definition ppworker_recv :: "'m zmsg_api \<Rightarrow> chance \<Rightarrow> 'm \<Rightarrow> 'm ppworker \<Rightarrow> (bool \<times> 'm ppworker) option" where
  "ppworker_recv zg c msg self = do {
     (go, self) \<leftarrow>
       (if zg_size zg msg = 3 then ppworker_request c msg self
        else if zg_size zg msg = 1 then do {
          frame \<leftarrow> fst (zg_pop zg msg);
          if frame = [] then None
          else if hd frame = hd PPP_HEARTBEAT then Some (True, self\<lparr>v_liveness := 3\<rparr>)
          else Some (True, self)
        } else Some (True, self));
     Some (go, if go then self\<lparr>v_interval := INTERVAL_INIT\<rparr> else self)
   }"

definition ppworker_silence :: "'m zmsg_api \<Rightarrow> 'm ppworker \<Rightarrow> 'm ppworker" where
  "ppworker_silence zg self =
     (let self = self\<lparr>v_liveness := v_liveness self - 1\<rparr> in
      if v_liveness self = 0 then
        let self = pw_put (Sleep (uint (v_interval self))) self;
            self = (if v_interval self < INTERVAL_MAX then self\<lparr>v_interval := v_interval self * 2\<rparr> else self)
        in (s_worker_socket zg self)\<lparr>v_liveness := 3\<rparr>
      else self)"

definition ppworker_heartbeat :: "'m zmsg_api \<Rightarrow> (nat \<Rightarrow> int) \<Rightarrow> 'm ppworker \<Rightarrow> 'm ppworker" where
  "ppworker_heartbeat zg clock self =
     (let now = clock (v_tick self); self = self\<lparr>v_tick := Suc (v_tick self)\<rparr> in
      if now > v_heartbeat_at self then
        pw_put (Send (single zg PPP_HEARTBEAT))
          (self\<lparr>v_heartbeat_at := clock (v_tick self) + PP_INTERVAL, v_tick := Suc (v_tick self)\<rparr>)
      else self)"

text \<open>The main loop; the flag says whether it is still running. Line 35 polls for \<^verbatim>\<open>ZMQ_POLL\<close>, which is read as \<^verbatim>\<open>ZMQ_POLLIN\<close>.\<close>

fun ppworker_loop ::
  "'m zmsg_api \<Rightarrow> (nat \<Rightarrow> int) \<Rightarrow> ('m poll \<times> chance) list \<Rightarrow> 'm ppworker \<Rightarrow> (bool \<times> 'm ppworker) option" where
  "ppworker_loop zg clock [] self = Some (True, self)"
| "ppworker_loop zg clock ((Poll_error, c) # is) self = Some (False, self)"
| "ppworker_loop zg clock ((Recv_null, c) # is) self = Some (False, self)"
| "ppworker_loop zg clock ((Recv msg, c) # is) self = do {
     (go, self) \<leftarrow> ppworker_recv zg c msg self;
     if go then ppworker_loop zg clock is (ppworker_heartbeat zg clock self) else Some (False, self)
   }"
| "ppworker_loop zg clock ((No_input, c) # is) self =
     ppworker_loop zg clock is (ppworker_heartbeat zg clock (ppworker_silence zg self))"

section \<open>The simple pirate worker\<close>

text \<open>The number of requests and the log; the identity is 9 characters.\<close>

definition spworker_identity :: "nat \<Rightarrow> nat \<Rightarrow> string" where
  "spworker_identity r1 r2 = map hex_digit [r1 div 4096 mod 16, r1 div 256 mod 16, r1 div 16 mod 16, r1 mod 16] @ ''-'' @
     map hex_digit [r2 div 4096 mod 16, r2 div 256 mod 16, r2 div 16 mod 16, r2 mod 16]"

fun spworker_loop :: "('m option \<times> chance) list \<Rightarrow> int \<times> 'm event list \<Rightarrow> (bool \<times> int \<times> 'm event list) option" where
  "spworker_loop [] (cycles, log) = Some (True, cycles, log)"
| "spworker_loop ((None, c) # is) (cycles, log) = Some (False, cycles, log)"
| "spworker_loop ((Some msg, c) # is) (cycles, log) = do {
     cycles \<leftarrow> c_int (cycles + 1);
     if cycles > 3 \<and> c_crash c = 0 then Some (False, cycles, log)
     else do {
       let overload = (cycles > 3 \<and> c_overload c = 0);
       let log = (if overload then log @ [Sleep 3000] else log);
       if overload \<and> c_int1 c then Some (False, cycles, log)
       else spworker_loop is (cycles, log @ [Sleep 1000, Send msg])
     }
   }"

definition spworker_main :: "'m zmsg_api \<Rightarrow> ('m option \<times> chance) list \<Rightarrow> (bool \<times> int \<times> 'm event list) option" where
  "spworker_main zg is = spworker_loop is (0, [Connect, Send (single zg WORKER_READY)])"

section \<open>The lazy pirate client and server\<close>

definition REQUEST_RETRIES :: int where "REQUEST_RETRIES = 3"

text \<open>\<^verbatim>\<open>atoi\<close>; a number that \<^verbatim>\<open>int\<close> cannot hold is undefined.\<close>

fun digits_val :: "nat \<Rightarrow> string \<Rightarrow> nat" where
  "digits_val a [] = a"
| "digits_val a (c # cs) =
     (if 48 \<le> (of_char c :: nat) \<and> (of_char c :: nat) \<le> 57 then digits_val (10 * a + (of_char c - 48)) cs else a)"

definition atoi :: "string \<Rightarrow> int option" where
  "atoi s =
     (case dropWhile isspace (c_prefix s) of
        [] \<Rightarrow> Some 0
      | c # cs \<Rightarrow> if c = CHR ''-'' then c_int (- int (digits_val 0 cs))
                  else if c = CHR ''+'' then c_int (int (digits_val 0 cs))
                  else c_int (int (digits_val 0 (c # cs))))"

record lpclient =
  lp_sequence :: int
  lp_retries_left :: int
  lp_log :: "string event list"

definition lp_new :: lpclient where
  "lp_new = \<lparr>lp_sequence = 0, lp_retries_left = REQUEST_RETRIES, lp_log = [Connect]\<rparr>"

text \<open>The inner loop: whether it was left, the remaining inputs and the state.\<close>

fun lp_wait :: "string \<Rightarrow> string poll list \<Rightarrow> lpclient \<Rightarrow> (bool \<times> string poll list \<times> lpclient) option" where
  "lp_wait request [] c = Some (False, [], c)"
| "lp_wait request (Poll_error # is) c = Some (True, is, c)"
| "lp_wait request (Recv_null # is) c = Some (True, is, c)"
| "lp_wait request (Recv reply # is) c = do {
     n \<leftarrow> atoi reply;
     if n = lp_sequence c then Some (True, is, c\<lparr>lp_retries_left := REQUEST_RETRIES\<rparr>) else lp_wait request is c
   }"
| "lp_wait request (No_input # is) c = do {
     left \<leftarrow> c_int (lp_retries_left c - 1);
     let c = c\<lparr>lp_retries_left := left\<rparr>;
     if left = 0 then Some (True, is, c)
     else lp_wait request is (c\<lparr>lp_log := lp_log c @ [Connect, Send request]\<rparr>)
   }"

lemma lp_wait_shorter: "lp_wait request is c = Some (True, is1, c1) \<Longrightarrow> length is1 < length is"
proof (induction request "is" c arbitrary: is1 c1 rule: lp_wait.induct)
  case (4 request reply "is" c)
  then show ?case
    by (auto simp: bind_eq_Some split: if_splits) fastforce+
next
  case (5 request "is" c)
  then show ?case
    by (auto simp: bind_eq_Some Let_def split: if_splits) fastforce+
qed auto

text \<open>
  The outer loop; \<open>interrupted n\<close> is \<^verbatim>\<open>zctx_interrupted\<close> before request \<open>n + 1\<close>. The array for the text of a number has 10
  characters. The flag says whether the client has ended.
\<close>

function lp_main :: "(int \<Rightarrow> bool) \<Rightarrow> string poll list \<Rightarrow> lpclient \<Rightarrow> (bool \<times> lpclient) option" where
  "lp_main interrupted is c =
     (if lp_retries_left c = 0 \<or> interrupted (lp_sequence c) then Some (True, c)
      else Option.bind (c_int (lp_sequence c + 1)) (\<lambda>n.
        if length (show_int n) \<ge> 10 then None
        else case lp_wait (show_int n) is (c\<lparr>lp_sequence := n, lp_log := lp_log c @ [Send (show_int n)]\<rparr>) of
               None \<Rightarrow> None
             | Some (left, is1, c1) \<Rightarrow> if left then lp_main interrupted is1 c1 else Some (False, c1)))"
  by pat_completeness auto
termination
  by (relation "measure (\<lambda>(_, is, _). length is)") (auto dest: lp_wait_shorter)

declare lp_main.simps [simp del]

text \<open>
  A turn of the server: what \<^verbatim>\<open>zmq_recv\<close> receives, and the state. A request that could not be received is printed and sent,
  which is undefined.
\<close>

definition lpserver_turn :: "string option \<Rightarrow> chance \<Rightarrow> int \<times> string event list \<Rightarrow> (bool \<times> int \<times> string event list) option" where
  "lpserver_turn received c s = do {
     let request = s_recv received;
     cycles \<leftarrow> c_int (fst s + 1);
     if cycles > 3 \<and> c_crash c = 0 then Some (False, cycles, snd s)
     else do {
       let log = (if cycles > 3 \<and> c_overload c = 0 then snd s @ [Sleep 2000] else snd s);
       request \<leftarrow> request;
       Some (True, cycles, log @ [Sleep 1000, Send (s_send request)])
     }
   }"

fun lpserver_loop :: "(string option \<times> chance) list \<Rightarrow> int \<times> string event list \<Rightarrow> (bool \<times> int \<times> string event list) option" where
  "lpserver_loop [] s = Some (True, s)"
| "lpserver_loop ((i, c) # is) s = do {
     (go, s) \<leftarrow> lpserver_turn i c s;
     if go then lpserver_loop is s else Some (False, s)
   }"

section \<open>Lemmas\<close>

text \<open>The lengths of the sleeps, and the number of connections, in a log.\<close>

definition naps :: "'m event list \<Rightarrow> int list" where
  "naps es = concat (map (\<lambda>e. case e of Sleep n \<Rightarrow> [n] | _ \<Rightarrow> []) es)"

definition connects :: "'m event list \<Rightarrow> nat" where
  "connects es = length (filter (\<lambda>e. case e of Connect \<Rightarrow> True | _ \<Rightarrow> False) es)"

lemma log_simps [simp]:
  "naps [] = []" "naps (es @ fs) = naps es @ naps fs" "naps (Sleep n # es) = n # naps es" "naps (Send m # es) = naps es"
  "naps (Connect # es) = naps es" "connects [] = 0" "connects (es @ fs) = connects es + connects fs"
  "connects (Sleep n # es) = connects es" "connects (Send m # es) = connects es" "connects (Connect # es) = Suc (connects es)"
  by (simp_all add: naps_def connects_def)

lemma pw_put_simps [simp]:
  "v_log (pw_put e self) = v_log self @ [e]" "v_liveness (pw_put e self) = v_liveness self"
  "v_interval (pw_put e self) = v_interval self" "v_heartbeat_at (pw_put e self) = v_heartbeat_at self"
  by (simp_all add: pw_put_def)

lemma ppworker_heartbeat_simps [simp]:
  "v_liveness (ppworker_heartbeat zg clock self) = v_liveness self" "v_interval (ppworker_heartbeat zg clock self) = v_interval self"
  "naps (v_log (ppworker_heartbeat zg clock self)) = naps (v_log self)"
  "connects (v_log (ppworker_heartbeat zg clock self)) = connects (v_log self)"
  by (simp_all add: ppworker_heartbeat_def Let_def)

text \<open>The delay before the \<open>k\<close>-th reconnection in a row, from 0.\<close>

definition backoff :: "nat \<Rightarrow> 64 word" where
  "backoff k = 1000 * 2 ^ min k 5"

lemma backoff_cases: "backoff k \<in> {1000, 2000, 4000, 8000, 16000, 32000}"
proof -
  have "min k 5 \<in> {0, 1, 2, 3, 4, 5}"
    by auto
  then show ?thesis
    by (auto simp: backoff_def)
qed

lemma backoff_Suc: "(if backoff k < INTERVAL_MAX then backoff k * 2 else backoff k) = backoff (Suc k)"
proof (cases "k < 5")
  case True
  then have "k \<in> {0, 1, 2, 3, 4}"
    by auto
  then show ?thesis
    by (auto simp: backoff_def INTERVAL_MAX_def)
qed (simp add: backoff_def INTERVAL_MAX_def min_def)

lemma uint_backoff: "uint (backoff k) = 1000 * 2 ^ min k 5"
proof -
  have "min k 5 \<in> {0, 1, 2, 3, 4, 5}"
    by auto
  then show ?thesis
    by (auto simp: backoff_def)
qed

lemma ppworker_silence_simps:
  "v_liveness self = 3 \<Longrightarrow> v_liveness (ppworker_silence zg self) = 2 \<and> v_interval (ppworker_silence zg self) = v_interval self \<and>
     v_log (ppworker_silence zg self) = v_log self"
  "v_liveness self = 2 \<Longrightarrow> v_liveness (ppworker_silence zg self) = 1 \<and> v_interval (ppworker_silence zg self) = v_interval self \<and>
     v_log (ppworker_silence zg self) = v_log self"
  "v_liveness self = 1 \<Longrightarrow> v_interval self = backoff k \<Longrightarrow>
     v_liveness (ppworker_silence zg self) = 3 \<and> v_interval (ppworker_silence zg self) = backoff (Suc k) \<and>
     v_log (ppworker_silence zg self) = v_log self @ [Sleep (uint (backoff k)), Connect, Send (single zg PPP_READY)]"
  using backoff_Suc [of k] by (auto simp: ppworker_silence_def s_worker_socket_def Let_def pw_put_def split: if_splits)

lemma ppworker_three_silent:
  assumes "v_liveness self = 3" and "v_interval self = backoff k"
  shows "\<exists>self1. ppworker_loop zg clock ((No_input, c1) # (No_input, c2) # (No_input, c3) # is) self = ppworker_loop zg clock is self1 \<and>
    v_liveness self1 = 3 \<and> v_interval self1 = backoff (Suc k) \<and> naps (v_log self1) = naps (v_log self) @ [uint (backoff k)] \<and>
    connects (v_log self1) = Suc (connects (v_log self))"
proof -
  let ?t = "\<lambda>self. ppworker_heartbeat zg clock (ppworker_silence zg self)"
  have 1: "v_liveness (?t self) = 2" "v_interval (?t self) = backoff k"
    "naps (v_log (?t self)) = naps (v_log self)" "connects (v_log (?t self)) = connects (v_log self)"
    using ppworker_silence_simps(1) [OF assms(1), of zg] assms(2) by auto
  have 2: "v_liveness (?t (?t self)) = 1" "v_interval (?t (?t self)) = backoff k"
    "naps (v_log (?t (?t self))) = naps (v_log self)" "connects (v_log (?t (?t self))) = connects (v_log self)"
    using ppworker_silence_simps(2) [OF 1(1), of zg] 1 by auto
  show ?thesis
    using ppworker_silence_simps(3) [OF 2(1,2), of zg] 2(3,4) by (intro exI [of _ "?t (?t (?t self))"]) simp
qed

text \<open>Decimal numbers.\<close>

lemma digits_val_digit: "d < 10 \<Longrightarrow> digits_val a (char_of (48 + d) # cs) = digits_val (10 * a + d) cs"
  by simp

lemma digits_val_show: "digits_val a (show_nat n @ cs) = digits_val (a * 10 ^ length (show_nat n) + n) cs"
proof (induction n arbitrary: a cs rule: show_nat.induct)
  case (1 n)
  show ?case
  proof (cases "n < 10")
    case True
    then show ?thesis
      using digits_val_digit [OF True] by (simp add: show_nat.simps [of n] mult.commute del: digits_val.simps)
  next
    case False
    have "digits_val a (show_nat n @ cs) = digits_val (a * 10 ^ length (show_nat (n div 10)) + n div 10) (char_of (48 + n mod 10) # cs)"
      using 1 [OF False, of a "char_of (48 + n mod 10) # cs"] False by (simp add: show_nat.simps [of n] del: digits_val.simps)
    also have "\<dots> = digits_val (10 * (a * 10 ^ length (show_nat (n div 10)) + n div 10) + n mod 10) cs"
      by (rule digits_val_digit) simp
    also have "10 * (a * 10 ^ length (show_nat (n div 10)) + n div 10) + n mod 10 = a * 10 ^ length (show_nat n) + n"
      using False by (simp add: show_nat.simps [of n] algebra_simps)
    finally show ?thesis .
  qed
qed

lemma length_show_nat: "length (show_nat n) \<le> Suc k \<longleftrightarrow> n < 10 ^ Suc k"
proof (induction k arbitrary: n)
  case 0
  then show ?case
    by (cases "n < 10") (simp_all add: show_nat.simps [of n] show_nat.simps [of "n div 10"])
next
  case (Suc k)
  show ?case
  proof (cases "n < 10")
    case True
    then have "n < 10 ^ Suc (Suc k)"
      by (rule less_le_trans) simp
    then show ?thesis
      using True by (simp add: show_nat.simps [of n])
  next
    case False
    then show ?thesis
      using Suc [of "n div 10"] by (simp add: show_nat.simps [of n] div_less_iff_less_mult mult.commute)
  qed
qed

lemma show_nat_hd: "\<exists>d cs. d < 10 \<and> show_nat n = char_of (48 + d :: nat) # cs"
proof (induction n rule: show_nat.induct)
  case (1 n)
  then show ?case
    by (cases "n < 10") (auto simp: show_nat.simps [of n])
qed

lemma show_nat_digits: "c \<in> set (show_nat n) \<Longrightarrow> \<exists>d<10. c = char_of (48 + d :: nat)"
proof (induction n arbitrary: c rule: show_nat.induct)
  case (1 n)
  have "n mod 10 < 10"
    by simp
  then show ?case
    using 1 by (cases "n < 10"; simp only: show_nat.simps [of n] if_True if_False set_append list.set) blast+
qed

lemma digit_char: "d < 10 \<Longrightarrow> char_of (48 + d :: nat) \<notin> {NUL, CHR ''-'', CHR ''+''} \<and> \<not> isspace (char_of (48 + d :: nat))"
proof -
  assume "d < 10"
  then have "d \<in> {0, 1, 2, 3, 4, 5, 6, 7, 8, 9}"
    by auto
  then show ?thesis
    by (auto simp: isspace_def NUL_def TAB_def NL_def char_of_def)
qed

lemma c_prefix_show: "c_prefix (show_nat n) = show_nat n"
  using show_nat_digits digit_char by (fastforce simp: takeWhile_eq_all_conv)

lemma atoi_show_int: "0 \<le> n \<Longrightarrow> n \<le> INT_MAX \<Longrightarrow> atoi (show_int n) = Some n"
proof -
  assume n: "0 \<le> n" "n \<le> INT_MAX"
  obtain d :: nat and cs where d: "d < 10" "show_nat (nat n) = char_of (48 + d) # cs"
    using show_nat_hd by blast
  have "digits_val 0 (show_nat (nat n)) = nat n"
    using digits_val_show [of 0 "nat n" "[]"] by simp
  moreover have "dropWhile isspace (c_prefix (show_int n)) = char_of (48 + d) # cs"
    using digit_char [OF d(1)] d(2) n(1) c_prefix_show [of "nat n"] by (simp add: show_int_def)
  ultimately show ?thesis
    using n digit_char [OF d(1)] d(2) unfolding atoi_def
    by (simp add: c_int_def INT_MIN_def del: digits_val.simps)
qed

lemma length_show_int: "0 \<le> n \<Longrightarrow> 10 \<le> length (show_int n) \<longleftrightarrow> 1000000000 \<le> n"
  using length_show_nat [of "nat n" 8] by (simp add: show_int_def) linarith

lemma lp_main_step:
  assumes "lp_retries_left c \<noteq> 0" "\<not> interrupted (lp_sequence c)" "0 \<le> lp_sequence c" "lp_sequence c < 999999999"
  shows "lp_main interrupted is c =
    (case lp_wait (show_int (lp_sequence c + 1)) is (c\<lparr>lp_sequence := lp_sequence c + 1,
        lp_log := lp_log c @ [Send (show_int (lp_sequence c + 1))]\<rparr>) of
       None \<Rightarrow> None
     | Some (left, is1, c1) \<Rightarrow> if left then lp_main interrupted is1 c1 else Some (False, c1))"
  using assms length_show_int [of "lp_sequence c + 1"]
  by (subst lp_main.simps) (simp add: c_int_def INT_MIN_def INT_MAX_def)

lemma lp_main_echoed:
  assumes "n < 1000000000" and "m \<le> n" and "lp_sequence c = int m" and "lp_retries_left c = 3"
  shows "\<exists>c'. lp_main (\<lambda>k. k = int n) (map (\<lambda>k. Recv (show_int (int k))) [Suc m..<Suc n]) c = Some (True, c') \<and>
    sends (lp_log c') = sends (lp_log c) @ map (\<lambda>k. show_int (int k)) [Suc m..<Suc n] \<and> lp_sequence c' = int n \<and>
    lp_retries_left c' = 3"
  using assms(2-)
proof (induction "n - m" arbitrary: m c)
  case 0
  then show ?case
    by (subst lp_main.simps) simp
next
  case (Suc j)
  let ?r = "show_int (int (Suc m))"
  let ?c = "c\<lparr>lp_sequence := int (Suc m), lp_log := lp_log c @ [Send ?r]\<rparr>"
  have le: "Suc m \<le> n" "j = n - Suc m"
    using Suc.hyps(2) by auto
  have up: "[Suc m..<Suc n] = Suc m # [Suc (Suc m)..<Suc n]"
    using le by (simp add: upt_conv_Cons)
  have "atoi ?r = Some (int (Suc m))"
    using assms(1) le by (intro atoi_show_int) (simp_all add: INT_MAX_def)
  then have "lp_main (\<lambda>k. k = int n) (map (\<lambda>k. Recv (show_int (int k))) [Suc m..<Suc n]) c =
      lp_main (\<lambda>k. k = int n) (map (\<lambda>k. Recv (show_int (int k))) [Suc (Suc m)..<Suc n]) (?c\<lparr>lp_retries_left := 3\<rparr>)"
    using lp_main_step [of c "\<lambda>k. k = int n"] Suc.prems le assms(1) unfolding up
    by (simp add: REQUEST_RETRIES_def add.commute)
  then show ?case
    using Suc.hyps(1) [OF le(2), of "?c\<lparr>lp_retries_left := 3\<rparr>"] le(1) unfolding up by auto
qed

lemma lpserver_echoes:
  assumes "n < 1000000000" and "m \<le> n" and "c_crash ch \<noteq> 0"
  shows "\<exists>log'. lpserver_loop (map (\<lambda>k. (Some (show_int (int k)), ch)) [Suc m..<Suc n]) (int m, log) = Some (True, int n, log') \<and>
    sends log' = sends log @ map (\<lambda>k. show_int (int k)) [Suc m..<Suc n]"
  using assms(2)
proof (induction "n - m" arbitrary: m log)
  case (Suc j)
  have le: "Suc m \<le> n" "j = n - Suc m"
    using Suc.hyps(2) by auto
  have up: "[Suc m..<Suc n] = Suc m # [Suc (Suc m)..<Suc n]"
    using le by (simp add: upt_conv_Cons)
  have "length (show_nat (Suc m)) \<le> 9"
    using length_show_nat [of "Suc m" 8] le assms(1) by simp
  then have r: "c_prefix (take 255 (show_int (int (Suc m)))) = show_int (int (Suc m))" "c_prefix (show_int (int (Suc m))) = show_int (int (Suc m))"
    using c_prefix_show [of "Suc m"] by (simp_all add: show_int_def del: of_nat_Suc)
  obtain log1 where l: "lpserver_turn (Some (show_int (int (Suc m)))) ch (int m, log) = Some (True, int (Suc m), log1)"
      "sends log1 = sends log @ [show_int (int (Suc m))]"
    using assms(1,3) le r
    by (auto simp: lpserver_turn_def s_recv_def s_send_def Let_def c_int_def INT_MIN_def INT_MAX_def add.commute)
  then show ?case
    using Suc.hyps(1) [OF le(2,1), of log1] unfolding up by auto
qed simp

section \<open>Properties\<close>

text \<open>
  C30: The paranoid pirate worker backs off exponentially: while nothing answers, it reconnects after every third poll, having
  slept 1, 2, 4, 8, 16 and from then on 32 seconds, whatever the clock gives for its heartbeats; its counter is full again after
  each reconnection.
\<close>

theorem ppworker_backoff:
  "\<exists>self. ppworker_loop zg clock (replicate (3 * n) (No_input, c)) (ppworker_new zg clock) = Some (True, self) \<and>
     naps (v_log self) = map (\<lambda>i. 1000 * 2 ^ min i 5) [0..<n] \<and> connects (v_log self) = Suc n \<and> v_liveness self = 3 \<and>
     uint (v_interval self) = 1000 * 2 ^ min n 5"
proof -
  have "\<exists>self1. ppworker_loop zg clock (replicate (3 * n) (No_input, c)) self = Some (True, self1) \<and>
      naps (v_log self1) = naps (v_log self) @ map (\<lambda>i. 1000 * 2 ^ min i 5) [k..<k + n] \<and>
      connects (v_log self1) = connects (v_log self) + n \<and> v_liveness self1 = 3 \<and> v_interval self1 = backoff (k + n)"
    if "v_liveness self = 3" "v_interval self = backoff k" for self :: "'a ppworker" and k
    using that
  proof (induction n arbitrary: self k)
    case (Suc n)
    obtain self1 where s1: "ppworker_loop zg clock (replicate (3 * Suc n) (No_input, c)) self =
        ppworker_loop zg clock (replicate (3 * n) (No_input, c)) self1" "v_liveness self1 = 3" "v_interval self1 = backoff (Suc k)"
        "naps (v_log self1) = naps (v_log self) @ [uint (backoff k)]" "connects (v_log self1) = Suc (connects (v_log self))"
      using ppworker_three_silent [OF Suc.prems, of zg clock c c c "replicate (3 * n) (No_input, c)"]
      by (auto simp: numeral_3_eq_3)
    then show ?case
      using Suc.IH [OF s1(2,3)] by (simp add: uint_backoff upt_conv_Cons [of k "Suc (k + n)"] del: upt_Suc)
  qed simp
  from this [of "ppworker_new zg clock" 0] show ?thesis
    by (auto simp: ppworker_new_def s_worker_socket_def backoff_def INTERVAL_INIT_def uint_backoff [unfolded backoff_def])
qed

text \<open>
  Lazy pirate client and server agree: when the server runs on the requests that the client sends, and the client on the
  replies that the server sends, without crashes and losses, the client sends the numbers from 1 to \<open>n\<close>, once each, accepts
  every reply, and keeps all its retries.
\<close>

theorem lazy_pirate_roundtrip:
  assumes "n < 1000000000" and "c_crash ch \<noteq> 0"
  shows "\<exists>c log. lpserver_loop (map (\<lambda>r. (Some r, ch)) (sends (lp_log c))) (0, []) = Some (True, int n, log) \<and>
    lp_main (\<lambda>k. k = int n) (map Recv (sends log)) lp_new = Some (True, c) \<and>
    sends (lp_log c) = map (\<lambda>k. show_int (int k)) [1..<Suc n] \<and> lp_sequence c = int n \<and> lp_retries_left c = 3"
proof -
  obtain c where c: "lp_main (\<lambda>k. k = int n) (map (\<lambda>k. Recv (show_int (int k))) [Suc 0..<Suc n]) lp_new = Some (True, c)"
      "sends (lp_log c) = map (\<lambda>k. show_int (int k)) [Suc 0..<Suc n]" "lp_sequence c = int n" "lp_retries_left c = 3"
    using lp_main_echoed [OF assms(1), of 0 lp_new] by (auto simp: lp_new_def REQUEST_RETRIES_def simp del: upt_Suc)
  obtain log where log: "lpserver_loop (map (\<lambda>k. (Some (show_int (int k)), ch)) [Suc 0..<Suc n]) (0, []) = Some (True, int n, log)"
      "sends log = map (\<lambda>k. show_int (int k)) [Suc 0..<Suc n]"
    using lpserver_echoes [OF assms(1) _ assms(2), of 0 "[]"] by (auto simp del: upt_Suc)
  show ?thesis
    using c log by (intro exI [of _ c] exI [of _ log]) (simp add: comp_def del: upt_Suc)
qed

text \<open>
  The lazy pirate client gives up: after three polls without an answer it has sent its request three times, over a new
  connection each time, and ends. The text of the request fits its array up to number 999999999; the next
  request overruns it.
\<close>

theorem lpclient_abandons:
  assumes "lp_retries_left c = 3" "\<not> interrupted (lp_sequence c)" "0 \<le> lp_sequence c" "lp_sequence c \<le> 999999999"
    and "r = show_int (lp_sequence c + 1)"
  shows "lp_main interrupted (No_input # No_input # No_input # is) c =
    (if lp_sequence c < 999999999
     then Some (True, \<lparr>lp_sequence = lp_sequence c + 1, lp_retries_left = 0,
       lp_log = lp_log c @ [Send r, Connect, Send r, Connect, Send r]\<rparr>)
     else None)"
proof (cases "lp_sequence c < 999999999")
  case True
  then show ?thesis
    using assms lp_main_step [of c interrupted]
    by (simp add: c_int_def INT_MIN_def INT_MAX_def lp_main.simps [of _ "is"])
next
  case False
  then show ?thesis
    using assms length_show_int [of "lp_sequence c + 1"]
    by (subst lp_main.simps) (simp add: c_int_def INT_MIN_def INT_MAX_def)
qed

theorem lazy_pirate_roundtrip_witness:
  "\<exists>c. lp_main (\<lambda>k. k = 2) [Recv ''1'', Recv ''2''] lp_new = Some (True, c) \<and> sends (lp_log c) = [''1'', ''2'']"
proof -
  have s: "map (\<lambda>k. show_int (int k)) [1..<Suc 2] = [''1'', ''2'']"
    by code_simp
  let ?ch = "\<lparr>c_crash = 1, c_overload = 1, c_int1 = False, c_int2 = False\<rparr>"
  have "lpserver_loop [(Some ''1'', ?ch), (Some ''2'', ?ch)] (0, []) =
      Some (True, 2, [Sleep 1000, Send ''1'', Sleep 1000, Send ''2''])"
    by code_simp
  moreover obtain c log where "lpserver_loop (map (\<lambda>r. (Some r, ?ch)) (sends (lp_log c))) (0, []) = Some (True, 2, log)"
      "lp_main (\<lambda>k. k = 2) (map Recv (sends log)) lp_new = Some (True, c)" "sends (lp_log c) = [''1'', ''2'']"
    using lazy_pirate_roundtrip [of 2 ?ch, unfolded s] by auto
  ultimately show ?thesis
    by (auto simp del: lpserver_loop.simps)
qed

theorem lpclient_abandons_witness:
  "lp_main (\<lambda>_. False) [No_input, No_input, No_input] lp_new = Some (True, \<lparr>lp_sequence = 1, lp_retries_left = 0,
     lp_log = [Connect, Send ''1'', Connect, Send ''1'', Connect, Send ''1'']\<rparr>)"
proof -
  have "show_int 1 = ''1''"
    by code_simp
  then show ?thesis
    using lpclient_abandons [of lp_new "\<lambda>_. False" "''1''" "[]"] by (simp add: lp_new_def REQUEST_RETRIES_def)
qed

end
