(* ===== verification/Zmq_Examples.thy ===== *)
theory Zmq_Examples
  imports Pirate_Peers
begin

text \<open>
  The smaller programs under \<^verbatim>\<open>lib/zeromq\<close>: \<^verbatim>\<open>hello_world\<close>, \<^verbatim>\<open>weather_update\<close>, \<^verbatim>\<open>parallet_task\<close>, \<^verbatim>\<open>async/async_server.c\<close> and \<^verbatim>\<open>MDP/tripping.c\<close>, and the random numbers and
  identities of \<^verbatim>\<open>zhelpers.h\<close> that they use. What \<^verbatim>\<open>random\<close> gives, and what the sockets deliver, is input; what is sent is a log. \<^const>\<open>None\<close> is undefined behaviour or a
  failed \<^verbatim>\<open>assert\<close>.
\<close>

section \<open>Random numbers\<close>

text \<open>
  A natural number as a \<^verbatim>\<open>float\<close>: 24 significant bits, rounded to nearest, ties to even. \<open>exp24\<close> is the number of bits that are rounded away.
\<close>

fun exp24 :: "nat \<Rightarrow> nat" where
  "exp24 n = (if n < 2 ^ 24 then 0 else Suc (exp24 (n div 2)))"

declare exp24.simps [simp del]

definition float24 :: "nat \<Rightarrow> nat" where
  "float24 n =
     (let e = exp24 n; q = n div 2 ^ e; r = n mod 2 ^ e in
      if 2 * r > 2 ^ e \<or> 2 * r = 2 ^ e \<and> odd q then (q + 1) * 2 ^ e else q * 2 ^ e)"

text \<open>
  \<^verbatim>\<open>(int) ((float) (num) * random () / (RAND_MAX + 1.0))\<close>: the number that \<^verbatim>\<open>random\<close> gives becomes a \<^verbatim>\<open>float\<close>, and so does the product; the division, by a power of two,
  is exact, and the conversion cuts. \<^verbatim>\<open>RAND_MAX\<close> is that of the GNU C library.
\<close>

definition RAND_MAX :: nat where "RAND_MAX = 2147483647"

definition randof :: "nat \<Rightarrow> nat \<Rightarrow> nat" where
  "randof num random = float24 (float24 num * float24 random) div 2 ^ 31"

section \<open>Identities\<close>

fun hex_text :: "nat \<Rightarrow> string" where
  "hex_text n = (if n < 16 then [hex_digit n] else hex_text (n div 16) @ [hex_digit (n mod 16)])"

declare hex_text.simps [simp del]

definition pad0 :: "nat \<Rightarrow> string \<Rightarrow> string" where
  "pad0 k s = replicate (k - length s) CHR ''0'' @ s"

text \<open>
  \<^verbatim>\<open>s_set_id\<close>, and the same lines in \<^verbatim>\<open>async_server.c\<close>: the identity is written to an array of 10 characters.
\<close>

definition s_set_id :: "nat \<Rightarrow> nat \<Rightarrow> string option" where
  "s_set_id random1 random2 =
     (let identity = pad0 4 (hex_text (randof 0x10000 random1)) @ ''-'' @ pad0 4 (hex_text (randof 0x10000 random2)) in
      if length identity < 10 then Some identity else None)"

section \<open>Hello world\<close>

text \<open>
  Every message that the server receives is answered; the client, which sends ten, takes an answer for each. The arrays have 10 characters, and \<^verbatim>\<open>zmq_recv\<close> cuts what is longer.
  The result of the client is what it has sent, and whether it has come to its end.
\<close>

definition hwserver :: "string list \<Rightarrow> string list" where
  "hwserver received = map (\<lambda>_. ''World'') received"

fun hwclient_loop :: "nat \<Rightarrow> string list \<Rightarrow> string list \<times> bool" where
  "hwclient_loop request_nbr [] = (if request_nbr = 10 then ([], True) else ([''Hello''], False))"
| "hwclient_loop request_nbr (r # rs) =
     (if request_nbr = 10 then ([], True) else let (sent, ended) = hwclient_loop (Suc request_nbr) rs in (''Hello'' # sent, ended))"

section \<open>Weather updates\<close>

text \<open>A turn of the server, with an array of 20 characters for the text.\<close>

definition wuserver_update :: "nat \<times> nat \<times> nat \<Rightarrow> string option" where
  "wuserver_update = (\<lambda>(r1, r2, r3).
     let zipcode = randof 100000 r1; temperature = int (randof 215 r2) - 80; relhumidity = randof 50 r3 + 10;
         update = pad0 5 (show_nat zipcode) @ '' '' @ show_int temperature @ '' '' @ show_nat relhumidity in
     if length update < 20 then Some (s_send update) else None)"

fun wuserver :: "(nat \<times> nat \<times> nat) list \<Rightarrow> string list option" where
  "wuserver [] = Some []"
| "wuserver (u # us) = do { m \<leftarrow> wuserver_update u; ms \<leftarrow> wuserver us; Some (m # ms) }"

text \<open>
  The conversion \<^verbatim>\<open>%d\<close> of \<^verbatim>\<open>sscanf\<close>, with what is left of the text. When it fails the variable stays uninitialised.
\<close>

definition digit_c :: "char \<Rightarrow> bool" where
  "digit_c c \<longleftrightarrow> 48 \<le> (of_char c :: nat) \<and> (of_char c :: nat) \<le> 57"

definition scan_nat :: "string \<Rightarrow> (nat \<times> string) option" where
  "scan_nat s = (if s \<noteq> [] \<and> digit_c (hd s) then Some (digits_val 0 s, dropWhile digit_c s) else None)"

definition scan_int :: "string \<Rightarrow> (int \<times> string) option" where
  "scan_int s =
     (case dropWhile isspace s of
        [] \<Rightarrow> None
      | c # cs \<Rightarrow>
          do {
            (n, rest) \<leftarrow> scan_nat (if c = CHR ''-'' \<or> c = CHR ''+'' then cs else c # cs);
            v \<leftarrow> c_int (if c = CHR ''-'' then - int n else int n);
            Some (v, rest)
          })"

text \<open>The second number of the text.\<close>

definition temperature_of :: "string \<Rightarrow> int option" where
  "temperature_of s = do { (_, rest) \<leftarrow> scan_int s; (t, _) \<leftarrow> scan_int rest; Some t }"

definition c_quot :: "int \<Rightarrow> int \<Rightarrow> int" where
  "c_quot a b = sgn a * sgn b * (\<bar>a\<bar> div \<bar>b\<bar>)"

text \<open>
  The client: a socket of ZeroMQ delivers the messages that start with the filter. The outer \<^const>\<open>None\<close> is undefined behaviour, the inner one a client that still waits.
\<close>

fun wuclient_loop :: "nat \<Rightarrow> int \<Rightarrow> string list \<Rightarrow> int option option" where
  "wuclient_loop update_nbr total_temp [] = Some (if update_nbr = 100 then Some (c_quot total_temp 100) else None)"
| "wuclient_loop update_nbr total_temp (m # ms) =
     (if update_nbr = 100 then Some (Some (c_quot total_temp 100))
      else do {
        string \<leftarrow> s_recv (Some m);
        temperature \<leftarrow> temperature_of string;
        wuclient_loop (Suc update_nbr) (total_temp + temperature) ms
      })"

definition starts_with :: "string \<Rightarrow> string \<Rightarrow> bool" where
  "starts_with f m \<longleftrightarrow> take (length f) m = f"

definition wuclient :: "string \<Rightarrow> string list \<Rightarrow> int option option" where
  "wuclient f published = wuclient_loop 0 0 (filter (starts_with f) published)"

section \<open>Parallel tasks\<close>

text \<open>The loop of \<^verbatim>\<open>taskvent.c\<close>, on what \<^verbatim>\<open>random\<close> gives in each turn: the texts sent to the workers, and the expected cost.\<close>

fun taskvent_loop :: "nat list \<Rightarrow> int \<Rightarrow> (string list \<times> int) option" where
  "taskvent_loop [] total_msec = Some ([], total_msec)"
| "taskvent_loop (r # rs) total_msec = do {
     let workload = int (randof 100 r) + 1;
     total \<leftarrow> c_int (total_msec + workload);
     let string = show_int workload;
     _ \<leftarrow> (if length string < 10 then Some () else None);
     (sent, total) \<leftarrow> taskvent_loop rs total;
     Some (s_send string # sent, total)
   }"

text \<open>What goes to the sink first, what goes to the workers, and the cost.\<close>

definition taskvent :: "nat list \<Rightarrow> (string \<times> string list \<times> int) option" where
  "taskvent rs = (if length rs = 100 then do { (sent, total) \<leftarrow> taskvent_loop rs 0; Some (s_send ''0'', sent, total) } else None)"

section \<open>The asynchronous server\<close>

text \<open>
  A turn of \<^verbatim>\<open>server_worker\<close>: what is sent, identity and content in two frames, for each of the replies. The sleeps are left out.
\<close>

definition server_worker :: "'m zmsg_api \<Rightarrow> nat \<Rightarrow> 'm \<Rightarrow> byte list list option" where
  "server_worker zg random msg = do {
     let (identity, msg) = zg_pop zg msg;
     let (content, msg) = zg_pop zg msg;
     content \<leftarrow> content;
     identity \<leftarrow> identity;
     Some (concat (replicate (randof 5 random) [identity, content]))
   }"

text \<open>
  A turn of the outer loop of \<^verbatim>\<open>client_task\<close>: what each of the 100 polls delivers, and then a request. The last frame of a message is printed.
\<close>

definition client_task_turn :: "'m zmsg_api \<Rightarrow> nat \<Rightarrow> 'm option list \<Rightarrow> (byte list option list \<times> string \<times> nat) option" where
  "client_task_turn zg request_nbr polls =
     (if length polls = 100
      then Some (map (zg_last zg) (concat (map (\<lambda>p. case p of None \<Rightarrow> [] | Some m \<Rightarrow> [m]) polls)), ''request #'' @ show_nat (Suc request_nbr), Suc request_nbr)
      else None)"

section \<open>Round trips\<close>

text \<open>
  \<^verbatim>\<open>tripping.c\<close>: a round of \<open>calls\<close> calls and the speed that is printed, from the clock before and after it. The difference is converted to \<^verbatim>\<open>int\<close>; it may be 0.
\<close>

definition trip_speed :: "int \<Rightarrow> int \<Rightarrow> int \<Rightarrow> int option" where
  "trip_speed calls start stop =
     (let d = sint (word_of_int (stop - start) :: 32 word) in
      if d = 0 then None else Some (c_quot (1000 * calls) d))"

text \<open>\<^verbatim>\<open>worker_task\<close> sends back what it receives.\<close>

definition worker_task :: "'m list \<Rightarrow> 'm list" where
  "worker_task received = map (\<lambda>msg. msg) received"

text \<open>
  \<^verbatim>\<open>client_task\<close>, on the readings of the clock: the number of messages sent in the two tests, the speeds, and the text that tells \<^verbatim>\<open>main\<close> of the end.
\<close>

definition trip_client :: "int \<Rightarrow> int \<Rightarrow> int \<Rightarrow> int \<Rightarrow> (string list \<times> int \<times> int \<times> string) option" where
  "trip_client t1 t2 t3 t4 = do {
     v1 \<leftarrow> trip_speed 10000 t1 t2;
     v2 \<leftarrow> trip_speed 100000 t3 t4;
     Some (replicate (10000 + 100000) ''hello'', v1, v2, ''done'')
   }"

section \<open>The range of random numbers\<close>

lemma exp24_upper: "n < 2 ^ 24 * 2 ^ exp24 n"
proof (induction n rule: exp24.induct)
  case (1 n)
  then show ?case
    by (cases "n < 2 ^ 24") (auto simp: exp24.simps [of n])
qed

lemma exp24_lower: "exp24 n \<noteq> 0 \<Longrightarrow> 2 ^ 23 * 2 ^ exp24 n \<le> n"
proof (induction n rule: exp24.induct)
  case (1 n)
  then have n: "\<not> n < 2 ^ 24"
    by (auto simp: exp24.simps [of n])
  show ?case
  proof (cases "exp24 (n div 2) = 0")
    case True
    then show ?thesis
      using n by (simp add: exp24.simps [of n])
  next
    case False
    then have "2 ^ 23 * 2 ^ exp24 (n div 2) \<le> n div 2"
      using 1(1) [OF n] by simp
    then show ?thesis
      using n by (simp add: exp24.simps [of n])
  qed
qed

lemma float24_small [simp]: "n < 2 ^ 24 \<Longrightarrow> float24 n = n"
  by (simp add: float24_def exp24.simps [of n])

text \<open>Rounding does not pass a number that a \<^verbatim>\<open>float\<close> can represent.\<close>

lemma float24_le:
  assumes "n \<le> k * 2 ^ j" "k < 2 ^ 24"
  shows "float24 n \<le> k * 2 ^ j"
proof (cases "exp24 n = 0")
  case True
  then show ?thesis
    using assms(1) by (simp add: float24_def)
next
  case False
  define e where "e = exp24 n"
  have low: "2 ^ 23 * 2 ^ e \<le> n"
    using exp24_lower [OF False] by (simp add: e_def)
  have "e \<le> j"
  proof (rule ccontr)
    assume "\<not> e \<le> j"
    then have "(2 :: nat) ^ Suc j \<le> 2 ^ e"
      by (intro power_increasing) auto
    then have e: "2 ^ 23 * 2 ^ Suc j \<le> 2 ^ 23 * (2 ^ e :: nat)"
      by (rule mult_le_mono2)
    have "k * 2 ^ j < 2 ^ 24 * 2 ^ j"
      using assms(2) by (intro mult_strict_right_mono) auto
    also have "2 ^ 24 * 2 ^ j = (2 :: nat) ^ 23 * 2 ^ Suc j"
      by simp
    finally have "k * 2 ^ j < 2 ^ 23 * 2 ^ e"
      using e by (rule less_le_trans)
    then show False
      using low assms(1) by simp
  qed
  then obtain m where m: "k * 2 ^ j = m * 2 ^ e"
    by (metis dvd_def dvd_mult le_imp_power_dvd mult.commute)
  have "n div 2 ^ e < m" if "n mod 2 ^ e \<noteq> 0"
  proof -
    have "n \<noteq> m * 2 ^ e"
      using that by auto
    then have "n < m * 2 ^ e"
      using assms(1) m by simp
    then show ?thesis
      by (simp add: less_mult_imp_div_less)
  qed
  moreover have "n div 2 ^ e \<le> m"
    using assms(1) m by (metis div_le_mono nonzero_mult_div_cancel_right power_not_zero zero_neq_numeral)
  ultimately have "float24 n \<le> m * 2 ^ e"
    by (auto simp: float24_def e_def [symmetric] Let_def simp del: mult_Suc intro!: mult_le_mono1 split: if_splits) fastforce
  then show ?thesis
    by (simp add: m)
qed

lemma randof_le:
  assumes "random \<le> RAND_MAX" "num < 2 ^ 24"
  shows "randof num random \<le> num"
proof -
  have "float24 random \<le> 1 * 2 ^ 31"
    using assms(1) by (intro float24_le) (simp_all add: RAND_MAX_def)
  then have "float24 num * float24 random \<le> num * 2 ^ 31"
    using assms(2) by simp
  then have "float24 (float24 num * float24 random) \<le> num * 2 ^ 31"
    using assms(2) by (intro float24_le)
  then show ?thesis
    by (simp add: randof_def div_le_mono [of _ "num * 2 ^ 31" "2 ^ 31", simplified])
qed

lemma randof_reaches: "randof 65536 RAND_MAX = 65536" "randof 5 RAND_MAX = 5"
  by (simp_all add: randof_def float24_def RAND_MAX_def exp24.simps)

section \<open>Texts and numbers\<close>

lemma length_show_hex: "length (hex_text n) \<le> Suc k \<longleftrightarrow> n < 16 ^ Suc k"
proof (induction k arbitrary: n)
  case 0
  then show ?case
    by (cases "n < 16") (simp_all add: hex_text.simps [of n] hex_text.simps [of "n div 16"])
next
  case (Suc k)
  show ?case
  proof (cases "n < 16")
    case True
    then have "n < 16 ^ Suc (Suc k)"
      by (rule less_le_trans) simp
    then show ?thesis
      using True by (simp add: hex_text.simps [of n])
  next
    case False
    then show ?thesis
      using Suc [of "n div 16"] by (simp add: hex_text.simps [of n] div_less_iff_less_mult mult.commute)
  qed
qed

lemma length_pad0: "length (pad0 k s) = max k (length s)"
  by (simp add: pad0_def)

lemma length_pad_hex: "length (pad0 4 (hex_text n)) = 4 \<longleftrightarrow> n < 65536" "4 \<le> length (pad0 4 (hex_text n))"
  using length_show_hex [of n 3] by (auto simp: length_pad0 max_def)

lemma s_set_id_fits: "s_set_id r1 r2 \<noteq> None \<longleftrightarrow> randof 0x10000 r1 < 65536 \<and> randof 0x10000 r2 < 65536"
  using length_pad_hex [of "randof 0x10000 r1"] length_pad_hex [of "randof 0x10000 r2"] by (simp add: s_set_id_def Let_def) arith

text \<open>Reading back a number that was printed.\<close>

lemma show_nat_nonempty: "\<exists>d cs. show_nat n = d # cs \<and> digit_c d"
proof -
  obtain d :: nat and cs where "d < 10" "show_nat n = char_of (48 + d) # cs"
    using show_nat_hd by blast
  then show ?thesis
    by (auto simp: digit_c_def)
qed

lemma show_nat_all_digits: "c \<in> set (show_nat n) \<Longrightarrow> digit_c c"
  using show_nat_digits [of c n] by (auto simp: digit_c_def)

lemma pad0_digits: "c \<in> set (pad0 k (show_nat n)) \<Longrightarrow> digit_c c"
  using show_nat_all_digits [of c n] by (auto simp: pad0_def digit_c_def)

lemma pad0_Cons: "\<exists>d cs. pad0 k (show_nat n) = d # cs \<and> digit_c d"
proof -
  have "pad0 k (show_nat n) \<noteq> []"
    using show_nat_nonempty [of n] by (auto simp: pad0_def)
  then show ?thesis
    using pad0_digits by (metis list.exhaust list.set_intros(1))
qed

lemma digits_val_zeros: "digits_val 0 (replicate k CHR ''0'' @ s) = digits_val 0 s"
  by (induction k) auto

lemma digits_val_stop: "s = [] \<or> \<not> digit_c (hd s) \<Longrightarrow> digits_val a s = a"
  by (cases s) (auto simp: digit_c_def)

lemma scan_nat_pad:
  assumes "rest = [] \<or> \<not> digit_c (hd rest)"
  shows "scan_nat (pad0 k (show_nat n) @ rest) = Some (n, rest)"
proof -
  have "pad0 k (show_nat n) @ rest \<noteq> []" "digit_c (hd (pad0 k (show_nat n) @ rest))"
    using pad0_Cons [of k n] by auto
  moreover have "digits_val 0 (pad0 k (show_nat n) @ rest) = n"
    using digits_val_show [of 0 n rest] digits_val_stop [OF assms] by (simp add: pad0_def digits_val_zeros)
  moreover have "dropWhile digit_c (pad0 k (show_nat n) @ rest) = rest"
  proof -
    have "dropWhile digit_c (pad0 k (show_nat n) @ rest) = dropWhile digit_c rest"
      using pad0_digits by (intro dropWhile_append2) blast
    then show ?thesis
      using assms by (cases rest) auto
  qed
  ultimately show ?thesis
    by (simp add: scan_nat_def)
qed

lemma digit_no_space: "digit_c c \<Longrightarrow> \<not> isspace c \<and> c \<noteq> CHR ''-'' \<and> c \<noteq> CHR ''+'' \<and> c \<noteq> NUL"
  by (auto simp: digit_c_def isspace_def NUL_def TAB_def NL_def)

lemma scan_int_pad:
  assumes "rest = [] \<or> \<not> digit_c (hd rest)" "int n \<le> INT_MAX"
  shows "scan_int (pad0 k (show_nat n) @ rest) = Some (int n, rest)"
proof -
  obtain d cs where d: "pad0 k (show_nat n) = d # cs" "digit_c d"
    using pad0_Cons by blast
  then show ?thesis
    using scan_nat_pad [OF assms(1), of k n] assms(2) d digit_no_space [of d] by (simp add: scan_int_def c_int_def INT_MIN_def)
qed

lemma show_pad: "show_nat n = pad0 0 (show_nat n)"
  by (simp add: pad0_def)

lemma scan_int_show:
  assumes "rest = [] \<or> \<not> digit_c (hd rest)" "INT_MIN \<le> v" "v \<le> INT_MAX"
  shows "scan_int (CHR '' '' # show_int v @ rest) = Some (v, rest)"
proof (cases "v < 0")
  case True
  then show ?thesis
    using scan_nat_pad [OF assms(1), of 0 "nat (- v)"] assms(2,3)
    by (simp add: scan_int_def show_int_def isspace_def TAB_def NL_def c_int_def flip: show_pad)
next
  case False
  then have "scan_int (show_int v @ rest) = Some (v, rest)"
    using scan_int_pad [OF assms(1), of "nat v" 0] assms(3) by (simp add: show_int_def flip: show_pad)
  then show ?thesis
    by (simp add: scan_int_def isspace_def)
qed

section \<open>Lemmas\<close>

definition temp_of :: "nat \<times> nat \<times> nat \<Rightarrow> int" where
  "temp_of = (\<lambda>(r1, r2, r3). int (randof 215 r2) - 80)"

definition text_of :: "nat \<times> nat \<times> nat \<Rightarrow> string" where
  "text_of u = the (wuserver_update u)"

definition randoms :: "nat \<times> nat \<times> nat \<Rightarrow> bool" where
  "randoms = (\<lambda>(r1, r2, r3). r1 \<le> RAND_MAX \<and> r2 \<le> RAND_MAX \<and> r3 \<le> RAND_MAX)"

lemma temp_of_range: "randoms u \<Longrightarrow> -80 \<le> temp_of u \<and> temp_of u \<le> 135"
  using randof_le [of "fst (snd u)" 215] by (auto simp: randoms_def temp_of_def split: prod.splits)

lemma show_int_NUL: "NUL \<notin> set (show_int v)"
  using show_nat_all_digits digit_no_space by (auto simp: show_int_def NUL_def)

lemma length_show_temp: "-80 \<le> v \<Longrightarrow> v \<le> 135 \<Longrightarrow> length (show_int v) \<le> 3"
  using length_show_nat [of "nat (- v)" 1] length_show_nat [of "nat v" 2] by (auto simp: show_int_def)

lemma wuserver_update_ok:
  assumes "randoms u"
  shows "wuserver_update u = Some (text_of u) \<and> s_recv (Some (text_of u)) = Some (text_of u) \<and> temperature_of (text_of u) = Some (temp_of u)"
proof -
  obtain r1 r2 r3 where u: "u = (r1, r2, r3)"
    by (cases u)
  let ?z = "randof 100000 r1" and ?t = "temp_of u" and ?h = "randof 50 r3 + 10"
  let ?m = "pad0 5 (show_nat ?z) @ CHR '' '' # show_int ?t @ CHR '' '' # show_nat ?h"
  have r: "?z \<le> 100000" "?h \<le> 60" "-80 \<le> ?t" "?t \<le> 135"
    using randof_le [of r1 100000] randof_le [of r3 50] assms temp_of_range [OF assms] by (auto simp: u randoms_def)
  have nul: "NUL \<notin> set ?m"
    using pad0_digits digit_no_space show_nat_all_digits show_int_NUL by (fastforce simp: NUL_def)
  have "length (pad0 5 (show_nat ?z)) \<le> 6" "length (show_nat ?h) \<le> 2"
    using length_show_nat [of ?z 5] length_show_nat [of ?h 1] r by (auto simp: length_pad0)
  then have len: "length ?m < 20"
    using length_show_temp [OF r(3,4)] by simp
  have cp: "c_prefix ?m = ?m"
    using nul by (simp only: takeWhile_eq_all_conv) blast
  then have up: "wuserver_update u = Some ?m"
    using len by (simp add: u wuserver_update_def temp_of_def s_send_def Let_def)
  have "s_recv (Some ?m) = Some ?m"
    using len cp by (simp add: s_recv_def)
  moreover have "temperature_of ?m = Some ?t"
    using scan_int_pad [of "CHR '' '' # show_int ?t @ CHR '' '' # show_nat ?h" ?z 5] scan_int_show [of "CHR '' '' # show_nat ?h" ?t] r
    by (simp add: temperature_of_def digit_c_def INT_MIN_def INT_MAX_def)
  ultimately show ?thesis
    using up by (simp add: text_of_def)
qed

lemma wuserver_texts: "\<forall>u \<in> set us. randoms u \<Longrightarrow> wuserver us = Some (map text_of us)"
  by (induction us) (use wuserver_update_ok in auto)

lemma wuclient_loop_texts:
  "\<forall>u \<in> set us. randoms u \<Longrightarrow> n \<le> 100 \<Longrightarrow> wuclient_loop n tot (map text_of us) =
     Some (if 100 \<le> n + length us then Some (c_quot (tot + sum_list (map temp_of (take (100 - n) us))) 100) else None)"
proof (induction us arbitrary: n tot)
  case (Cons u us)
  show ?case
  proof (cases "n = 100")
    case False
    then have "take (100 - n) (u # us) = u # take (100 - Suc n) us"
      using Cons.prems(2) by (simp add: take_Cons')
    then show ?thesis
      using Cons False wuserver_update_ok [of u] by (simp add: add.assoc)
  qed simp
qed auto

lemma c_quot_range:
  assumes "b * lo \<le> a" "a \<le> b * hi" "lo \<le> 0" "0 \<le> hi" "0 < b"
  shows "lo \<le> c_quot a b \<and> c_quot a b \<le> hi"
proof (cases "a < 0")
  case True
  have "(- a) div b \<le> ((- lo) * b) div b"
    using assms(1,5) by (intro zdiv_mono1) (auto simp: mult.commute)
  then have "(- a) div b \<le> - lo"
    using assms(5) by (simp del: mult_minus_left)
  moreover have "0 \<le> (- a) div b"
    using True assms(5) by (simp add: pos_imp_zdiv_nonneg_iff)
  ultimately show ?thesis
    using True assms(3-5) by (simp add: c_quot_def)
next
  case False
  have "a div b \<le> (b * hi) div b"
    using assms(2,5) by (intro zdiv_mono1) auto
  moreover have "0 \<le> a div b"
    using False assms(5) by (simp add: pos_imp_zdiv_nonneg_iff)
  ultimately show ?thesis
    using False assms(3-5) by (cases "a = 0") (auto simp: c_quot_def)
qed

lemma sum_list_range:
  "\<forall>x \<in> set xs. lo \<le> f x \<and> f x \<le> (hi :: int) \<Longrightarrow> int (length xs) * lo \<le> sum_list (map f xs) \<and> sum_list (map f xs) \<le> int (length xs) * hi"
  by (induction xs) (auto simp: algebra_simps)

lemma taskvent_cost:
  assumes "\<forall>r \<in> set rs. r \<le> RAND_MAX" "0 \<le> tot" "tot + 101 * int (length rs) \<le> INT_MAX"
  shows "\<exists>sent. taskvent_loop rs tot = Some (sent, tot + sum_list (map (\<lambda>s. the (atoi s)) sent)) \<and> length sent = length rs"
  using assms
proof (induction rs arbitrary: tot)
  case (Cons r rs)
  let ?w = "int (randof 100 r) + 1"
  have w: "?w \<le> 101"
    using randof_le [of r 100] Cons.prems(1) by simp
  then obtain sent where sent: "taskvent_loop rs (tot + ?w) = Some (sent, tot + ?w + sum_list (map (\<lambda>s. the (atoi s)) sent))" "length sent = length rs"
    using Cons.IH [of "tot + ?w"] Cons.prems by auto
  have "c_int (tot + ?w) = Some (tot + ?w)"
    using Cons.prems(2,3) w by (simp add: c_int_def INT_MIN_def)
  moreover have "length (show_int ?w) < 10"
    using length_show_int [of ?w] w by simp
  moreover have "atoi (c_prefix (show_int ?w)) = Some ?w"
    using atoi_show_int [of ?w] w by (simp add: show_int_def c_prefix_show INT_MAX_def)
  ultimately show ?case
    using sent by (simp add: s_send_def Let_def add.assoc)
qed simp

lemma server_worker_replies:
  assumes "zmsg_laws zg" "zg_frames zg msg = identity # content # rest" "random \<le> RAND_MAX"
  shows "\<exists>k \<le> 5. server_worker zg random msg = Some (concat (replicate k [identity, content]))"
  using assms randof_le [of random 5] by (intro exI [of _ "randof 5 random"]) (simp add: server_worker_def split_def)

text \<open>A round that takes less than a millisecond divides by 0.\<close>

lemma trip_speed_undefined: "trip_speed calls t t = None"
  by (simp add: trip_speed_def)

lemma hello_exchange: "hwclient_loop 0 (hwserver (replicate 10 ''Hello'')) = (replicate 10 ''Hello'', True)"
  by (simp add: hwserver_def numeral_eq_Suc)

section \<open>Properties\<close>

text \<open>
  C37: \<^verbatim>\<open>randof(num)\<close> is at most \<open>num\<close>, which it can be, although its comment promises less: for the largest value of \<^verbatim>\<open>random\<close>, which rounds up as a \<^verbatim>\<open>float\<close>, it is \<open>num\<close>. The
  identity of a socket fits its array exactly when this does not happen.
\<close>

theorem randof_range:
  assumes "random \<le> RAND_MAX" "num < 2 ^ 24"
  shows "randof num random \<le> num \<and> randof 0x10000 RAND_MAX = 0x10000 \<and>
    (s_set_id random random' = None \<longleftrightarrow> randof 0x10000 random = 0x10000 \<or> \<not> randof 0x10000 random' < 0x10000)"
  using randof_le [OF assms] randof_le [OF assms(1), of 65536] randof_reaches(1) s_set_id_fits [of random random'] by auto

text \<open>
  C33: Weather server and client against each other: the server never overruns its array, and a client that gets a hundred updates with its prefix computes the mean of the
  temperatures that the server has drawn for the first hundred of them, cut to an integer; it is between -80 and 135.
\<close>

theorem weather_average:
  assumes "\<forall>u \<in> set us. randoms u" "mine = filter (\<lambda>u. starts_with f (text_of u)) us" "100 \<le> length mine"
  shows "\<exists>ms avg. wuserver us = Some ms \<and> wuclient f ms = Some (Some avg) \<and> avg = c_quot (sum_list (map temp_of (take 100 mine))) 100 \<and> -80 \<le> avg \<and> avg \<le> 135"
proof -
  have m: "\<forall>u \<in> set mine. randoms u"
    using assms(1,2) by simp
  have "filter (starts_with f) (map text_of us) = map text_of mine"
    by (simp add: assms(2) filter_map o_def)
  then have "wuclient f (map text_of us) = Some (Some (c_quot (sum_list (map temp_of (take 100 mine))) 100))"
    using wuclient_loop_texts [OF m, of 0 0] assms(3) by (simp add: wuclient_def)
  moreover have "\<forall>u \<in> set (take 100 mine). -80 \<le> temp_of u \<and> temp_of u \<le> 135"
    using temp_of_range m by (blast dest: in_set_takeD)
  from sum_list_range [OF this] have "-80 \<le> c_quot (sum_list (map temp_of (take 100 mine))) 100 \<and> c_quot (sum_list (map temp_of (take 100 mine))) 100 \<le> 135"
    using assms(3) by (intro c_quot_range) auto
  ultimately show ?thesis
    using wuserver_texts [OF assms(1)] by blast
qed

theorem randof_range_witness: "randof 0x10000 RAND_MAX \<le> 0x10000 \<and> s_set_id RAND_MAX 0 = None"
  using randof_range [of RAND_MAX 65536 0] by simp

theorem weather_average_witness: "\<exists>ms. wuserver (replicate 100 (0, 0, 0)) = Some ms \<and> wuclient [] ms = Some (Some (-80))"
proof -
  let ?us = "replicate 100 (0, 0, 0) :: (nat \<times> nat \<times> nat) list"
  have r: "\<forall>u \<in> set ?us. randoms u"
    by (simp add: randoms_def)
  have m: "?us = filter (\<lambda>u. starts_with [] (text_of u)) ?us"
    by (simp add: starts_with_def)
  have t: "temp_of (0, 0, 0) = -80"
    by (simp add: temp_of_def randof_def)
  show ?thesis
    using weather_average [OF r m] by (simp add: t sum_list_replicate c_quot_def)
qed

end
