(* ===== verification/Buffer_Events.thy ===== *)
theory Buffer_Events
  imports C_Strings "HOL-Library.Monad_Syntax"
begin

text \<open>
  The servers \<^verbatim>\<open>lib/libevent/server_echo.c\<close> and \<^verbatim>\<open>server_one.c\<close>, on the buffered events of libevent. libevent is not part of the repository: a \<^verbatim>\<open>bufferevent\<close> has an abstract type, and
  the calls that read, write and look at it are the fields of \<open>bufferevent_api\<close>, a parameter of the callbacks. \<open>bufferevent_laws\<close> states what its manual promises.
  The order of the callbacks is the event loop's.
\<close>

section \<open>The library\<close>

record 'b bufferevent_api =
  be_new :: "int \<Rightarrow> 'b"
  be_fd :: "'b \<Rightarrow> int"
  be_read :: "'b \<Rightarrow> nat \<Rightarrow> string \<times> 'b"
  be_write :: "'b \<Rightarrow> string \<Rightarrow> 'b"
  be_input :: "'b \<Rightarrow> string"
  be_output :: "'b \<Rightarrow> string"

text \<open>
  A new one is empty. \<^verbatim>\<open>bufferevent_read\<close> removes up to so many bytes from the front of the input and gives them; \<^verbatim>\<open>bufferevent_write\<close> appends to the output.
\<close>

definition bufferevent_laws :: "'b bufferevent_api \<Rightarrow> bool" where
  "bufferevent_laws be \<longleftrightarrow>
     (\<forall>fd. be_fd be (be_new be fd) = fd \<and> be_input be (be_new be fd) = [] \<and> be_output be (be_new be fd) = []) \<and>
     (\<forall>b n. fst (be_read be b n) = take n (be_input be b) \<and> be_input be (snd (be_read be b n)) = drop n (be_input be b) \<and>
        be_output be (snd (be_read be b n)) = be_output be b \<and> be_fd be (snd (be_read be b n)) = be_fd be b) \<and>
     (\<forall>b s. be_output be (be_write be b s) = be_output be b @ s \<and> be_input be (be_write be b s) = be_input be b \<and> be_fd be (be_write be b s) = be_fd be b)"

lemma bufferevent_simps [simp]:
  assumes "bufferevent_laws be"
  shows "be_fd be (be_new be fd) = fd" "be_input be (be_new be fd) = []" "be_output be (be_new be fd) = []"
    "fst (be_read be b n) = take n (be_input be b)" "be_input be (snd (be_read be b n)) = drop n (be_input be b)"
    "be_output be (snd (be_read be b n)) = be_output be b" "be_fd be (snd (be_read be b n)) = be_fd be b"
    "be_output be (be_write be b s) = be_output be b @ s" "be_input be (be_write be b s) = be_input be b" "be_fd be (be_write be b s) = be_fd be b"
  using assms unfolding bufferevent_laws_def by blast+

section \<open>The echo server\<close>

definition ECHO_LINE :: nat where "ECHO_LINE = 256"

text \<open>
  The connections that are open, by descriptor, and what was printed. \<^const>\<open>None\<close> as a result is a callback on a connection that was freed, or an access outside an array.
\<close>

record 'b echo_state =
  ec_conns :: "int \<rightharpoonup> 'b"
  ec_out :: string

text \<open>\<open>fd\<close> is what \<^verbatim>\<open>accept\<close> gives.\<close>

definition echo_accept :: "'b bufferevent_api \<Rightarrow> int \<Rightarrow> 'b echo_state \<Rightarrow> 'b echo_state" where
  "echo_accept be fd s =
     (if fd < 0 then s
      else s\<lparr>ec_conns := (ec_conns s)(fd \<mapsto> be_new be fd), ec_out := ec_out s @ ''accept: fd = '' @ show_int fd @ [NL]\<rparr>)"

text \<open>The loop of \<^verbatim>\<open>read_cb\<close>. \<open>line\<close> has room for \<open>ECHO_LINE\<close> characters and a NUL.\<close>

partial_function (option) read_loop :: "'b bufferevent_api \<Rightarrow> int \<Rightarrow> 'b \<Rightarrow> string \<Rightarrow> ('b \<times> string) option" where
  "read_loop be fd bev out =
     (let (line, bev1) = be_read be bev ECHO_LINE in
      if line = [] then Some (bev1, out)
      else if length line \<le> ECHO_LINE
      then read_loop be fd (be_write be bev1 line) (out @ ''fd='' @ show_int fd @ '', read line : '' @ c_prefix line)
      else None)"

definition read_cb :: "'b bufferevent_api \<Rightarrow> int \<Rightarrow> 'b echo_state \<Rightarrow> 'b echo_state option" where
  "read_cb be fd s = do {
     bev \<leftarrow> ec_conns s fd;
     (bev, out) \<leftarrow> read_loop be (be_fd be bev) bev (ec_out s);
     Some (s\<lparr>ec_conns := (ec_conns s)(fd \<mapsto> bev), ec_out := out\<rparr>)
   }"

datatype bev_event = TIMEOUT | EOF | ERROR | OTHER

definition error_cb :: "'b bufferevent_api \<Rightarrow> int \<Rightarrow> bev_event \<Rightarrow> 'b echo_state \<Rightarrow> 'b echo_state option" where
  "error_cb be fd event s = do {
     bev \<leftarrow> ec_conns s fd;
     let out = ec_out s @ ''fd = '' @ show_int (be_fd be bev) @ '', '' @
       (case event of TIMEOUT \<Rightarrow> ''Time out'' @ [NL] | EOF \<Rightarrow> ''connection closed'' @ [NL] | ERROR \<Rightarrow> ''some other error'' @ [NL] | OTHER \<Rightarrow> []);
     Some (s\<lparr>ec_conns := (ec_conns s)(fd := None), ec_out := out\<rparr>)
   }"

section \<open>The greeting server\<close>

text \<open>
  \<^verbatim>\<open>server_one.c\<close>: a new connection is sent a text; an interrupt ends the loop after two seconds. \<open>made\<close> tells whether a \<^verbatim>\<open>bufferevent\<close> could be made; if not, the loop is
  broken off.
\<close>

record 'b greeter =
  gr_conns :: "int \<rightharpoonup> 'b"
  gr_exit :: "int option"

definition listener_cb :: "'b bufferevent_api \<Rightarrow> int \<Rightarrow> bool \<Rightarrow> 'b greeter \<Rightarrow> 'b greeter" where
  "listener_cb be fd made s =
     (if \<not> made then s\<lparr>gr_exit := Some 0\<rparr>
      else s\<lparr>gr_conns := (gr_conns s)(fd \<mapsto> be_write be (be_new be fd) (''hello,world'' @ [NL]))\<rparr>)"

definition signal_cb :: "'b greeter \<Rightarrow> 'b greeter" where
  "signal_cb s = s\<lparr>gr_exit := Some 2\<rparr>"

section \<open>Properties\<close>

lemma read_loop_echoes:
  assumes "bufferevent_laws be"
  shows "\<exists>bev' out'. read_loop be fd bev out = Some (bev', out') \<and> be_input be bev' = [] \<and> be_output be bev' = be_output be bev @ be_input be bev \<and>
    be_fd be bev' = be_fd be bev"
proof (induction "length (be_input be bev)" arbitrary: bev out rule: less_induct)
  case less
  obtain line bev1 where r: "be_read be bev ECHO_LINE = (line, bev1)"
    by (cases "be_read be bev ECHO_LINE")
  have l: "line = take ECHO_LINE (be_input be bev)" "be_input be bev1 = drop ECHO_LINE (be_input be bev)" "be_output be bev1 = be_output be bev"
    "be_fd be bev1 = be_fd be bev"
    using bufferevent_simps(4-7) [OF assms, of bev ECHO_LINE] r by simp_all
  show ?case
  proof (cases "be_input be bev = []")
    case True
    then show ?thesis
      using r l by (subst read_loop.simps) simp
  next
    case False
    let ?bev = "be_write be bev1 line"
    have ne: "line \<noteq> []"
      using False l(1) by (simp add: ECHO_LINE_def)
    have len: "length line \<le> ECHO_LINE"
      using l(1) by simp
    have "length (be_input be ?bev) < length (be_input be bev)"
      using False l(2) assms by (simp add: ECHO_LINE_def)
    from less [OF this] obtain bev' out' where
      "read_loop be fd ?bev (out @ ''fd='' @ show_int fd @ '', read line : '' @ c_prefix line) = Some (bev', out')" "be_input be bev' = []"
      "be_output be bev' = be_output be ?bev @ be_input be ?bev" "be_fd be bev' = be_fd be ?bev"
      by blast
    then show ?thesis
      using r l assms ne len by (subst read_loop.simps) (auto simp: Let_def)
  qed
qed

text \<open>
  The echo server: whatever is in the input of a connection when \<^verbatim>\<open>read_cb\<close> is called is appended to its output, in order and without loss, the loop ends, and the other
  connections are as they were. A connection that was freed is not known any more.
\<close>

lemma read_cb_echoes:
  assumes "bufferevent_laws be" "ec_conns s fd = Some bev"
  shows "\<exists>s' bev'. read_cb be fd s = Some s' \<and> ec_conns s' = (ec_conns s)(fd \<mapsto> bev') \<and> be_input be bev' = [] \<and>
    be_output be bev' = be_output be bev @ be_input be bev"
  using read_loop_echoes [OF assms(1), of "be_fd be bev" bev "ec_out s"] assms(2) by (auto simp: read_cb_def)

lemma error_cb_frees:
  "ec_conns s fd \<noteq> None \<Longrightarrow> \<exists>s'. error_cb be fd event s = Some s' \<and> ec_conns s' = (ec_conns s)(fd := None) \<and> read_cb be fd s' = None"
  by (auto simp: error_cb_def read_cb_def Let_def)

lemma greeting_sent:
  "bufferevent_laws be \<Longrightarrow> \<exists>b. gr_conns (listener_cb be fd True s) fd = Some b \<and> be_output be b = ''hello,world'' @ [NL]"
  by (simp add: listener_cb_def)

text \<open>An instance of the library: a descriptor and two strings.\<close>

definition ex_bufferevent :: "(int \<times> string \<times> string) bufferevent_api" where
  "ex_bufferevent = \<lparr>be_new = (\<lambda>fd. (fd, [], [])), be_fd = fst, be_read = (\<lambda>(fd, i, out) n. (take n i, fd, drop n i, out)),
     be_write = (\<lambda>(fd, i, out) s. (fd, i, out @ s)), be_input = (\<lambda>(fd, i, out). i), be_output = (\<lambda>(fd, i, out). out)\<rparr>"

lemma ex_bufferevent_laws: "bufferevent_laws ex_bufferevent"
  by (auto simp: bufferevent_laws_def ex_bufferevent_def)

end
