(* ===== verification/Regexp.thy ===== *)
theory Regexp
  imports Bns_Lines
begin

text \<open>
  The program \<^verbatim>\<open>lib/regex/regexp.c\<close>, which prints the lines of its input that match a pattern, with their groups. The POSIX functions are the parameter \<open>re\<close> of \<^verbatim>\<open>Bns_Lines\<close>;
  \<^const>\<open>None\<close> is an access outside an array. Messages on the standard error are left out.
\<close>

section \<open>The program\<close>

text \<open>\<^verbatim>\<open>substr\<close> copies to a static array of 256 characters.\<close>

definition substr :: "string \<Rightarrow> nat \<Rightarrow> nat \<Rightarrow> string option" where
  "substr str start end = (if start \<le> end \<and> end \<le> length str \<and> end - start < 256 then Some (take (end - start) (drop start str)) else None)"

text \<open>The loop over the groups of a match, of which there is room for ten.\<close>

fun print_groups :: "nat \<Rightarrow> string \<Rightarrow> nat \<Rightarrow> (nat \<times> nat) list \<Rightarrow> string option" where
  "print_groups lno lbuf x [] = Some []"
| "print_groups lno lbuf x ((so, eo) # gs) =
     (if x < 10 then do {
        s \<leftarrow> substr lbuf so eo;
        t \<leftarrow> print_groups lno lbuf (Suc x) gs;
        Some ((if x = 0 then replicate (4 - length (show_nat lno)) CHR ''0'' @ show_nat lno @ '': '' @ lbuf @ [NL] else []) @
              ''    $'' @ show_nat x @ ''='' @ [CHR 0x27] @ s @ [CHR 0x27, NL] @ t)
      } else Some [])"

text \<open>What is in \<^verbatim>\<open>lbuf\<close> after \<^verbatim>\<open>fgets\<close>: the text up to a NUL, and a newline at its end is cut off.\<close>

definition strip_line :: "string \<Rightarrow> string" where
  "strip_line l = (let s = c_prefix l in if s \<noteq> [] \<and> last s = NL then butlast s else s)"

lemma fgets_loop_parts: "fgets_loop k s = (l, r, e) \<Longrightarrow> s = l @ r \<and> length l \<le> k"
  by (induction k s arbitrary: l r e rule: fgets_loop.induct) (auto split: if_splits prod.splits)

lemma fgets_loop_shorter: "(l, r, e) = fgets_loop k s \<Longrightarrow> l \<noteq> [] \<Longrightarrow> length r < length s"
  using fgets_loop_parts [of k s l r e] by auto

text \<open>The loop over the lines: the value that \<^verbatim>\<open>main\<close> returns, and what is printed.\<close>

function regexp_loop :: "regex \<Rightarrow> string \<Rightarrow> nat \<Rightarrow> string \<Rightarrow> (int \<times> string) option" where
  "regexp_loop re pattern lno input =
     (case fgets_loop 255 input of (l, rest, _) \<Rightarrow>
        if l = [] then Some (0, [])
        else
          let lno = Suc lno; lbuf = strip_line l in
          case re pattern lbuf of
            Bad_pattern \<Rightarrow> Some (1, [])
          | No_match \<Rightarrow> regexp_loop re pattern lno rest
          | Match_error \<Rightarrow> Some (2, [])
          | Groups gs \<Rightarrow> do {
              t \<leftarrow> print_groups lno lbuf 0 gs;
              (v, out) \<leftarrow> regexp_loop re pattern lno rest;
              Some (v, t @ out)
            })"
  by pat_completeness auto
termination
  by (relation "measure (\<lambda>(_, _, _, input). length input)") (auto dest: fgets_loop_shorter)

declare regexp_loop.simps [simp del]

text \<open>The pattern is compiled before anything is read.\<close>

definition regexp_main :: "regex \<Rightarrow> string \<Rightarrow> string \<Rightarrow> (int \<times> string) option" where
  "regexp_main re pattern input = (if re pattern [] = Bad_pattern then Some (1, []) else regexp_loop re pattern 0 input)"

section \<open>Properties\<close>

lemma print_groups_safe:
  assumes "\<forall>(so, eo) \<in> set gs. so \<le> eo \<and> eo \<le> length lbuf" "length lbuf < 256"
  shows "\<exists>t. print_groups lno lbuf x gs = Some t"
  using assms by (induction lno lbuf x gs rule: print_groups.induct) (auto simp: substr_def)

lemma strip_line_short: "length l \<le> 255 \<Longrightarrow> length (strip_line l) < 256"
  using length_takeWhile_le [of "\<lambda>c. c \<noteq> NUL" l] by (auto simp: strip_line_def Let_def)

text \<open>
  On every input the program ends, and no array is overrun: a line, cut after 255 characters, has no group that is longer.
\<close>

lemma regexp_safe:
  assumes "regex_laws re"
  shows "\<exists>v out. regexp_loop re pattern lno input = Some (v, out)"
  using assms
proof (induction re pattern lno input rule: regexp_loop.induct)
  case (1 re pattern lno input)
  obtain l rest e where f: "fgets_loop 255 input = (l, rest, e)"
    by (cases "fgets_loop 255 input")
  show ?case
  proof (cases "l = []")
    case False
    have pg: "\<exists>t. print_groups (Suc lno) (strip_line l) 0 gs = Some t" if "re pattern (strip_line l) = Groups gs" for gs
    proof (rule print_groups_safe)
      show "\<forall>(so, eo) \<in> set gs. so \<le> eo \<and> eo \<le> length (strip_line l)"
        using "1.prems" that unfolding regex_laws_def by blast
      show "length (strip_line l) < 256"
        using strip_line_short [of l] fgets_loop_parts [OF f] by simp
    qed
    show ?thesis
    proof (cases "re pattern (strip_line l)")
      case No_match
      then show ?thesis
        using "1.IH"(1) [OF f [symmetric] refl False refl refl No_match "1.prems"] False f by (simp add: regexp_loop.simps [of re pattern lno])
    next
      case (Groups gs)
      obtain t where t: "print_groups (Suc lno) (strip_line l) 0 gs = Some t"
        using pg [OF Groups] by blast
      show ?thesis
        using "1.IH"(2) [OF f [symmetric] refl False refl refl Groups t "1.prems"] False f Groups t by (auto simp: regexp_loop.simps [of re pattern lno])
    qed (use False f in \<open>simp_all add: regexp_loop.simps [of re pattern lno]\<close>)
  qed (simp add: f regexp_loop.simps)
qed

end
