(* ===== verification/Spec2Isabelle.thy ===== *)
theory Spec2Isabelle
  imports Bns_Items Bistree Clone Broker_Turns Threadpool Processpool Chat Event_Server One_Shot Curl_Epoll Csv_Insert Zmq_Examples Buffer_Events Regexp
begin

text \<open>Verification of the sweet-clib library.\<close>

section \<open>Majordomo: worker, broker and client together\<close>

lemma worker_reply_routed:
  assumes laws: "mdp_laws env" and reach: "broker_reach env s"
    and w: "worker_at s p = Some w" "service_at s (wk_service w) = Some v" "p \<notin> set (waits env s)"
    and fs: "zg_frames (e_msg env) msg = MDPW_REPLY # client # [] # body"
  shows "\<exists>s' y ys. s_broker_worker_msg env (wk_identity w) msg s = Some s' \<and> b_sent s' = b_sent s @ y # ys \<and>
    zg_frames (e_msg env) y = client # [] # MDPC_CLIENT # sv_name v # body"
proof -
  have inv: "broker_inv env s" and q: "quiet env s"
    using broker_reach_inv [OF reach laws] by auto
  note V = broker_viewD [OF broker_invD(5) [OF inv]]
  have id: "zh_lookup (e_wh env) (b_workers s) (zf_strhex (e_msg env) (wk_identity w)) = Some p"
    using V(3,4) [OF w(1)] by simp
  have r: "wk_service w \<noteq> Null"
    using w(2) by auto
  let ?m = "snd (zg_pop (e_msg env) msg)"
  let ?y = "zg_wrap (e_msg env) client (zg_push (e_msg env) MDPC_CLIENT (zg_push (e_msg env) (sv_name v)
    (snd (zg_unwrap (e_msg env) ?m))))"
  let ?s = "s\<lparr>b_sent := b_sent s @ [?y]\<rparr>"
  obtain s1 where s1: "s_worker_waiting env p ?s = s_service_dispatch env (wk_service w) None s1" "broker_inv env s1"
    "service_at s1 (wk_service w) \<noteq> None" "b_sent s1 = b_sent ?s"
    using worker_waiting_step [OF laws, of ?s p w] inv q w r by auto
  obtain s0 k s2 v1 s' where "s_service_dispatch env (wk_service w) None s1 = Some s'" "enqueued env (wk_service w) [] s1 s0"
    "purged env k s0 s2" "dispatched env (wk_service w) (swaits env v1) (sreqs env v1) s2 s'"
    using service_dispatch_ok [OF laws s1(2,3), of None] by auto
  then obtain xs where s': "s_worker_waiting env p ?s = Some s'" "b_sent s' = b_sent s @ ?y # xs"
    using s1(1,4) by (auto simp: enqueued_def purged_def dispatched_def)
  have "s_broker_worker_msg env (wk_identity w) msg s = s_worker_waiting env p ?s"
    using id w fs laws by (simp add: s_broker_worker_msg_def s_worker_require_def Let_def command_defs)
  then show ?thesis
    using s' fs laws by (intro exI [of _ s'] exI [of _ ?y]) auto
qed


text \<open>The worker of \<open>ex_broker\<close> is given a request and is busy.\<close>

definition ex_request :: "byte list list" where
  "ex_request = [[8], [], MDPC_CLIENT, [101], [9]]"

definition ex_busy :: "(byte list list, ptr list, byte list list list, (byte list \<times> ptr) list, (byte list \<times> ptr) list) broker_t" where
  "ex_busy = the (the (broker_turn (ex_env 0) (Recv ex_request) ex_broker))"

lemma ex_busy_reach: "broker_reach (ex_env 0) ex_busy"
proof (rule broker_reach.turn [OF ex_broker_reach])
  have "\<not> Option.is_none (broker_turn (ex_env 0) (Recv ex_request) ex_broker)"
    "\<not> Option.is_none (the (broker_turn (ex_env 0) (Recv ex_request) ex_broker))"
    unfolding ex_broker_def by code_simp+
  then show "broker_turn (ex_env 0) (Recv ex_request) ex_broker = Some (Some ex_busy)"
    unfolding ex_busy_def by (auto simp: Option.is_none_def)
next
  fix msg assume "Recv ex_request = Recv msg"
  then show "ok_msg (ex_env 0) ex_broker (zg_frames (e_msg (ex_env 0)) msg)"
    by (auto simp: ok_msg_def ex_request_def ex_env_def ex_zmsg_def MDPW_WORKER_def MDPC_CLIENT_def bytes_def)
qed

lemma ex_busy_facts:
  "waits (ex_env 0) ex_busy = []" "map_option wk_service (worker_at ex_busy (Ptr 0)) = Some (Ptr 0)"
  "map_option wk_identity (worker_at ex_busy (Ptr 0)) = Some [7]" "map_option sv_name (service_at ex_busy (Ptr 0)) = Some [101]"
  unfolding ex_busy_def ex_broker_def by code_simp+


end
